(* ===== verification/Xv6_Prelude.thy ===== *)
theory Xv6_Prelude
  imports Main "HOL-Library.Word" "HOL-Library.Monad_Syntax"
begin

text \<open>
  Shared by every component: the names of the machine types, the \<open>panic\<close> result, the
  byte-addressed kernel memory with its 32-bit little-endian loads and stores, page-sized
  fills and copies, and the generic lemmas on words, options and lists the component proofs
  use.

  A kernel function that may call \<open>panic\<close> has a result of type \<open>option\<close>. \<open>panic\<close>
  (console.c) prints its message and then loops for ever, so a call that panics never returns
  to its caller, and \<open>None\<close> is "does not return". A C result code such as \<open>-1\<close> or a null
  pointer is an ordinary value of the model.
\<close>

unbundle bit_operations_syntax

section \<open>Types\<close>

type_synonym u8 = "8 word"
type_synonym u16 = "16 word"
type_synonym u32 = "32 word"
type_synonym addr = "32 word"
type_synonym memory = "addr \<Rightarrow> u8"

named_theorems mem_simps \<open>reads over writes of the kernel memory\<close>
named_theorems page_simps \<open>arithmetic of page-aligned addresses\<close>
named_theorems frame_simps \<open>fields an operation leaves alone\<close>

definition panic :: "string \<Rightarrow> 'a option" where
  "panic msg = None"

lemma panic_not_Some [simp]: "panic msg \<noteq> Some x"
  by (simp add: panic_def)

lemma bind_panic [simp]: "panic msg \<bind> f = None"
  by (simp add: panic_def)

text \<open>An access with no defined result, such as one through a null pointer or outside an array.\<close>

definition ub :: "'a option" where
  "ub = None"

lemma ub_simps [simp]: "ub \<noteq> Some x" "ub \<bind> f = None"
  by (simp_all add: ub_def)

section \<open>Loops in the option type\<close>

text \<open>A \<open>for\<close> loop over a list of index values whose body may panic.\<close>

primrec for_each :: "('i \<Rightarrow> 's \<Rightarrow> 's option) \<Rightarrow> 'i list \<Rightarrow> 's \<Rightarrow> 's option" where
  "for_each body [] s = Some s"
| "for_each body (i # is) s = (body i s \<bind> for_each body is)"

lemma for_each_append:
  "for_each body (is @ js) s = (for_each body is s \<bind> for_each body js)"
  by (induction "is" arbitrary: s) (simp_all split: bind_split)

lemma for_each_invariant:
  assumes "for_each body is s = Some t" and "P s"
    and "\<And>i s t. i \<in> set is \<Longrightarrow> P s \<Longrightarrow> body i s = Some t \<Longrightarrow> P t"
  shows "P t"
  using assms
proof (induction "is" arbitrary: s)
  case Nil
  then show ?case by simp
next
  case (Cons i "is")
  from Cons.prems(1) obtain u where u: "body i s = Some u" and rest: "for_each body is u = Some t"
    by (auto simp: bind_eq_Some_conv)
  have "P u" using Cons.prems(2,3) u by auto
  then show ?case using Cons.IH [OF rest] Cons.prems(3) by auto
qed

text \<open>A loop that may also be left early: the body says whether to go on.\<close>

primrec for_while :: "('i \<Rightarrow> 's \<Rightarrow> (bool \<times> 's) option) \<Rightarrow> 'i list \<Rightarrow> 's \<Rightarrow> (bool \<times> 's) option" where
  "for_while body [] s = Some (True, s)"
| "for_while body (i # is) s = do {
     (go, s) \<leftarrow> body i s;
     if go then for_while body is s else Some (False, s) }"

section \<open>Words\<close>

lemma word_le_and_sub:
  fixes a b :: "'a::len word"
  shows "a \<le> b \<Longrightarrow> unat (b - a) = unat b - unat a"
  by (rule unat_sub)

lemma bit32_numeral_cases:
  fixes w :: u32
  assumes "\<And>n. n < 32 \<Longrightarrow> bit v n = bit w n"
  shows "v = w"
  using assms by (intro bit_word_eqI) simp

section \<open>Kernel memory\<close>

definition load32 :: "memory \<Rightarrow> addr \<Rightarrow> u32" where
  "load32 m a = ucast (m a) OR push_bit 8 (ucast (m (a + 1)))
     OR push_bit 16 (ucast (m (a + 2))) OR push_bit 24 (ucast (m (a + 3)))"

definition store32 :: "memory \<Rightarrow> addr \<Rightarrow> u32 \<Rightarrow> memory" where
  "store32 m a w = m(a := ucast w, a + 1 := ucast (drop_bit 8 w),
     a + 2 := ucast (drop_bit 16 w), a + 3 := ucast (drop_bit 24 w))"

definition fill :: "memory \<Rightarrow> addr \<Rightarrow> u8 \<Rightarrow> u32 \<Rightarrow> memory" where
  "fill m dst c n = (\<lambda>a. if a - dst < n then c else m a)"

definition copy_range :: "memory \<Rightarrow> addr \<Rightarrow> (u32 \<Rightarrow> u8) \<Rightarrow> u32 \<Rightarrow> memory" where
  "copy_range m dst f n = (\<lambda>a. if a - dst < n then f (a - dst) else m a)"

lemma load32_store32_same [simp, mem_simps]: "load32 (store32 m a w) a = w"
proof -
  have neq: "a + 1 \<noteq> a" "a + 2 \<noteq> a" "a + 3 \<noteq> a" "a + 2 \<noteq> a + 1" "a + 3 \<noteq> a + 1" "a + 3 \<noteq> a + 2"
    by simp_all
  have bytes: "load32 (store32 m a w) a = ucast (ucast w :: u8)
      OR push_bit 8 (ucast (ucast (drop_bit 8 w) :: u8))
      OR push_bit 16 (ucast (ucast (drop_bit 16 w) :: u8))
      OR push_bit 24 (ucast (ucast (drop_bit 24 w) :: u8))"
    by (simp add: load32_def store32_def neq neq [symmetric])
  have "bit (load32 (store32 m a w) a) n = bit w n" if "n < 32" for n
  proof -
    consider "n < 8" | "8 \<le> n" "n < 16" | "16 \<le> n" "n < 24" | "24 \<le> n"
      by linarith
    then show ?thesis
      unfolding bytes using that by cases (auto simp: bit_simps)
  qed
  then show ?thesis
    by (intro bit_word_eqI) simp
qed

text \<open>
  Word accesses of the kernel to page tables and free-list links are 4-aligned; two different
  aligned words do not overlap.
\<close>

definition aligned4 :: "addr \<Rightarrow> bool" where
  "aligned4 a \<longleftrightarrow> unat a mod 4 = 0"

lemma aligned4_offset:
  assumes "aligned4 a" and "i < 4"
  shows "unat (a + word_of_nat i) = unat a + i"
proof -
  have "unat a < 4294967296" using unsigned_less [of a] by simp
  moreover have "unat a mod 4 = 0" using assms(1) by (simp add: aligned4_def)
  ultimately have "unat a + i < 4294967296" using assms(2) by presburger
  then show ?thesis using assms(2)
    by (simp add: unat_word_ariths unat_of_nat)
qed

lemma aligned4_disjoint:
  assumes "aligned4 a" "aligned4 b" "a \<noteq> b" "i < 4" "j < 4"
  shows "a + word_of_nat i \<noteq> b + word_of_nat j"
proof
  assume "a + word_of_nat i = b + word_of_nat j"
  then have "unat a + i = unat b + j"
    using assms aligned4_offset by metis
  moreover have "unat a mod 4 = 0" "unat b mod 4 = 0"
    using assms by (simp_all add: aligned4_def)
  ultimately have "unat a = unat b" using assms(4,5) by presburger
  with \<open>a \<noteq> b\<close> show False by (simp add: word_unat_eq_iff)
qed

lemma store32_outside:
  assumes "\<And>i. i < 4 \<Longrightarrow> x \<noteq> a + word_of_nat i"
  shows "store32 m a w x = m x"
  using assms [of 0] assms [of 1] assms [of 2] assms [of 3]
  by (simp add: store32_def)

lemma load32_cong:
  assumes "\<And>i. i < 4 \<Longrightarrow> m (a + word_of_nat i) = m' (a + word_of_nat i)"
  shows "load32 m a = load32 m' a"
  using assms [of 0] assms [of 1] assms [of 2] assms [of 3]
  by (simp add: load32_def)

lemma load32_store32_other [simp, mem_simps]:
  assumes "aligned4 a" "aligned4 b" "a \<noteq> b"
  shows "load32 (store32 m a w) b = load32 m b"
  by (intro load32_cong store32_outside aligned4_disjoint) (use assms in auto)

end
