(* ===== verification/Mmu.thy ===== *)
theory Mmu
  imports Xv6_Prelude
begin

text \<open>
  The constants and macros of \<open>param.h\<close>, \<open>memlayout.h\<close> and \<open>mmu.h\<close>: address-space
  layout, the split of a virtual address into directory index, table index and offset, page
  rounding, page-table entries, segment and gate descriptors. Addresses and entries are
  32-bit words, so every macro wraps exactly as the C expression on \<open>uint\<close> does; the
  bit-fields of the descriptor structs keep their widths.
\<close>

section \<open>Constants\<close>

abbreviation (input) NPROC :: nat where "NPROC \<equiv> 64"
abbreviation (input) KSTACKSIZE :: u32 where "KSTACKSIZE \<equiv> 4096"
abbreviation (input) NCPU :: nat where "NCPU \<equiv> 8"
abbreviation (input) NOFILE :: nat where "NOFILE \<equiv> 16"
abbreviation (input) NFILE :: nat where "NFILE \<equiv> 100"
abbreviation (input) NINODE :: nat where "NINODE \<equiv> 50"
abbreviation (input) MAXARG :: nat where "MAXARG \<equiv> 32"
abbreviation (input) MAXOPBLOCKS :: nat where "MAXOPBLOCKS \<equiv> 10"
abbreviation (input) LOGSIZE :: nat where "LOGSIZE \<equiv> 30"
abbreviation (input) NBUF :: nat where "NBUF \<equiv> 30"
abbreviation (input) FSSIZE :: nat where "FSSIZE \<equiv> 1000"

abbreviation (input) EXTMEM :: u32 where "EXTMEM \<equiv> 0x100000"
abbreviation (input) PHYSTOP :: u32 where "PHYSTOP \<equiv> 0xE000000"
abbreviation (input) DEVSPACE :: u32 where "DEVSPACE \<equiv> 0xFE000000"
abbreviation (input) KERNBASE :: u32 where "KERNBASE \<equiv> 0x80000000"
abbreviation (input) KERNLINK :: u32 where "KERNLINK \<equiv> 0x80100000"

abbreviation (input) PGSIZE :: u32 where "PGSIZE \<equiv> 4096"
abbreviation (input) NPDENTRIES :: nat where "NPDENTRIES \<equiv> 1024"
abbreviation (input) NPTENTRIES :: nat where "NPTENTRIES \<equiv> 1024"

abbreviation (input) PTE_P :: u32 where "PTE_P \<equiv> 0x001"
abbreviation (input) PTE_W :: u32 where "PTE_W \<equiv> 0x002"
abbreviation (input) PTE_U :: u32 where "PTE_U \<equiv> 0x004"
abbreviation (input) PTE_LAZY :: u32 where "PTE_LAZY \<equiv> 0x200"

abbreviation (input) FL_IF :: u32 where "FL_IF \<equiv> 0x200"
abbreviation (input) SEG_KCODE :: u32 where "SEG_KCODE \<equiv> 1"
abbreviation (input) SEG_KDATA :: u32 where "SEG_KDATA \<equiv> 2"
abbreviation (input) SEG_UCODE :: u32 where "SEG_UCODE \<equiv> 3"
abbreviation (input) SEG_UDATA :: u32 where "SEG_UDATA \<equiv> 4"
abbreviation (input) SEG_TSS :: u32 where "SEG_TSS \<equiv> 5"
abbreviation (input) DPL_USER :: u32 where "DPL_USER \<equiv> 3"

section \<open>Addresses\<close>

definition V2P :: "addr \<Rightarrow> addr" where
  "V2P a = a - KERNBASE"

definition P2V :: "addr \<Rightarrow> addr" where
  "P2V a = a + KERNBASE"

definition PDX :: "addr \<Rightarrow> u32" where
  "PDX va = drop_bit 22 va AND 0x3FF"

definition PTX :: "addr \<Rightarrow> u32" where
  "PTX va = drop_bit 12 va AND 0x3FF"

definition PGADDR :: "u32 \<Rightarrow> u32 \<Rightarrow> u32 \<Rightarrow> addr" where
  "PGADDR d t off = push_bit 22 d OR push_bit 12 t OR off"

definition PGROUNDUP :: "u32 \<Rightarrow> u32" where
  "PGROUNDUP sz = (sz + PGSIZE - 1) AND NOT (PGSIZE - 1)"

definition PGROUNDDOWN :: "u32 \<Rightarrow> u32" where
  "PGROUNDDOWN a = a AND NOT (PGSIZE - 1)"

definition PTE_ADDR :: "u32 \<Rightarrow> addr" where
  "PTE_ADDR pte = pte AND NOT 0xFFF"

definition PTE_FLAGS :: "u32 \<Rightarrow> u32" where
  "PTE_FLAGS pte = pte AND 0xFFF"

section \<open>Descriptors\<close>

record segdesc =
  lim_15_0 :: "16 word"
  base_15_0 :: "16 word"
  base_23_16 :: "8 word"
  seg_type :: "4 word"
  seg_s :: "1 word"
  seg_dpl :: "2 word"
  seg_p :: "1 word"
  lim_19_16 :: "4 word"
  seg_avl :: "1 word"
  seg_rsv1 :: "1 word"
  seg_db :: "1 word"
  seg_g :: "1 word"
  base_31_24 :: "8 word"

definition SEG :: "u32 \<Rightarrow> u32 \<Rightarrow> u32 \<Rightarrow> u32 \<Rightarrow> segdesc" where
  "SEG ty base lim dpl = \<lparr>
     lim_15_0 = ucast (drop_bit 12 lim AND 0xffff), base_15_0 = ucast (base AND 0xffff),
     base_23_16 = ucast (drop_bit 16 base AND 0xff), seg_type = ucast ty, seg_s = 1,
     seg_dpl = ucast dpl, seg_p = 1,
     lim_19_16 = ucast (drop_bit 28 lim), seg_avl = 0, seg_rsv1 = 0, seg_db = 1, seg_g = 1,
     base_31_24 = ucast (drop_bit 24 base)\<rparr>"

definition SEG16 :: "u32 \<Rightarrow> u32 \<Rightarrow> u32 \<Rightarrow> u32 \<Rightarrow> segdesc" where
  "SEG16 ty base lim dpl = \<lparr>
     lim_15_0 = ucast (lim AND 0xffff), base_15_0 = ucast (base AND 0xffff),
     base_23_16 = ucast (drop_bit 16 base AND 0xff), seg_type = ucast ty, seg_s = 1,
     seg_dpl = ucast dpl, seg_p = 1,
     lim_19_16 = ucast (drop_bit 16 lim), seg_avl = 0, seg_rsv1 = 0, seg_db = 1, seg_g = 0,
     base_31_24 = ucast (drop_bit 24 base)\<rparr>"

record gatedesc =
  off_15_0 :: "16 word"
  gate_cs :: "16 word"
  gate_args :: "5 word"
  gate_rsv1 :: "3 word"
  gate_type :: "4 word"
  gate_s :: "1 word"
  gate_dpl :: "2 word"
  gate_p :: "1 word"
  off_31_16 :: "16 word"

definition SETGATE :: "bool \<Rightarrow> u32 \<Rightarrow> u32 \<Rightarrow> u32 \<Rightarrow> gatedesc" where
  "SETGATE istrap sel off d = \<lparr>
     off_15_0 = ucast (off AND 0xffff), gate_cs = ucast sel, gate_args = 0, gate_rsv1 = 0,
     gate_type = (if istrap then 0xF else 0xE), gate_s = 0, gate_dpl = ucast d, gate_p = 1,
     off_31_16 = ucast (drop_bit 16 off)\<rparr>"

text \<open>What the processor reads back from a descriptor: the base, the limit in bytes and the
  handler offset.\<close>

definition seg_base :: "segdesc \<Rightarrow> u32" where
  "seg_base d = ucast (base_15_0 d) OR push_bit 16 (ucast (base_23_16 d))
     OR push_bit 24 (ucast (base_31_24 d))"

definition seg_limit :: "segdesc \<Rightarrow> u32" where
  "seg_limit d = (let raw = ucast (lim_15_0 d) OR push_bit 16 (ucast (lim_19_16 d))
     in if seg_g d = 1 then push_bit 12 raw OR 0xFFF else raw)"

definition gate_offset :: "gatedesc \<Rightarrow> u32" where
  "gate_offset g = ucast (off_15_0 g) OR push_bit 16 (ucast (off_31_16 g))"

section \<open>Bits of the masks\<close>

lemma mask10: "(0x3FF :: u32) = mask 10"
  and mask12: "(0xFFF :: u32) = mask 12"
  and mask16: "(0xFFFF :: u32) = mask 16"
  and mask8: "(0xFF :: u32) = mask 8"
  by (simp_all add: mask_eq_exp_minus_1)

definition page_aligned :: "addr \<Rightarrow> bool" where
  "page_aligned a \<longleftrightarrow> unat a mod 4096 = 0"

lemma unat_less_4G: "unat (a :: u32) < 4294967296"
  using unsigned_less [of a] by simp

lemma unat_drop: "unat (drop_bit n (a :: u32)) = unat a div 2 ^ n"
  by (subst unat_drop_bit_eq) (rule drop_bit_eq_div)

lemma unat_take: "unat (take_bit n (a :: u32)) = unat a mod 2 ^ n"
  by (subst unsigned_take_bit_eq) (rule take_bit_eq_mod)

lemma and_mask12_unat: "unat (a AND 0xFFF :: u32) = unat a mod 4096"
  by (simp add: mask12 take_bit_eq_mask [symmetric] unat_take)

lemma andnot_mask12_unat: "unat (a AND NOT 0xFFF :: u32) = unat a div 4096 * 4096"
proof -
  have "a AND NOT 0xFFF = push_bit 12 (drop_bit 12 a)"
    unfolding mask12 by (rule bit_word_eqI) (auto simp: bit_simps)
  moreover have "unat (drop_bit 12 a) = unat a div 4096"
    by (simp add: unat_drop)
  moreover have "unat a div 4096 * 4096 < 4294967296"
    using unat_less_4G [of a] by linarith
  ultimately show ?thesis
    by (simp add: push_bit_eq_mult unat_word_ariths)
qed

lemma unat_PDX: "unat (PDX va) = unat va div 4194304"
proof -
  have "unat va div 4194304 < 1024"
    using unat_less_4G [of va] by linarith
  then show ?thesis
    by (simp add: PDX_def mask10 take_bit_eq_mask [symmetric] unat_take unat_drop)
qed

lemma unat_PTX: "unat (PTX va) = unat va div 4096 mod 1024"
  by (simp add: PTX_def mask10 take_bit_eq_mask [symmetric] unat_take unat_drop)

lemma unat_PGROUNDDOWN: "unat (PGROUNDDOWN a) = unat a div 4096 * 4096"
  using andnot_mask12_unat [of a] by (simp add: PGROUNDDOWN_def)

lemma unat_PTE_ADDR: "unat (PTE_ADDR a) = unat a div 4096 * 4096"
  using andnot_mask12_unat [of a] by (simp add: PTE_ADDR_def)

lemma unat_PTE_FLAGS: "unat (PTE_FLAGS a) = unat a mod 4096"
  using and_mask12_unat [of a] by (simp add: PTE_FLAGS_def)

lemma unat_PGROUNDUP:
  assumes "unat sz + 4095 < 4294967296"
  shows "unat (PGROUNDUP sz) = (unat sz + 4095) div 4096 * 4096"
proof -
  have "unat (sz + PGSIZE - 1) = unat sz + 4095"
    using assms by (simp add: unat_word_ariths add_diff_eq [symmetric])
  then show ?thesis
    using andnot_mask12_unat [of "sz + PGSIZE - 1"] by (simp add: PGROUNDUP_def)
qed

lemma PGROUNDUP_wraps:
  assumes "4294967296 - 4096 < unat sz"
  shows "PGROUNDUP sz = 0"
proof -
  have "unat (sz + 4095) = unat sz + 4095 - 4294967296"
    using assms unat_less_4G [of sz]
    by (simp add: unat_word_ariths mod_if)
  then have "unat (sz + 4095) < 4096"
    using assms unat_less_4G [of sz] by simp
  then have "unat (PGROUNDUP sz) = 0"
    using andnot_mask12_unat [of "sz + 4095"] by (simp add: PGROUNDUP_def add_diff_eq [symmetric])
  then show ?thesis by (simp add: unsigned_eq_0_iff)
qed

lemma PDX_less: "unat (PDX va) < 1024"
  using unat_less_4G [of va] by (simp add: unat_PDX)

lemma PTX_less: "unat (PTX va) < 1024"
  by (simp add: unat_PTX)

lemma PGROUNDDOWN_eq_iff:
  "PGROUNDDOWN a = PGROUNDDOWN b \<longleftrightarrow> PDX a = PDX b \<and> PTX a = PTX b"
proof -
  have "PGROUNDDOWN a = PGROUNDDOWN b \<longleftrightarrow> unat a div 4096 = unat b div 4096"
    by (simp add: word_unat_eq_iff unat_PGROUNDDOWN)
  also have "\<dots> \<longleftrightarrow> unat a div 4096 div 1024 = unat b div 4096 div 1024
      \<and> unat a div 4096 mod 1024 = unat b div 4096 mod 1024"
    by (metis div_mult_mod_eq)
  also have "\<dots> \<longleftrightarrow> PDX a = PDX b \<and> PTX a = PTX b"
    by (simp add: word_unat_eq_iff unat_PDX unat_PTX div_mult2_eq [symmetric])
  finally show ?thesis .
qed

lemma PGADDR_of_parts: "PGADDR (PDX va) (PTX va) (PTE_FLAGS va) = va"
  unfolding PGADDR_def PDX_def PTX_def PTE_FLAGS_def mask10 mask12
proof (rule bit_word_eqI)
  fix n :: nat
  assume n: "n < LENGTH(32)"
  consider "n < 12" | "12 \<le> n" "n < 22" | "22 \<le> n" by linarith
  then show "bit (push_bit 22 (drop_bit 22 va AND mask 10) OR
      push_bit 12 (drop_bit 12 va AND mask 10) OR (va AND mask 12)) n = bit va n"
    using n by cases (auto simp: bit_simps)
qed

lemma page_aligned_room:
  assumes "page_aligned a" and "k \<le> 4096"
  shows "unat a + k \<le> 4294967296"
proof -
  obtain q where q: "unat a = 4096 * q"
    using assms(1) by (auto simp: page_aligned_def mod_eq_0_iff_dvd elim: dvdE)
  then have "q < 1048576" using unat_less_4G [of a] by linarith
  with q assms(2) show ?thesis by linarith
qed

lemma page_or_flags_disjoint:
  fixes a f :: u32
  assumes "page_aligned a" and "unat f < 4096"
  shows "a AND f = 0"
proof (rule bit_word_eqI)
  fix n :: nat
  have f: "take_bit 12 f = f"
    using assms(2) by (simp add: word_unat_eq_iff unat_take)
  have "unat (take_bit 12 a) = 0"
    using assms(1) by (simp add: page_aligned_def unat_take)
  then have a: "take_bit 12 a = 0" by (simp add: unsigned_eq_0_iff)
  have "\<not> bit (take_bit 12 a) n" by (simp add: a)
  moreover have "bit (take_bit 12 f) n \<longleftrightarrow> bit f n" by (simp add: f)
  ultimately show "bit (a AND f) n = bit 0 n"
    by (auto simp: bit_simps)
qed

lemma unat_page_or_flags:
  fixes a f :: u32
  assumes "page_aligned a" and "unat f < 4096"
  shows "unat (a OR f) = unat a + unat f"
proof -
  have "a OR f = a + f"
    using page_or_flags_disjoint [OF assms] by (simp add: disjunctive_add_eq_or)
  moreover have "unat a + unat f < 4294967296"
    using page_aligned_room [OF assms(1), of "unat f + 1"] assms(2) by simp
  ultimately show ?thesis by (simp add: unat_word_ariths)
qed

lemma PTE_ADDR_or [simp, page_simps]:
  assumes "page_aligned a" and "unat f < 4096"
  shows "PTE_ADDR (a OR f) = a"
proof -
  have "unat a mod 4096 = 0" using assms(1) by (simp add: page_aligned_def)
  then have "(unat a + unat f) div 4096 * 4096 = unat a"
    using assms(2) by (metis add.right_neutral div_less div_mult_mod_eq div_plus_div_distrib_dvd_left
        dvd_imp_mod_0 mod_0_imp_dvd)
  then show ?thesis
    by (simp add: word_unat_eq_iff unat_PTE_ADDR unat_page_or_flags assms)
qed

lemma PGADDR_parts:
  assumes "unat d < 1024" "unat t < 1024" "unat off < 4096"
  shows "PDX (PGADDR d t off) = d" "PTX (PGADDR d t off) = t" "PTE_FLAGS (PGADDR d t off) = off"
proof -
  have "take_bit 10 d = d" "take_bit 10 t = t" "take_bit 12 off = off"
    using assms by (simp_all add: word_unat_eq_iff unat_take)
  then have b: "bit d n \<Longrightarrow> n < 10" "bit t n \<Longrightarrow> n < 10" "bit off n \<Longrightarrow> n < 12" for n
    by (metis bit_take_bit_iff)+
  show "PDX (PGADDR d t off) = d" 
    unfolding PGADDR_def PDX_def mask10
    by (rule bit_word_eqI) (auto simp: bit_simps dest: b)
  show "PTX (PGADDR d t off) = t" 
    unfolding PGADDR_def PTX_def mask10
    by (rule bit_word_eqI) (auto simp: bit_simps dest: b)
  show "PTE_FLAGS (PGADDR d t off) = off" 
    unfolding PGADDR_def PTE_FLAGS_def mask12
    by (rule bit_word_eqI) (auto simp: bit_simps dest: b)
qed

section \<open>Words and pages of the kernel memory\<close>

lemma page_aligned_PGROUNDDOWN [simp]: "page_aligned (PGROUNDDOWN a)"
  by (simp add: page_aligned_def unat_PGROUNDDOWN)

lemma page_aligned_PGROUNDUP [simp]: "page_aligned (PGROUNDUP sz)"
  using page_aligned_PGROUNDDOWN [of "sz + PGSIZE - 1"] by (simp add: PGROUNDUP_def PGROUNDDOWN_def)

lemma page_aligned_PTE_ADDR [simp]: "page_aligned (PTE_ADDR a)"
  by (simp add: page_aligned_def unat_PTE_ADDR)

lemma page_aligned_id [simp, page_simps]: "page_aligned p \<Longrightarrow> PGROUNDDOWN p = p"
  by (auto simp: page_aligned_def word_unat_eq_iff unat_PGROUNDDOWN)

lemma page_aligned_aligned4: "page_aligned p \<Longrightarrow> aligned4 p"
  using mod_mod_cancel [of 4 4096 "unat p"] by (simp add: page_aligned_def aligned4_def)

lemma div4096_add:
  assumes "(b :: nat) mod 4096 = 0" and "k < 4096"
  shows "(b + k) div 4096 * 4096 = b"
  using assms by (auto simp: mod_eq_0_iff_dvd elim!: dvdE)

lemma unat_slot:
  assumes "page_aligned p" and "unat i < 1024"
  shows "unat (p + 4 * i) = unat p + 4 * unat i"
proof -
  have "unat (4 * i) = 4 * unat i" using assms(2) by (simp add: unat_word_ariths)
  moreover have "unat p + 4 * unat i < 4294967296"
    using page_aligned_room [OF assms(1), of "4 * unat i + 1"] assms(2) by simp
  ultimately show ?thesis by (simp add: unat_word_ariths)
qed

lemma slot_page [simp, page_simps]:
  "page_aligned p \<Longrightarrow> unat i < 1024 \<Longrightarrow> PGROUNDDOWN (p + 4 * i) = p"
  by (simp add: word_unat_eq_iff unat_PGROUNDDOWN unat_slot div4096_add page_aligned_def)

lemma slot_aligned4 [simp]:
  assumes "page_aligned p" and "unat i < 1024"
  shows "aligned4 (p + 4 * i)"
  using page_aligned_aligned4 [OF assms(1)] unat_slot [OF assms] by (simp add: aligned4_def)

lemma slot_inject:
  assumes "page_aligned p" "page_aligned q" "unat i < 1024" "unat j < 1024"
  shows "p + 4 * i = q + 4 * j \<longleftrightarrow> p = q \<and> i = j"
proof
  assume eq: "p + 4 * i = q + 4 * j"
  then have "p = q" using slot_page assms by metis
  with eq unat_slot [of p i] unat_slot [of q j] assms show "p = q \<and> i = j"
    by (simp add: word_unat_eq_iff)
qed simp

lemma aligned4_same_page:
  assumes "aligned4 a" and "i < 4"
  shows "PGROUNDDOWN (a + word_of_nat i) = PGROUNDDOWN a"
proof -
  have "unat a mod 4 = 0" using assms(1) by (simp add: aligned4_def)
  then obtain q where q: "unat a = 4 * q" by (auto simp: mod_eq_0_iff_dvd elim: dvdE)
  have "(4 * q + i) div 4096 = (4 * q) div 4096"
    using assms(2) div_mult2_eq [of "4 * q + i" 4 1024] div_mult2_eq [of "4 * q" 4 1024] by simp
  then show ?thesis
    using aligned4_offset [OF assms] q by (simp add: word_unat_eq_iff unat_PGROUNDDOWN)
qed

lemma in_page_iff:
  assumes "page_aligned p"
  shows "a - p < PGSIZE \<longleftrightarrow> PGROUNDDOWN a = p"
proof
  assume "a - p < PGSIZE"
  then have k: "unat (a - p) < 4096" by (simp add: word_less_nat_alt)
  have "unat ((a - p) + p) = unat (a - p) + unat p"
    using page_aligned_room [OF assms, of "unat (a - p) + 1"] k
    by (subst unat_word_ariths) simp
  then have "unat a = unat p + unat (a - p)" by simp
  with k assms show "PGROUNDDOWN a = p"
    by (simp add: word_unat_eq_iff unat_PGROUNDDOWN div4096_add page_aligned_def)
next
  assume p: "PGROUNDDOWN a = p"
  have le: "p \<le> a" unfolding p [symmetric] by (simp add: word_le_nat_alt unat_PGROUNDDOWN)
  have "unat (a - p) = unat a - unat a div 4096 * 4096"
    using unat_sub [OF le] by (simp add: p [symmetric] unat_PGROUNDDOWN)
  also have "\<dots> < 4096" by (metis minus_div_mult_eq_mod mod_less_divisor zero_less_numeral)
  finally show "a - p < PGSIZE" by (simp add: word_less_nat_alt)
qed

lemma store32_other_page [mem_simps]:
  assumes "aligned4 a" and "PGROUNDDOWN x \<noteq> PGROUNDDOWN a"
  shows "store32 m a w x = m x"
  using assms by (intro store32_outside) (metis aligned4_same_page)

lemma load32_store32_other_page [mem_simps]:
  assumes "aligned4 a" "aligned4 b" "PGROUNDDOWN a \<noteq> PGROUNDDOWN b"
  shows "load32 (store32 m a w) b = load32 m b"
  using assms by (intro load32_store32_other) auto

lemma load32_fill_other [mem_simps]:
  assumes "page_aligned p" "aligned4 a" "PGROUNDDOWN a \<noteq> p"
  shows "load32 (fill m p c PGSIZE) a = load32 m a"
  using assms by (intro load32_cong) (simp add: fill_def in_page_iff aligned4_same_page)

lemma load32_fill_zero [mem_simps]:
  assumes "page_aligned p" "aligned4 a" "PGROUNDDOWN a = p"
  shows "load32 (fill m p 0 PGSIZE) a = 0"
proof -
  have z: "fill m p 0 PGSIZE (a + word_of_nat i) = 0" if "i < 4" for i
    using assms that by (simp add: fill_def in_page_iff aligned4_same_page)
  from z [of 0] z [of 1] z [of 2] z [of 3] show ?thesis by (simp add: load32_def)
qed

lemma load32_copy_range_other [mem_simps]:
  assumes "page_aligned p" "aligned4 a" "PGROUNDDOWN a \<noteq> p"
  shows "load32 (copy_range m p f PGSIZE) a = load32 m a"
  using assms by (intro load32_cong) (simp add: copy_range_def in_page_iff aligned4_same_page)

lemma load32_copy_page [mem_simps]:
  assumes "page_aligned p" "unat i < 1024"
  shows "load32 (copy_range m p (\<lambda>k. m' (q + k)) PGSIZE) (p + 4 * i) = load32 m' (q + 4 * i)"
proof (rule trans [OF load32_cong])
  fix k :: nat
  assume k: "k < 4"
  have "p + 4 * i + word_of_nat k - p < PGSIZE"
    using assms k aligned4_same_page [OF slot_aligned4, of p i k]
    by (subst in_page_iff) (simp_all only: slot_page)
  then show "copy_range m p (\<lambda>k. m' (q + k)) PGSIZE (p + 4 * i + word_of_nat k)
      = (\<lambda>x. m' (q + (x - p))) (p + 4 * i + word_of_nat k)"
    by (simp add: copy_range_def)
next
  show "load32 (\<lambda>x. m' (q + (x - p))) (p + 4 * i) = load32 m' (q + 4 * i)"
    by (simp add: load32_def algebra_simps)
qed

lemma V2P_P2V [simp]: "V2P (P2V a) = a" and P2V_V2P [simp]: "P2V (V2P a) = a"
  by (simp_all add: V2P_def P2V_def)

lemma unat_plus_KERNBASE:
  "unat (a + KERNBASE) = (if unat a < 2147483648 then unat a + 2147483648 else unat a - 2147483648)"
  using unat_less_4G [of a] by (auto simp: unat_word_ariths mod_if)

lemma page_aligned_P2V [simp]: "page_aligned (P2V a) \<longleftrightarrow> page_aligned a"
proof -
  have up: "(x + 2147483648) mod 4096 = x mod (4096 :: nat)" for x
    using mod_mult_self1 [of x 524288 4096] by simp
  have "(x - 2147483648) mod 4096 = x mod (4096 :: nat)" if "2147483648 \<le> x" for x
    using up [of "x - 2147483648"] that by simp
  with up show ?thesis
    by (simp add: page_aligned_def P2V_def unat_plus_KERNBASE)
qed

lemma page_aligned_V2P [simp]: "page_aligned (V2P a) \<longleftrightarrow> page_aligned a"
  by (metis P2V_V2P page_aligned_P2V)

lemma P2V_inject [simp]: "P2V a = P2V b \<longleftrightarrow> a = b" and V2P_inject [simp]: "V2P a = V2P b \<longleftrightarrow> a = b"
  by (simp_all add: P2V_def V2P_def)

section \<open>Properties\<close>

end
