(* ===== verification/Cstring.thy ===== *)
theory Cstring
  imports Mmu
begin

text \<open>
  The kernel's C string and memory library, \<open>string.c\<close>, over the byte-addressed memory.
  Pointers are 32-bit addresses and wrap; a \<open>while (n-- > 0)\<close> loop is a recursion on the
  number of rounds left. \<open>stosb\<close> and \<open>stosl\<close> are the string-store instructions \<open>x86.h\<close>
  wraps. \<open>strlen\<close> runs until it meets a zero byte and is a partial function.
\<close>

section \<open>Definitions\<close>

primrec stosb :: "memory \<Rightarrow> addr \<Rightarrow> u8 \<Rightarrow> nat \<Rightarrow> memory" where
  "stosb m a c 0 = m"
| "stosb m a c (Suc cnt) = stosb (m(a := c)) (a + 1) c cnt"

primrec stosl :: "memory \<Rightarrow> addr \<Rightarrow> u32 \<Rightarrow> nat \<Rightarrow> memory" where
  "stosl m a w 0 = m"
| "stosl m a w (Suc cnt) = stosl (store32 m a w) (a + 4) w cnt"

definition memset :: "memory \<Rightarrow> addr \<Rightarrow> u32 \<Rightarrow> u32 \<Rightarrow> memory" where
  "memset m dst c n =
     (if unat dst mod 4 = 0 \<and> unat n mod 4 = 0 then
        (let c = c AND 0xFF in
         stosl m dst (push_bit 24 c OR push_bit 16 c OR push_bit 8 c OR c) (unat n div 4))
      else stosb m dst (ucast c) (unat n))"

primrec memcmp_loop :: "memory \<Rightarrow> addr \<Rightarrow> addr \<Rightarrow> nat \<Rightarrow> int" where
  "memcmp_loop m s1 s2 0 = 0"
| "memcmp_loop m s1 s2 (Suc n) =
     (if m s1 \<noteq> m s2 then uint (m s1) - uint (m s2) else memcmp_loop m (s1 + 1) (s2 + 1) n)"

definition memcmp :: "memory \<Rightarrow> addr \<Rightarrow> addr \<Rightarrow> u32 \<Rightarrow> int" where
  "memcmp m v1 v2 n = memcmp_loop m v1 v2 (unat n)"

primrec copy_forward :: "memory \<Rightarrow> addr \<Rightarrow> addr \<Rightarrow> nat \<Rightarrow> memory" where
  "copy_forward m d s 0 = m"
| "copy_forward m d s (Suc n) = copy_forward (m(d := m s)) (d + 1) (s + 1) n"

primrec copy_backward :: "memory \<Rightarrow> addr \<Rightarrow> addr \<Rightarrow> nat \<Rightarrow> memory" where
  "copy_backward m d s 0 = m"
| "copy_backward m d s (Suc n) = copy_backward (m(d - 1 := m (s - 1))) (d - 1) (s - 1) n"

definition memmove :: "memory \<Rightarrow> addr \<Rightarrow> addr \<Rightarrow> u32 \<Rightarrow> memory" where
  "memmove m dst src n =
     (if src < dst \<and> dst < src + n then copy_backward m (dst + n) (src + n) (unat n)
      else copy_forward m dst src (unat n))"

definition memcpy :: "memory \<Rightarrow> addr \<Rightarrow> addr \<Rightarrow> u32 \<Rightarrow> memory" where
  "memcpy m dst src n = memmove m dst src n"

primrec strncmp_loop :: "memory \<Rightarrow> addr \<Rightarrow> addr \<Rightarrow> nat \<Rightarrow> int" where
  "strncmp_loop m p q 0 = 0"
| "strncmp_loop m p q (Suc n) =
     (if m p \<noteq> 0 \<and> m p = m q then strncmp_loop m (p + 1) (q + 1) n
      else uint (m p) - uint (m q))"

definition strncmp :: "memory \<Rightarrow> addr \<Rightarrow> addr \<Rightarrow> u32 \<Rightarrow> int" where
  "strncmp m p q n = strncmp_loop m p q (unat n)"

primrec strncpy_pad :: "memory \<Rightarrow> addr \<Rightarrow> nat \<Rightarrow> memory" where
  "strncpy_pad m s 0 = m"
| "strncpy_pad m s (Suc n) = strncpy_pad (m(s := 0)) (s + 1) n"

primrec strncpy_loop :: "memory \<Rightarrow> addr \<Rightarrow> addr \<Rightarrow> nat \<Rightarrow> memory" where
  "strncpy_loop m s t 0 = m"
| "strncpy_loop m s t (Suc n) =
     (if m t \<noteq> 0 then strncpy_loop (m(s := m t)) (s + 1) (t + 1) n
      else strncpy_pad (m(s := m t)) (s + 1) n)"

definition strncpy :: "memory \<Rightarrow> addr \<Rightarrow> addr \<Rightarrow> int \<Rightarrow> memory" where
  "strncpy m s t n = strncpy_loop m s t (nat n)"

primrec safestrcpy_loop :: "memory \<Rightarrow> addr \<Rightarrow> addr \<Rightarrow> nat \<Rightarrow> memory" where
  "safestrcpy_loop m s t 0 = m(s := 0)"
| "safestrcpy_loop m s t (Suc n) =
     (if m t \<noteq> 0 then safestrcpy_loop (m(s := m t)) (s + 1) (t + 1) n
      else m(s := m t, s + 1 := 0))"

definition safestrcpy :: "memory \<Rightarrow> addr \<Rightarrow> addr \<Rightarrow> int \<Rightarrow> memory" where
  "safestrcpy m s t n = (if n \<le> 0 then m else safestrcpy_loop m s t (nat (n - 1)))"

partial_function (option) strlen_loop :: "memory \<Rightarrow> addr \<Rightarrow> nat \<Rightarrow> nat option" where
  "strlen_loop m s n = (if m (s + word_of_nat n) \<noteq> 0 then strlen_loop m s (n + 1) else Some n)"

definition strlen :: "memory \<Rightarrow> addr \<Rightarrow> nat option" where
  "strlen m s = strlen_loop m s 0"

text \<open>The bytes of a C string that a function limited to \<open>n\<close> bytes looks at.\<close>

definition bytes_at :: "memory \<Rightarrow> addr \<Rightarrow> nat \<Rightarrow> u8 list" where
  "bytes_at m a n = map (\<lambda>i. m (a + word_of_nat i)) [0..<n]"

definition cstr :: "memory \<Rightarrow> addr \<Rightarrow> nat \<Rightarrow> u8 list" where
  "cstr m a n = takeWhile (\<lambda>c. c \<noteq> 0) (bytes_at m a n)"

definition in_range :: "addr \<Rightarrow> nat \<Rightarrow> addr \<Rightarrow> bool" where
  "in_range a n x \<longleftrightarrow> unat (x - a) < n"

section \<open>Fills and copies\<close>

lemma bytes_at_Suc: "bytes_at m a (Suc n) = m a # bytes_at m (a + 1) n"
  by (simp add: bytes_at_def upt_conv_Cons map_Suc_upt [symmetric] add.assoc del: upt_Suc)

lemma length_bytes_at [simp]: "length (bytes_at m a n) = n"
  by (simp add: bytes_at_def)

lemma nth_bytes_at [simp]: "i < n \<Longrightarrow> bytes_at m a n ! i = m (a + word_of_nat i)"
  by (simp add: bytes_at_def)

lemma in_range_step:
  assumes "Suc n < 4294967296"
  shows "in_range a (Suc n) x \<longleftrightarrow> x = a \<or> in_range (a + 1) n x"
proof (cases "x = a")
  case False
  then have ne: "x - a \<noteq> 0" by simp
  have "unat (x - (a + 1)) = unat (x - a) - 1"
    using unat_minus_one [OF ne] by (simp add: algebra_simps)
  moreover have "0 < unat (x - a)" using ne by (simp add: unat_gt_0)
  ultimately show ?thesis using False by (auto simp: in_range_def)
qed (simp add: in_range_def)

lemma not_in_range_start: "n < 4294967296 \<Longrightarrow> \<not> in_range (a + 1) n a"
  by (simp add: in_range_def unsigned_minus_1_eq_mask mask_eq_exp_minus_1)

lemma stosb_apply:
  "n < 4294967296 \<Longrightarrow> stosb m a c n x = (if in_range a n x then c else m x)"
proof (induction n arbitrary: m a)
  case 0
  then show ?case by (simp add: in_range_def)
next
  case (Suc n)
  then show ?case by (auto simp: in_range_step)
qed

lemma stosb_add: "stosb m a c (i + j) = stosb (stosb m a c i) (a + word_of_nat i) c j"
  by (induction i arbitrary: m a) (simp_all add: add.assoc)

definition spread :: "u8 \<Rightarrow> u32" where
  "spread c = push_bit 24 (ucast c) OR push_bit 16 (ucast c) OR push_bit 8 (ucast c) OR ucast c"

lemma spread_bytes:
  "ucast (spread c) = c" "ucast (drop_bit 8 (spread c)) = c"
  "ucast (drop_bit 16 (spread c)) = c" "ucast (drop_bit 24 (spread c)) = c"
  unfolding spread_def by (rule bit_word_eqI, auto simp: bit_simps dest: bit_imp_le_length)+

lemma store32_spread: "store32 m a (spread c) = stosb m a c 4"
proof -
  have four: "(4 :: nat) = Suc (Suc (Suc (Suc 0)))" by simp
  show ?thesis by (simp add: store32_def spread_bytes four add.assoc)
qed

lemma stosl_spread: "stosl m a (spread c) n = stosb m a c (4 * n)"
proof (induction n arbitrary: m a)
  case (Suc n)
  have "4 * Suc n = 4 + 4 * n" by simp
  then show ?case by (simp only: stosl.simps store32_spread Suc.IH stosb_add) simp
qed simp

lemma and_FF_ucast: "(c :: u32) AND 0xFF = ucast (ucast c :: u8)"
  unfolding mask8 by (rule bit_word_eqI) (auto simp: bit_simps)

lemma memset_fill: "memset m dst c n = fill m dst (ucast c) n"
proof -
  have "fill m dst (ucast c) n = stosb m dst (ucast c) (unat n)"
    using unat_less_4G [of n]
    by (intro ext) (simp add: fill_def stosb_apply in_range_def word_less_nat_alt)
  moreover have "stosl m dst (push_bit 24 (c AND 0xFF) OR push_bit 16 (c AND 0xFF)
      OR push_bit 8 (c AND 0xFF) OR c AND 0xFF) (unat n div 4) = stosb m dst (ucast c) (unat n)"
    if "unat n mod 4 = 0"
  proof -
    have "4 * (unat n div 4) = unat n" using that by (metis add.right_neutral mult_div_mod_eq)
    then show ?thesis
      using stosl_spread [of m dst "ucast c" "unat n div 4"]
      by (simp only: spread_def and_FF_ucast)
  qed
  ultimately show ?thesis by (simp add: memset_def Let_def)
qed

definition copied :: "memory \<Rightarrow> addr \<Rightarrow> addr \<Rightarrow> nat \<Rightarrow> memory" where
  "copied m d s n = (\<lambda>x. if in_range d n x then m (s + (x - d)) else m x)"

lemma copy_forward_copied:
  assumes "n < 4294967296"
    and "\<And>i j. i < j \<Longrightarrow> j < n \<Longrightarrow> d + word_of_nat i \<noteq> s + word_of_nat j"
  shows "copy_forward m d s n = copied m d s n"
  using assms
proof (induction n arbitrary: m d s)
  case 0
  then show ?case by (simp add: copied_def in_range_def)
next
  case (Suc n)
  have IH: "copy_forward (m(d := m s)) (d + 1) (s + 1) n = copied (m(d := m s)) (d + 1) (s + 1) n"
  proof (rule Suc.IH)
    fix i j :: nat
    assume "i < j" "j < n"
    then show "d + 1 + word_of_nat i \<noteq> s + 1 + word_of_nat j"
      using Suc.prems(2) [of "Suc i" "Suc j"] by (simp add: add.assoc)
  qed (use Suc.prems in simp)
  have untouched: "s + (x - d) \<noteq> d" if "in_range (d + 1) n x" for x
  proof -
    have "x \<noteq> d" using that not_in_range_start Suc.prems(1) by auto
    then have k: "unat (x - d) - 1 < n" and pos: "0 < unat (x - d)"
      using that unat_minus_one [of "x - d"] by (auto simp: in_range_def algebra_simps unat_gt_0)
    have "d + word_of_nat 0 \<noteq> s + word_of_nat (unat (x - d))"
      using k pos by (intro Suc.prems(2)) auto
    then show ?thesis by auto
  qed
  have shift: "s + 1 + (x - (d + 1)) = s + (x - d)" for x by simp
  show ?case
    using Suc.prems(1) untouched not_in_range_start [of n d]
    by (auto simp: fun_eq_iff IH copied_def in_range_step shift)
qed

lemma in_range_last:
  assumes "n < 4294967296"
  shows "in_range d (Suc n) x \<longleftrightarrow> x = d + word_of_nat n \<or> in_range d n x"
proof -
  have "unat (x - d) = n \<longleftrightarrow> x = d + word_of_nat n"
    using assms by (auto simp: unat_of_nat)
  then show ?thesis by (auto simp: in_range_def less_Suc_eq)
qed

lemma copy_backward_copied:
  assumes "n < 4294967296"
    and "\<And>i j. i < j \<Longrightarrow> j < n \<Longrightarrow> d + word_of_nat j \<noteq> s + word_of_nat i"
  shows "copy_backward m (d + word_of_nat n) (s + word_of_nat n) n = copied m d s n"
  using assms
proof (induction n arbitrary: m)
  case 0
  then show ?case by (simp add: copied_def in_range_def)
next
  case (Suc n)
  define m' where "m' = m(d + word_of_nat n := m (s + word_of_nat n))"
  have IH: "copy_backward m' (d + word_of_nat n) (s + word_of_nat n) n = copied m' d s n"
    using Suc.prems by (intro Suc.IH) auto
  have untouched: "s + (x - d) \<noteq> d + word_of_nat n" if "in_range d n x" for x
    using Suc.prems(2) [of "unat (x - d)" n] that by (auto simp: in_range_def)
  have not_last: "\<not> in_range d n (d + word_of_nat n)"
    using Suc.prems(1) by (simp add: in_range_def unat_of_nat)
  have "copy_backward m (d + word_of_nat (Suc n)) (s + word_of_nat (Suc n)) (Suc n) = copied m' d s n"
    using IH by (simp add: m'_def)
  also have "\<dots> = copied m d s (Suc n)"
    using Suc.prems(1) untouched not_last
    by (auto simp: fun_eq_iff copied_def in_range_last m'_def)
  finally show ?case .
qed

lemma memmove_copied:
  assumes "unat src + unat n < 4294967296" and "unat dst + unat n < 4294967296"
  shows "memmove m dst src n = copied m dst src (unat n)"
proof -
  have offs: "unat (a + word_of_nat i) = unat a + i"
    if "unat a + unat n < 4294967296" "i < unat n" for a :: addr and i
    using that by (simp add: unat_word_ariths unat_of_nat)
  have sn: "unat (src + n) = unat src + unat n"
    using assms(1) by (simp add: unat_word_ariths)
  show ?thesis
  proof (cases "src < dst \<and> dst < src + n")
    case True
    have "copy_backward m (dst + word_of_nat (unat n)) (src + word_of_nat (unat n)) (unat n)
        = copied m dst src (unat n)"
    proof (rule copy_backward_copied)
      fix i j :: nat
      assume "i < j" "j < unat n"
      then show "dst + word_of_nat j \<noteq> src + word_of_nat i"
        using True offs [of dst j] offs [of src i] assms
        by (auto simp: word_unat_eq_iff word_less_nat_alt)
    qed (simp add: unat_less_4G)
    with True show ?thesis by (simp add: memmove_def)
  next
    case False
    have "copy_forward m dst src (unat n) = copied m dst src (unat n)"
    proof (rule copy_forward_copied)
      fix i j :: nat
      assume "i < j" "j < unat n"
      then show "dst + word_of_nat i \<noteq> src + word_of_nat j"
        using False offs [of dst i] offs [of src j] assms sn
        by (auto simp: word_unat_eq_iff word_less_nat_alt)
    qed (simp add: unat_less_4G)
    with False show ?thesis by (auto simp: memmove_def)
  qed
qed

section \<open>Comparison\<close>

lemma bytes_at_0 [simp]: "bytes_at m a 0 = []"
  by (simp add: bytes_at_def)

lemma cstr_0 [simp]: "cstr m a 0 = []"
  by (simp add: cstr_def)

lemma cstr_Suc: "cstr m a (Suc n) = (if m a = 0 then [] else m a # cstr m (a + 1) n)"
  by (simp add: cstr_def bytes_at_Suc)

lemma byte_diff_eq_0 [simp]: "uint (a :: u8) - uint b = 0 \<longleftrightarrow> a = b"
  by (simp add: word_uint_eq_iff)

lemma memcmp_loop_eq_0: "memcmp_loop m p q n = 0 \<longleftrightarrow> bytes_at m p n = bytes_at m q n"
  by (induction n arbitrary: p q) (auto simp: bytes_at_Suc word_uint_eq_iff)

lemma strncmp_loop_eq_0: "strncmp_loop m p q n = 0 \<longleftrightarrow> cstr m p n = cstr m q n"
  by (induction n arbitrary: p q) (auto simp: cstr_Suc word_uint_eq_iff)

section \<open>Bounded copies of strings\<close>

lemma bytes_at_cong:
  assumes "\<And>i. i < n \<Longrightarrow> m (a + word_of_nat i) = m' (a + word_of_nat i)"
  shows "bytes_at m a n = bytes_at m' a n"
  using assms by (intro nth_equalityI) auto

lemma cstr_cong:
  assumes "\<And>i. i < n \<Longrightarrow> m (a + word_of_nat i) = m' (a + word_of_nat i)"
  shows "cstr m a n = cstr m' a n"
  unfolding cstr_def using assms by (intro arg_cong [where f = "takeWhile _"] bytes_at_cong) blast

text \<open>Source and destination of a copy of at most \<open>n\<close> bytes do not overlap.\<close>

definition apart :: "addr \<Rightarrow> addr \<Rightarrow> nat \<Rightarrow> bool" where
  "apart s t n \<longleftrightarrow> n < 4294967296 \<and> (\<forall>i<n. \<forall>j<n. s + word_of_nat i \<noteq> t + word_of_nat j)"

lemma apartI:
  assumes "unat s + n \<le> unat t" "unat t + n < 4294967296"
  shows "apart s t n"
proof -
  have "unat (s + word_of_nat i) = unat s + i" "unat (t + word_of_nat i) = unat t + i" if "i < n" for i
    using that assms by (simp_all add: unat_word_ariths unat_of_nat)
  then show ?thesis
    using assms unfolding apart_def word_unat_eq_iff by auto
qed

lemma apart_step:
  assumes "apart s t (Suc n)"
  shows "apart (s + 1) (t + 1) n"
  unfolding apart_def
proof (intro conjI allI impI)
  fix i j assume "i < n" "j < n"
  with assms have "s + word_of_nat (Suc i) \<noteq> t + word_of_nat (Suc j)"
    unfolding apart_def by blast
  then show "s + 1 + word_of_nat i \<noteq> t + 1 + word_of_nat j" by (simp add: add.assoc)
qed (use assms in \<open>simp add: apart_def\<close>)

lemma apart_source_kept:
  assumes "apart s t (Suc n)"
  shows "cstr (m(s := c)) (t + 1) n = cstr m (t + 1) n"
proof (rule cstr_cong)
  fix i assume "i < n"
  then have "s + word_of_nat 0 \<noteq> t + word_of_nat (Suc i)"
    using assms unfolding apart_def by blast
  then show "(m(s := c)) (t + 1 + word_of_nat i) = m (t + 1 + word_of_nat i)"
    by (simp add: add.assoc)
qed

lemma safestrcpy_loop_outside:
  "Suc n < 4294967296 \<Longrightarrow> \<not> in_range s (Suc n) x \<Longrightarrow> safestrcpy_loop m s t n x = m x"
proof (induction n arbitrary: m s t)
  case 0
  then show ?case by (auto simp: in_range_def)
next
  case (Suc n)
  then have "x \<noteq> s" "\<not> in_range (s + 1) (Suc n) x"
    using in_range_step [of "Suc n" s x] by auto
  moreover from this have "x \<noteq> s + 1" by (auto simp: in_range_def)
  ultimately show ?case using Suc by simp
qed

lemma safestrcpy_loop_cstr:
  "apart s t (Suc n) \<Longrightarrow> cstr (safestrcpy_loop m s t n) s (Suc n) = cstr m t n"
proof (induction n arbitrary: m s t)
  case 0
  then show ?case by (simp add: cstr_Suc)
next
  case (Suc n)
  show ?case
  proof (cases "m t = 0")
    case True
    then show ?thesis by (simp add: cstr_Suc)
  next
    case False
    let ?m = "m(s := m t)"
    have "safestrcpy_loop ?m (s + 1) (t + 1) n s = m t"
      using Suc.prems not_in_range_start [of "Suc n" s]
      by (subst safestrcpy_loop_outside) (auto simp: apart_def)
    moreover have "cstr (safestrcpy_loop ?m (s + 1) (t + 1) n) (s + 1) (Suc n) = cstr m (t + 1) n"
    proof -
      have "apart s t (Suc n)" using Suc.prems by (auto simp: apart_def)
      then show ?thesis
        using Suc.IH [OF apart_step [OF Suc.prems], of ?m] apart_source_kept [of s t n m "m t"]
        by (simp only:)
    qed
    ultimately show ?thesis using False by (simp add: cstr_Suc [of _ s] cstr_Suc [of m t])
  qed
qed

lemma strncpy_pad_apply:
  "n < 4294967296 \<Longrightarrow> strncpy_pad m s n x = (if in_range s n x then 0 else m x)"
proof (induction n arbitrary: m s)
  case 0
  then show ?case by (simp add: in_range_def)
next
  case (Suc n)
  then show ?case by (auto simp: in_range_step)
qed

lemma strncpy_loop_outside:
  "n < 4294967296 \<Longrightarrow> \<not> in_range s n x \<Longrightarrow> strncpy_loop m s t n x = m x"
proof (induction n arbitrary: m s t)
  case (Suc n)
  then have "x \<noteq> s" "\<not> in_range (s + 1) n x"
    using in_range_step [of n s x] by auto
  with Suc show ?case by (simp add: strncpy_pad_apply)
qed simp

lemma strncpy_pad_bytes: "n < 4294967296 \<Longrightarrow> bytes_at (strncpy_pad m s n) s n = replicate n 0"
  by (intro nth_equalityI) (simp_all add: strncpy_pad_apply in_range_def unat_of_nat)

lemma strncpy_loop_bytes:
  "apart s t n \<Longrightarrow> bytes_at (strncpy_loop m s t n) s n
     = cstr m t n @ replicate (n - length (cstr m t n)) 0"
proof (induction n arbitrary: m s t)
  case 0
  then show ?case by simp
next
  case (Suc n)
  let ?m = "m(s := m t)"
  have small: "Suc n < 4294967296" "\<not> in_range (s + 1) n s"
    using Suc.prems not_in_range_start [of n s] by (auto simp: apart_def)
  show ?case
  proof (cases "m t = 0")
    case True
    have "strncpy_pad ?m (s + 1) n s = 0" using small True by (simp add: strncpy_pad_apply)
    with True show ?thesis using small
      by (simp add: cstr_Suc bytes_at_Suc strncpy_pad_bytes)
  next
    case False
    have "strncpy_loop ?m (s + 1) (t + 1) n s = m t"
      using small by (subst strncpy_loop_outside) auto
    moreover have "bytes_at (strncpy_loop ?m (s + 1) (t + 1) n) (s + 1) n
        = cstr m (t + 1) n @ replicate (n - length (cstr m (t + 1) n)) 0"
      using Suc.IH [OF apart_step [OF Suc.prems], of ?m] apart_source_kept [OF Suc.prems]
      by (simp only:)
    ultimately show ?thesis using False by (simp add: cstr_Suc bytes_at_Suc)
  qed
qed

lemma length_cstr: "length (cstr m a n) \<le> n"
  using length_takeWhile_le [of "\<lambda>c. c \<noteq> 0" "bytes_at m a n"] by (simp add: cstr_def)

section \<open>Length\<close>

lemma strlen_loop_finds:
  assumes "n \<le> k" "m (s + word_of_nat k) = 0"
    and "\<And>i. n \<le> i \<Longrightarrow> i < k \<Longrightarrow> m (s + word_of_nat i) \<noteq> 0"
  shows "strlen_loop m s n = Some k"
  using assms
proof (induction "k - n" arbitrary: n)
  case 0
  then show ?case by (subst strlen_loop.simps) simp
next
  case (Suc d)
  then have "m (s + word_of_nat n) \<noteq> 0" by simp
  moreover have "strlen_loop m s (n + 1) = Some k"
    using Suc by (intro Suc.hyps(1)) auto
  ultimately show ?case by (subst strlen_loop.simps) simp
qed

section \<open>Properties\<close>

text \<open>
  C25: \<open>memmove\<close> copies correctly also when the two ranges overlap, in either
  direction: afterwards the destination holds the bytes the source held before, and no byte
  outside the destination has changed.
\<close>

theorem memmove_correct:
  assumes "unat src + unat n < 4294967296" "unat dst + unat n < 4294967296"
  shows "bytes_at (memmove m dst src n) dst (unat n) = bytes_at m src (unat n)
    \<and> (\<forall>x. \<not> in_range dst (unat n) x \<longrightarrow> memmove m dst src n x = m x)"
proof -
  have "bytes_at (copied m dst src (unat n)) dst (unat n) = bytes_at m src (unat n)"
    using assms by (intro nth_equalityI) (simp_all add: copied_def in_range_def unat_of_nat)
  then show ?thesis
    unfolding memmove_copied [OF assms] by (simp add: copied_def)
qed

theorem memmove_correct_witness:
  "bytes_at (memmove (\<lambda>x. ucast x) 0x1002 0x1000 8) 0x1002 8 = [0, 1, 2, 3, 4, 5, 6, 7]"
proof -
  have "bytes_at (\<lambda>x. ucast x) 0x1000 8 = [0, 1, 2, 3, 4, 5, 6, 7]"
    by (simp add: bytes_at_def upt_rec)
  then show ?thesis using memmove_correct [of "0x1000" 8 "0x1002" "\<lambda>x. ucast x"] by simp
qed

text \<open>
  C39: \<open>safestrcpy\<close> with a positive size leaves in the destination, which it
  always terminates within \<open>n\<close> bytes, the source string cut to \<open>n - 1\<close> characters, and writes
  nothing outside the \<open>n\<close> bytes of the destination.
\<close>

theorem safestrcpy_correct:
  assumes "0 < n" "apart s t (nat n)"
  shows "cstr (safestrcpy m s t n) s (nat n) = cstr m t (nat n - 1)
    \<and> length (cstr (safestrcpy m s t n) s (nat n)) < nat n
    \<and> (\<forall>x. \<not> in_range s (nat n) x \<longrightarrow> safestrcpy m s t n x = m x)"
proof -
  obtain k where k: "nat n = Suc k" using assms(1) by (cases "nat n") auto
  then have "nat (n - 1) = k" by simp
  then have run: "safestrcpy m s t n = safestrcpy_loop m s t k" using assms(1) by (simp add: safestrcpy_def)
  moreover have "Suc k < 4294967296" using assms(2) k by (simp add: apart_def)
  ultimately show ?thesis
    using safestrcpy_loop_cstr [of s t k m] safestrcpy_loop_outside [of k s _ m t] assms(2) k length_cstr [of m t k]
    by simp
qed

theorem safestrcpy_correct_witness:
  "cstr (safestrcpy (\<lambda>x. ucast x) 0x100 0x201 4) 0x100 4 = [1, 2, 3]"
proof -
  have "apart 0x100 0x201 4" by (rule apartI) simp_all
  then have "cstr (safestrcpy (\<lambda>x. ucast x) 0x100 0x201 4) 0x100 4 = cstr (\<lambda>x. ucast x) 0x201 3"
    using safestrcpy_correct [of 4 "0x100" "0x201" "\<lambda>x. ucast x"] by simp
  also have "\<dots> = [1, 2, 3]" by (simp add: cstr_def bytes_at_def upt_rec)
  finally show ?thesis .
qed



end
