(* ===== verification/Kalloc.thy ===== *)
theory Kalloc
  imports Cstring
begin

text \<open>
  The physical page allocator, \<open>kalloc.c\<close>. The free pages are a singly linked list threaded
  through the pages themselves: the first word of a free page is the address of the next one
  (\<open>struct run\<close>), and \<open>kmem.freelist\<close> is the address of the first. \<open>kend\<close> is the linker's
  symbol \<open>end\<close>, the first address after the kernel; it never changes.

  The critical sections under \<open>kmem.lock\<close> are single steps of the model; the lock itself is
  modelled in \<open>Spinlock\<close>.
\<close>

section \<open>State and operations\<close>

record kmem =
  mem :: memory
  freelist :: addr
  use_lock :: bool
  kend :: addr

definition kfree :: "'a kmem_scheme \<Rightarrow> addr \<Rightarrow> 'a kmem_scheme option" where
  "kfree s v =
     (if unat v mod 4096 \<noteq> 0 \<or> v < kend s \<or> PHYSTOP \<le> V2P v then panic ''kfree''
      else
        let s = s\<lparr>mem := memset (mem s) v 1 PGSIZE\<rparr>;
            s = s\<lparr>mem := store32 (mem s) v (freelist s)\<rparr>
        in Some (s\<lparr>freelist := v\<rparr>))"

definition kalloc :: "'a kmem_scheme \<Rightarrow> addr \<times> 'a kmem_scheme" where
  "kalloc s =
     (let r = freelist s;
          s = (if r \<noteq> 0 then s\<lparr>freelist := load32 (mem s) r\<rparr> else s)
      in (r, s))"

partial_function (option) freerange_loop ::
  "addr \<Rightarrow> 'a kmem_scheme \<Rightarrow> addr \<Rightarrow> 'a kmem_scheme option" where
  "freerange_loop vend s p =
     (if p + PGSIZE \<le> vend then do { s \<leftarrow> kfree s p; freerange_loop vend s (p + PGSIZE) }
      else Some s)"

definition freerange :: "'a kmem_scheme \<Rightarrow> addr \<Rightarrow> addr \<Rightarrow> 'a kmem_scheme option" where
  "freerange s vstart vend = freerange_loop vend s (PGROUNDUP vstart)"

definition kinit1 :: "'a kmem_scheme \<Rightarrow> addr \<Rightarrow> addr \<Rightarrow> 'a kmem_scheme option" where
  "kinit1 s vstart vend = freerange (s\<lparr>use_lock := False\<rparr>) vstart vend"

definition kinit2 :: "'a kmem_scheme \<Rightarrow> addr \<Rightarrow> addr \<Rightarrow> 'a kmem_scheme option" where
  "kinit2 s vstart vend = do { s \<leftarrow> freerange s vstart vend; Some (s\<lparr>use_lock := True\<rparr>) }"

section \<open>Abstraction: the list of free pages\<close>

text \<open>A page the allocator may hold: what the guard of \<open>kfree\<close> lets through.\<close>

definition kpage :: "addr \<Rightarrow> addr \<Rightarrow> bool" where
  "kpage e v \<longleftrightarrow> page_aligned v \<and> e \<le> v \<and> V2P v < PHYSTOP"

primrec free_list :: "memory \<Rightarrow> addr \<Rightarrow> addr list \<Rightarrow> bool" where
  "free_list m p [] \<longleftrightarrow> p = 0"
| "free_list m p (a # as) \<longleftrightarrow> p = a \<and> a \<noteq> 0 \<and> free_list m (load32 m a) as"

definition kmem_inv :: "'a kmem_scheme \<Rightarrow> addr list \<Rightarrow> bool" where
  "kmem_inv s fl \<longleftrightarrow> free_list (mem s) (freelist s) fl \<and> distinct fl \<and> (\<forall>v \<in> set fl. kpage (kend s) v)"

lemma kpage_nonzero: "kpage e v \<Longrightarrow> v \<noteq> 0"
  by (auto simp: kpage_def V2P_def)

lemma kpage_aligned [dest]: "kpage e v \<Longrightarrow> page_aligned v"
  by (simp add: kpage_def)

lemma free_list_cong:
  "(\<And>a. a \<in> set fl \<Longrightarrow> load32 m' a = load32 m a) \<Longrightarrow> free_list m' p fl = free_list m p fl"
  by (induction fl arbitrary: p) auto

lemma free_list_unique: "free_list m p as \<Longrightarrow> free_list m p bs \<Longrightarrow> as = bs"
proof (induction as arbitrary: p bs)
  case Nil
  then show ?case by (cases bs) auto
next
  case (Cons a as)
  then show ?case by (cases bs) auto
qed

lemma kmem_inv_unique: "kmem_inv s as \<Longrightarrow> kmem_inv s bs \<Longrightarrow> as = bs"
  by (auto simp: kmem_inv_def dest: free_list_unique)

text \<open>Writing to pages that are not free does not disturb the list.\<close>

lemma kmem_inv_frame:
  assumes "kmem_inv s fl" "freelist s' = freelist s" "kend s' = kend s"
    and "\<And>a. PGROUNDDOWN a \<in> set fl \<Longrightarrow> mem s' a = mem s a"
  shows "kmem_inv s' fl"
proof -
  have "load32 (mem s') a = load32 (mem s) a" if "a \<in> set fl" for a
  proof (rule load32_cong)
    fix i :: nat assume "i < 4"
    moreover have "page_aligned a" using assms(1) that by (auto simp: kmem_inv_def)
    ultimately have "PGROUNDDOWN (a + word_of_nat i) = a"
      using aligned4_same_page page_aligned_aligned4 by simp
    with that show "mem s' (a + word_of_nat i) = mem s (a + word_of_nat i)"
      by (intro assms(4)) simp
  qed
  then have "free_list (mem s') p fl = free_list (mem s) p fl" for p
    by (rule free_list_cong)
  with assms(1-3) show ?thesis by (simp add: kmem_inv_def)
qed

lemma kalloc_mem [simp, frame_simps]:
  "mem (snd (kalloc s)) = mem s" "kend (snd (kalloc s)) = kend s" "use_lock (snd (kalloc s)) = use_lock s"
  by (simp_all add: kalloc_def Let_def)

lemma kalloc_Nil: "kmem_inv s [] \<Longrightarrow> kalloc s = (0, s)"
  by (simp add: kmem_inv_def kalloc_def)

lemma kalloc_Cons:
  assumes "kmem_inv s (v # vs)"
  shows "kalloc s = (v, s\<lparr>freelist := load32 (mem s) v\<rparr>)" "kmem_inv (s\<lparr>freelist := load32 (mem s) v\<rparr>) vs"
  using assms by (auto simp: kmem_inv_def kalloc_def)

lemma kfree_guard: "unat v mod 4096 \<noteq> 0 \<or> v < kend s \<or> PHYSTOP \<le> V2P v \<longleftrightarrow> \<not> kpage (kend s) v"
  by (auto simp: kpage_def page_aligned_def)

lemma kfree_eq:
  "kfree s v = (if kpage (kend s) v
     then Some (s\<lparr>mem := store32 (fill (mem s) v 1 PGSIZE) v (freelist s), freelist := v\<rparr>) else None)"
  unfolding kfree_def kfree_guard by (simp add: memset_fill panic_def)

lemma kfree_other_page:
  assumes "kfree s v = Some s'" "PGROUNDDOWN a \<noteq> v"
  shows "mem s' a = mem s a"
  using assms page_aligned_aligned4 [of v]
  by (auto simp: kfree_eq kpage_def store32_other_page fill_def in_page_iff split: if_splits)

lemma kfree_inv:
  assumes "kmem_inv s fl" "kpage (kend s) v" "v \<notin> set fl"
  shows "\<exists>s'. kfree s v = Some s' \<and> kmem_inv s' (v # fl) \<and> kend s' = kend s"
proof -
  obtain s' where s': "kfree s v = Some s'" using assms(2) by (auto simp: kfree_eq)
  then have eq: "s' = s\<lparr>mem := store32 (fill (mem s) v 1 PGSIZE) v (freelist s), freelist := v\<rparr>"
    using assms(2) by (simp add: kfree_eq)
  have "kmem_inv (s'\<lparr>freelist := freelist s\<rparr>) fl"
  proof (rule kmem_inv_frame [OF assms(1)])
    fix a assume "PGROUNDDOWN a \<in> set fl"
    with assms(3) have "PGROUNDDOWN a \<noteq> v" by auto
    then show "mem (s'\<lparr>freelist := freelist s\<rparr>) a = mem s a"
      using kfree_other_page [OF s'] by simp
  qed (simp_all add: eq)
  then have "kmem_inv s' (v # fl)"
    using assms kpage_nonzero by (auto simp: kmem_inv_def eq)
  with s' show ?thesis by (auto simp: eq)
qed

section \<open>The contract of a page allocator\<close>

text \<open>
  What the clients of \<open>kalloc\<close> and \<open>kfree\<close> rely on. \<open>rep s vs\<close> says that exactly the pages
  \<open>vs\<close> are free in \<open>s\<close>, the next one to hand out first.
\<close>

locale page_allocator =
  fixes alloc :: "'s \<Rightarrow> addr \<times> 's"
    and free :: "'s \<Rightarrow> addr \<Rightarrow> 's option"
    and memory_of :: "'s \<Rightarrow> memory"
    and rep :: "'s \<Rightarrow> addr list \<Rightarrow> bool"
    and valid :: "'s \<Rightarrow> addr \<Rightarrow> bool"
  assumes alloc_empty: "rep s [] \<Longrightarrow> alloc s = (0, s)"
    and alloc_first: "rep s (v # vs) \<Longrightarrow> fst (alloc s) = v \<and> rep (snd (alloc s)) vs"
    and alloc_memory: "memory_of (snd (alloc s)) = memory_of s"
    and alloc_valid: "valid (snd (alloc s)) = valid s"
    and free_page: "rep s vs \<Longrightarrow> valid s v \<Longrightarrow> v \<notin> set vs \<Longrightarrow>
      \<exists>s'. free s v = Some s' \<and> rep s' (v # vs)"
    and free_memory: "free s v = Some s' \<Longrightarrow> PGROUNDDOWN a \<noteq> v \<Longrightarrow> memory_of s' a = memory_of s a"
    and free_valid: "free s v = Some s' \<Longrightarrow> valid s' = valid s"
    and rep_valid: "rep s vs \<Longrightarrow> v \<in> set vs \<Longrightarrow> valid s v"
    and rep_distinct: "rep s vs \<Longrightarrow> distinct vs"
    and valid_page: "valid s v \<Longrightarrow> page_aligned v \<and> v \<noteq> 0"
begin

text \<open>Clients that take several pages and give them back.\<close>

primrec take_pages :: "nat \<Rightarrow> 's \<Rightarrow> addr list \<times> 's" where
  "take_pages 0 s = ([], s)"
| "take_pages (Suc n) s = (let (v, s) = alloc s; (vs, s) = take_pages n s in (v # vs, s))"

primrec give_pages :: "addr list \<Rightarrow> 's \<Rightarrow> 's option" where
  "give_pages [] s = Some s"
| "give_pages (v # vs) s = (free s v \<bind> give_pages vs)"

lemma take_pages_rep:
  "rep s vs \<Longrightarrow> n \<le> length vs \<Longrightarrow>
   fst (take_pages n s) = take n vs \<and> rep (snd (take_pages n s)) (drop n vs)
   \<and> memory_of (snd (take_pages n s)) = memory_of s \<and> valid (snd (take_pages n s)) = valid s"
proof (induction n arbitrary: s vs)
  case (Suc n)
  then obtain w ws where vs: "vs = w # ws" by (cases vs) auto
  with Suc.prems have rep': "rep (snd (alloc s)) ws" and w: "fst (alloc s) = w"
    using alloc_first by auto
  from Suc.IH [OF rep'] Suc.prems(2) vs w show ?case
    by (auto simp: case_prod_beta Let_def alloc_memory alloc_valid)
qed simp

lemma give_pages_rep:
  "rep s ws \<Longrightarrow> distinct vs \<Longrightarrow> set vs \<inter> set ws = {} \<Longrightarrow> \<forall>v \<in> set vs. valid s v \<Longrightarrow>
   \<exists>s'. give_pages vs s = Some s' \<and> rep s' (rev vs @ ws)"
proof (induction vs arbitrary: s ws)
  case (Cons v vs)
  then obtain s' where s': "free s v = Some s'" "rep s' (v # ws)"
    using free_page [of s ws v] by auto
  moreover have "\<exists>t. give_pages vs s' = Some t \<and> rep t (rev vs @ (v # ws))"
    using Cons.prems s' free_valid [OF s'(1)] by (intro Cons.IH) auto
  ultimately show ?case by auto
qed simp

lemma take_give_pages:
  assumes "rep s vs" "n \<le> length vs"
  shows "\<exists>s'. give_pages (fst (take_pages n s)) (snd (take_pages n s)) = Some s'
    \<and> rep s' (rev (take n vs) @ drop n vs)"
proof -
  note took = take_pages_rep [OF assms]
  have "distinct vs" by (rule rep_distinct [OF assms(1)])
  then have "distinct (take n vs)" "set (take n vs) \<inter> set (drop n vs) = {}"
    by (simp_all add: set_take_disj_set_drop_if_distinct)
  moreover have "\<forall>v \<in> set (take n vs). valid (snd (take_pages n s)) v"
    using took rep_valid [OF assms(1)] by (auto dest: in_set_takeD)
  ultimately show ?thesis using took by (metis give_pages_rep)
qed

end

interpretation ka: page_allocator kalloc kfree mem kmem_inv "\<lambda>s. kpage (kend s)"
proof unfold_locales
  fix s :: "'a kmem_scheme" and vs and v
  assume "kmem_inv s vs" "kpage (kend s) v" "v \<notin> set vs"
  then show "\<exists>s'. kfree s v = Some s' \<and> kmem_inv s' (v # vs)" using kfree_inv by blast
qed (auto simp: kalloc_Nil kalloc_Cons kfree_other_page kfree_eq kmem_inv_def kpage_nonzero
  split: if_splits)

section \<open>Filling the allocator\<close>

text \<open>The page addresses the loop of \<open>freerange\<close> visits.\<close>

definition range_pages :: "addr \<Rightarrow> nat \<Rightarrow> addr list" where
  "range_pages p n = map (\<lambda>i. p + PGSIZE * word_of_nat i) [0..<n]"

lemma range_pages_Suc: "range_pages p (Suc n) = p # range_pages (p + PGSIZE) n"
  by (simp add: range_pages_def upt_conv_Cons map_Suc_upt [symmetric] algebra_simps del: upt_Suc)

lemma unat_range_page:
  assumes "unat p + 4096 * n < 4294967296" "i \<le> n"
  shows "unat (p + PGSIZE * word_of_nat i) = unat p + 4096 * i"
  using assms by (simp add: unat_word_ariths unat_of_nat)

lemma distinct_range_pages:
  assumes "unat p + 4096 * n < 4294967296"
  shows "distinct (range_pages p n)"
  unfolding range_pages_def distinct_map
proof (intro conjI inj_onI)
  fix i j assume "i \<in> set [0..<n]" "j \<in> set [0..<n]"
    and eq: "p + PGSIZE * word_of_nat i = p + PGSIZE * word_of_nat j"
  then have "i \<le> n" "j \<le> n" by auto
  with eq unat_range_page [OF assms, of i] unat_range_page [OF assms, of j] show "i = j"
    by (metis add_left_cancel mult_cancel1 zero_neq_numeral)
qed simp

lemma freerange_loop_rep:
  assumes "kmem_inv s fl" "unat p + 4096 * n \<le> unat vend" "unat vend < unat p + 4096 * Suc n"
    and "unat vend + 4096 < 4294967296"
    and "\<forall>v \<in> set (range_pages p n). kpage (kend s) v \<and> v \<notin> set fl"
  shows "\<exists>s'. freerange_loop vend s p = Some s' \<and> kmem_inv s' (rev (range_pages p n) @ fl)
    \<and> kend s' = kend s"
  using assms
proof (induction n arbitrary: s p fl)
  case 0
  then have "\<not> p + PGSIZE \<le> vend"
    by (simp add: word_le_nat_alt unat_word_ariths)
  with 0 show ?case by (subst freerange_loop.simps) (simp add: range_pages_def)
next
  case (Suc n)
  have up: "unat (p + PGSIZE) = unat p + 4096"
    using Suc.prems by (simp add: unat_word_ariths)
  then have go: "p + PGSIZE \<le> vend"
    using Suc.prems by (simp add: word_le_nat_alt)
  obtain s1 where s1: "kfree s p = Some s1" "kmem_inv s1 (p # fl)" "kend s1 = kend s"
    using kfree_inv [of s fl p] Suc.prems by (auto simp: range_pages_Suc)
  have "distinct (range_pages p (Suc n))"
    using Suc.prems by (intro distinct_range_pages) linarith
  then have "\<exists>s'. freerange_loop vend s1 (p + PGSIZE) = Some s'
      \<and> kmem_inv s' (rev (range_pages (p + PGSIZE) n) @ p # fl) \<and> kend s' = kend s1"
    using Suc.prems s1 by (intro Suc.IH) (auto simp: up range_pages_Suc)
  with s1 go show ?case
    by (subst freerange_loop.simps) (auto simp: range_pages_Suc)
qed

lemma freerange_pages:
  assumes "unat (PGROUNDUP vstart) \<le> unat vend" "KERNBASE \<le> kend s" "kend s \<le> PGROUNDUP vstart" "vend \<le> P2V PHYSTOP"
  defines "n \<equiv> (unat vend - unat (PGROUNDUP vstart)) div 4096"
  shows "\<forall>v \<in> set (range_pages (PGROUNDUP vstart) n). kpage (kend s) v
    \<and> unat (PGROUNDUP vstart) \<le> unat v \<and> unat v < unat vend"
proof
  let ?p = "PGROUNDUP vstart"
  have vend: "unat vend \<le> 2382364672" using assms(4) by (simp add: word_le_nat_alt P2V_def)
  have le: "unat ?p + 4096 * n \<le> unat vend" using assms(1) by (simp add: n_def)
  fix v assume "v \<in> set (range_pages ?p n)"
  then obtain i where i: "i < n" "v = ?p + PGSIZE * word_of_nat i" by (auto simp: range_pages_def)
  then have v: "unat v = unat ?p + 4096 * i" using le vend unat_range_page [of ?p n i] by simp
  have "unat ?p mod 4096 = 0" using page_aligned_PGROUNDUP [of vstart] by (simp add: page_aligned_def)
  moreover have hi: "unat v < unat vend" using v le i(1) by linarith
  moreover have lo: "2147483648 \<le> unat (kend s)" "unat (kend s) \<le> unat v"
    using assms(2,3) v by (simp_all add: word_le_nat_alt)
  moreover have "unat (V2P v) = unat v - 2147483648"
    using lo word_le_and_sub [of KERNBASE v] by (simp add: V2P_def word_le_nat_alt)
  ultimately show "kpage (kend s) v \<and> unat ?p \<le> unat v \<and> unat v < unat vend"
    using v vend by (auto simp: kpage_def page_aligned_def word_le_nat_alt word_less_nat_alt)
qed

section \<open>Properties\<close>

text \<open>
  C9: the allocator refines a stack of free pages. On an empty one \<open>kalloc\<close> returns the
  null pointer and changes nothing; otherwise it returns the top page, which is page-aligned,
  not null and no longer free, leaves the rest and touches no memory.
\<close>

theorem kalloc_correct:
  assumes "kmem_inv s fl"
  shows "case fl of [] \<Rightarrow> kalloc s = (0, s)
    | v # vs \<Rightarrow> fst (kalloc s) = v \<and> v \<noteq> 0 \<and> page_aligned v \<and> v \<notin> set vs \<and> kmem_inv (snd (kalloc s)) vs
        \<and> mem (snd (kalloc s)) = mem s"
proof (cases fl)
  case Nil
  with assms show ?thesis by (simp add: kalloc_Nil)
next
  case (Cons v vs)
  then have inv: "kmem_inv s (v # vs)" using assms by simp
  then have "v \<notin> set vs" "kpage (kend s) v" by (simp_all add: kmem_inv_def)
  with kalloc_Cons [OF inv] kpage_nonzero [of "kend s" v] Cons show ?thesis by (auto simp: kpage_def)
qed

definition ex_kmem :: kmem where
  "ex_kmem = \<lparr>mem = store32 (\<lambda>_. 0) 0x80401000 0x80402000, freelist = 0x80401000, use_lock = True, kend = 0x80200000\<rparr>"

lemma ex_kmem_inv: "kmem_inv ex_kmem [0x80401000, 0x80402000]"
  by (auto simp: kmem_inv_def ex_kmem_def kpage_def page_aligned_def V2P_def aligned4_def load32_def store32_def)

theorem kalloc_correct_witness:
  "fst (kalloc ex_kmem) = 0x80401000 \<and> kmem_inv (snd (kalloc ex_kmem)) [0x80402000]"
  using kalloc_correct [OF ex_kmem_inv] by simp

text \<open>
  C11: \<open>kfree\<close> panics exactly on an address that is not a page of allocatable memory. On
  a page that is not free it pushes the page on the free list and fills it with ones beyond the
  link word, without touching any other page.
\<close>

theorem kfree_correct:
  assumes "kmem_inv s fl" "v \<notin> set fl"
  shows "if kpage (kend s) v
    then \<exists>s'. kfree s v = Some s' \<and> kmem_inv s' (v # fl) \<and> (\<forall>a. PGROUNDDOWN a \<noteq> v \<longrightarrow> mem s' a = mem s a)
      \<and> (\<forall>a. PGROUNDDOWN a = v \<and> 4 \<le> unat (a - v) \<longrightarrow> mem s' a = 1)
    else kfree s v = None"
proof (cases "kpage (kend s) v")
  case True
  then obtain s' where s': "kfree s v = Some s'" "kmem_inv s' (v # fl)"
    using kfree_inv [OF assms(1) True assms(2)] by blast
  have al: "page_aligned v" using True by auto
  have "mem s' a = 1" if "PGROUNDDOWN a = v" "4 \<le> unat (a - v)" for a
  proof -
    have "a \<noteq> v" "a \<noteq> v + 1" "a \<noteq> v + 2" "a \<noteq> v + 3" using that(2) by auto
    then show ?thesis
      using s'(1) True that(1) al by (auto simp: kfree_eq store32_def fill_def in_page_iff)
  qed
  with s' True kfree_other_page [OF s'(1)] show ?thesis by auto
qed (simp add: kfree_eq)

theorem kfree_correct_witness:
  "\<exists>s'. kfree ex_kmem 0x80300000 = Some s' \<and> kmem_inv s' [0x80300000, 0x80401000, 0x80402000]"
  using kfree_correct [OF ex_kmem_inv, of "0x80300000"]
  by (auto simp: ex_kmem_def kpage_def page_aligned_def V2P_def split: if_splits)

text \<open>
  C34: \<open>freerange\<close> over memory above the kernel and below the top of physical memory,
  none of whose pages is free yet, does not panic; it adds exactly the whole pages of the range to
  the free list, each once.
\<close>

theorem freerange_correct:
  assumes "kmem_inv s fl" "KERNBASE \<le> kend s" "kend s \<le> PGROUNDUP vstart" "PGROUNDUP vstart \<le> vend" "vend \<le> P2V PHYSTOP"
    and "\<forall>v \<in> set fl. v < PGROUNDUP vstart \<or> vend \<le> v"
  shows "\<exists>s'. freerange s vstart vend = Some s' \<and> kend s' = kend s
    \<and> kmem_inv s' (rev (range_pages (PGROUNDUP vstart) ((unat vend - unat (PGROUNDUP vstart)) div 4096)) @ fl)"
proof -
  let ?p = "PGROUNDUP vstart" and ?n = "(unat vend - unat (PGROUNDUP vstart)) div 4096"
  have le: "unat ?p \<le> unat vend" using assms(4) by (simp add: word_le_nat_alt)
  note pg = freerange_pages [OF le assms(2,3,5)]
  have "unat vend + 4096 < 4294967296" using assms(5) by (simp add: word_le_nat_alt P2V_def)
  moreover have "unat ?p + 4096 * ?n \<le> unat vend" "unat vend < unat ?p + 4096 * Suc ?n"
    using le dividend_less_div_times [of 4096 "unat vend - unat ?p"] by simp_all
  moreover have "\<forall>v \<in> set (range_pages ?p ?n). kpage (kend s) v \<and> v \<notin> set fl"
  proof
    fix v assume v: "v \<in> set (range_pages ?p ?n)"
    with pg have k: "kpage (kend s) v" "unat ?p \<le> unat v" "unat v < unat vend" by blast+
    have "v \<notin> set fl"
    proof
      assume "v \<in> set fl"
      with assms(6) have "v < ?p \<or> vend \<le> v" by blast
      with k(2,3) show False by (simp add: word_le_nat_alt word_less_nat_alt)
    qed
    with k(1) show "kpage (kend s) v \<and> v \<notin> set fl" by simp
  qed
  ultimately show ?thesis
    unfolding freerange_def using freerange_loop_rep [OF assms(1)] by blast
qed

theorem freerange_correct_witness:
  "\<exists>s'. freerange (ex_kmem\<lparr>freelist := 0\<rparr>) 0x80200001 0x80203800 = Some s' \<and> kend s' = 0x80200000
    \<and> kmem_inv s' [0x80202000, 0x80201000]"
proof -
  have r: "PGROUNDUP 0x80200001 = 0x80201000" by (simp add: PGROUNDUP_def)
  have inv: "kmem_inv (ex_kmem\<lparr>freelist := 0\<rparr>) []" by (simp add: kmem_inv_def)
  have "KERNBASE \<le> kend (ex_kmem\<lparr>freelist := 0\<rparr>)" "kend (ex_kmem\<lparr>freelist := 0\<rparr>) = 0x80200000"
    by (simp_all add: ex_kmem_def)
  moreover have "(unat (0x80203800 :: u32) - unat (0x80201000 :: u32)) div 4096 = 2" by simp
  moreover have "rev (range_pages 0x80201000 2) = [0x80202000, 0x80201000]"
    by (simp add: range_pages_def numeral_2_eq_2)
  ultimately show ?thesis
    using freerange_correct [OF inv, of "0x80200001" "0x80203800"] by (simp add: r P2V_def)
qed

text \<open>
  A client that takes \<open>n\<close> pages, no more than are free, and gives them back in
  order gets distinct pages and leaves the allocator holding exactly the pages it held before.
\<close>

lemma alloc_free_round:
  fixes s :: "'a kmem_scheme"
  assumes "kmem_inv s vs" "n \<le> length vs"
  shows "\<exists>s'. ka.give_pages (fst (ka.take_pages n s)) (snd (ka.take_pages n s)) = Some s'
    \<and> distinct (fst (ka.take_pages n s)) \<and> kmem_inv s' (rev (take n vs) @ drop n vs)"
  using ka.take_give_pages [OF assms] ka.take_pages_rep [OF assms] assms(1) by (auto simp: kmem_inv_def)

end
