(* ===== verification/Sh_mem.thy ===== *)
theory Sh_mem
  imports Kalloc
begin

text \<open>
  The table of shared physical pages, \<open>sh_mem.c\<close>: for each shared page its physical address
  and a reference count. \<open>shm_remove\<close> gives the page back to the page allocator when its
  last reference goes. A table entry with count 0 is free and has address 0.
\<close>

section \<open>State and operations\<close>

abbreviation (input) N_SHARED_PAGES :: nat where "N_SHARED_PAGES \<equiv> 64"

record shared_memory_t =
  shm_pa :: u32
  ref_cnt :: int

record shm_state = kmem +
  shared_memory :: "shared_memory_t list"

definition shm_init :: "'a shm_state_scheme \<Rightarrow> 'a shm_state_scheme" where
  "shm_init s = s\<lparr>shared_memory := replicate N_SHARED_PAGES \<lparr>shm_pa = 0, ref_cnt = 0\<rparr>\<rparr>"

text \<open>The search loop of \<open>shm_add\<close>: the index of the entry for \<open>pa\<close>, if there is one, and the
  first free index met before it (\<open>-1\<close> for none).\<close>

fun shm_search :: "shared_memory_t list \<Rightarrow> u32 \<Rightarrow> nat \<Rightarrow> int \<Rightarrow> nat option \<times> int" where
  "shm_search [] pa i free_idx = (None, free_idx)"
| "shm_search (e # es) pa i free_idx =
     (if shm_pa e = pa then (Some i, free_idx)
      else shm_search es pa (Suc i) (if free_idx = -1 \<and> ref_cnt e = 0 then int i else free_idx))"

definition shm_add :: "'a shm_state_scheme \<Rightarrow> u32 \<Rightarrow> int \<times> 'a shm_state_scheme" where
  "shm_add s pa =
     (case shm_search (shared_memory s) pa 0 (-1) of
        (Some i, _) \<Rightarrow>
          (int i, s\<lparr>shared_memory := (shared_memory s)
             [i := (shared_memory s ! i)\<lparr>ref_cnt := ref_cnt (shared_memory s ! i) + 1\<rparr>]\<rparr>)
      | (None, free_idx) \<Rightarrow>
          if free_idx = -1 then (-1, s)
          else (free_idx, s\<lparr>shared_memory := (shared_memory s)
             [nat free_idx := \<lparr>shm_pa = pa, ref_cnt = 1\<rparr>]\<rparr>))"

fun shm_find :: "shared_memory_t list \<Rightarrow> u32 \<Rightarrow> nat \<Rightarrow> nat option" where
  "shm_find [] pa i = None"
| "shm_find (e # es) pa i =
     (if shm_pa e \<noteq> pa \<or> ref_cnt e = 0 then shm_find es pa (Suc i) else Some i)"

definition shm_remove :: "'a shm_state_scheme \<Rightarrow> u32 \<Rightarrow> (int \<times> 'a shm_state_scheme) option" where
  "shm_remove s pa =
     (case shm_find (shared_memory s) pa 0 of
        None \<Rightarrow> Some (-1, s)
      | Some i \<Rightarrow>
          let e = shared_memory s ! i; n = ref_cnt e - 1 in
          if n = 0 then do {
            s \<leftarrow> kfree (s\<lparr>shared_memory := (shared_memory s)[i := \<lparr>shm_pa = 0, ref_cnt = 0\<rparr>]\<rparr>) (P2V pa);
            Some (0, s) }
          else Some (0, s\<lparr>shared_memory := (shared_memory s)[i := e\<lparr>ref_cnt := n\<rparr>]\<rparr>))"

section \<open>Abstraction: reference counts by physical address\<close>

definition shm_inv :: "shared_memory_t list \<Rightarrow> bool" where
  "shm_inv es \<longleftrightarrow> length es = N_SHARED_PAGES
     \<and> (\<forall>e \<in> set es. 0 \<le> ref_cnt e \<and> (ref_cnt e = 0 \<longleftrightarrow> shm_pa e = 0))
     \<and> (\<forall>i < length es. \<forall>j < length es.
          shm_pa (es ! i) = shm_pa (es ! j) \<and> shm_pa (es ! i) \<noteq> 0 \<longrightarrow> i = j)"

fun shm_refs :: "shared_memory_t list \<Rightarrow> u32 \<Rightarrow> int" where
  "shm_refs [] pa = 0"
| "shm_refs (e # es) pa = (if shm_pa e = pa then ref_cnt e else 0) + shm_refs es pa"

lemma shm_search_Some:
  "shm_search es pa i f = (Some k, g) \<Longrightarrow> i \<le> k \<and> k - i < length es \<and> shm_pa (es ! (k - i)) = pa"
proof (induction es arbitrary: i f)
  case (Cons e es)
  then show ?case
    by (cases "shm_pa e = pa") (fastforce simp: Suc_diff_le nth_Cons' split: if_splits)+
qed simp

lemma shm_search_None:
  "shm_search es pa i f = (None, g) \<Longrightarrow>
     (\<forall>e \<in> set es. shm_pa e \<noteq> pa)
     \<and> (if f \<noteq> -1 then g = f
        else g = -1 \<and> (\<forall>e \<in> set es. ref_cnt e \<noteq> 0)
          \<or> (\<exists>k. g = int (i + k) \<and> k < length es \<and> ref_cnt (es ! k) = 0))"
proof (induction es arbitrary: i f)
  case (Cons e es)
  then have ne: "shm_pa e \<noteq> pa" by (auto split: if_splits)
  let ?f = "if f = -1 \<and> ref_cnt e = 0 then int i else f"
  from Cons.prems ne have "shm_search es pa (Suc i) ?f = (None, g)" by simp
  from Cons.IH [OF this] ne show ?case
    by (auto split: if_splits intro: exI [of _ 0] exI [of _ "Suc _"])
qed simp

lemma shm_find_Some:
  "shm_find es pa i = Some k \<Longrightarrow>
     i \<le> k \<and> k - i < length es \<and> shm_pa (es ! (k - i)) = pa \<and> ref_cnt (es ! (k - i)) \<noteq> 0"
proof (induction es arbitrary: i)
  case (Cons e es)
  then show ?case
    by (cases "shm_pa e \<noteq> pa \<or> ref_cnt e = 0") (fastforce simp: Suc_diff_le nth_Cons' split: if_splits)+
qed simp

lemma shm_find_None: "shm_find es pa i = None \<Longrightarrow> shm_refs es pa = 0"
  by (induction es arbitrary: i) (auto split: if_splits)

lemma shm_refs_update:
  "i < length es \<Longrightarrow> shm_refs (es[i := e]) pa = shm_refs es pa
     - (if shm_pa (es ! i) = pa then ref_cnt (es ! i) else 0) + (if shm_pa e = pa then ref_cnt e else 0)"
  by (induction es arbitrary: i) (auto split: nat.split)

lemma shm_refs_absent: "\<forall>e \<in> set es. shm_pa e \<noteq> pa \<Longrightarrow> shm_refs es pa = 0"
  by (induction es) auto

lemma shm_refs_entry:
  assumes "i < length es" "shm_pa (es ! i) = pa"
    and "\<And>j. j < length es \<Longrightarrow> shm_pa (es ! j) = pa \<Longrightarrow> j = i"
  shows "shm_refs es pa = ref_cnt (es ! i)"
  using assms
proof (induction es arbitrary: i)
  case (Cons e es)
  show ?case
  proof (cases i)
    case 0
    have "\<forall>e \<in> set es. shm_pa e \<noteq> pa"
    proof
      fix x assume "x \<in> set es"
      then obtain j where "j < length es" "x = es ! j" by (auto simp: in_set_conv_nth)
      then show "shm_pa x \<noteq> pa" using Cons.prems(3) [of "Suc j"] 0 by auto
    qed
    then show ?thesis using Cons.prems 0 by (simp add: shm_refs_absent)
  next
    case (Suc k)
    have "shm_refs es pa = ref_cnt (es ! k)"
      using Cons.prems Suc Cons.prems(3) [of "Suc _"] by (intro Cons.IH) fastforce+
    then show ?thesis using Cons.prems(3) [of 0] Suc by auto
  qed
qed simp

lemma shm_inv_entry:
  assumes "shm_inv es" "i < length es" "shm_pa (es ! i) = pa" "pa \<noteq> 0"
  shows "shm_refs es pa = ref_cnt (es ! i)"
  using assms by (intro shm_refs_entry) (auto simp: shm_inv_def)

lemma shm_inv_update:
  assumes "shm_inv es" "i < length es" "0 \<le> ref_cnt e" "ref_cnt e = 0 \<longleftrightarrow> shm_pa e = 0"
    and "\<And>j. j < length es \<Longrightarrow> j \<noteq> i \<Longrightarrow> shm_pa e \<noteq> 0 \<Longrightarrow> shm_pa (es ! j) \<noteq> shm_pa e"
  shows "shm_inv (es[i := e])"
proof -
  have "0 \<le> ref_cnt x \<and> (ref_cnt x = 0 \<longleftrightarrow> shm_pa x = 0)" if "x \<in> set (es[i := e])" for x
    using that assms set_update_subset_insert [of es i e] by (auto simp: shm_inv_def)
  moreover have "j = k"
    if "j < length es" "k < length es" "shm_pa (es[i := e] ! j) = shm_pa (es[i := e] ! k)"
      "shm_pa (es[i := e] ! j) \<noteq> 0" for j k
    using that assms by (auto simp: shm_inv_def nth_list_update split: if_splits)
  ultimately show ?thesis using assms(1) by (auto simp: shm_inv_def)
qed

lemma shm_init_inv: "shm_inv (shared_memory (shm_init s))"
  by (auto simp: shm_inv_def shm_init_def)

lemma shm_add_inv:
  assumes "shm_inv (shared_memory s)" "pa \<noteq> 0"
  shows "shm_inv (shared_memory (snd (shm_add s pa)))"
proof (cases "shm_search (shared_memory s) pa 0 (-1)")
  case (Pair found g)
  let ?es = "shared_memory s"
  show ?thesis
  proof (cases found)
    case (Some k)
    with Pair have k: "k < length ?es" "shm_pa (?es ! k) = pa"
      using shm_search_Some [of ?es pa 0 "-1" k g] by auto
    with assms have "0 \<le> ref_cnt (?es ! k)" by (auto simp: shm_inv_def)
    with assms k have "shm_inv (?es[k := (?es ! k)\<lparr>ref_cnt := ref_cnt (?es ! k) + 1\<rparr>])"
      by (intro shm_inv_update) (auto simp: shm_inv_def)
    then show ?thesis by (simp add: shm_add_def Pair Some)
  next
    case None
    with Pair have none: "\<forall>e \<in> set ?es. shm_pa e \<noteq> pa" and
      g: "g = -1 \<or> (\<exists>k. g = int k \<and> k < length ?es)"
      using shm_search_None [of ?es pa 0 "-1" g] by auto
    show ?thesis
    proof (cases "g = -1")
      case True
      then show ?thesis using assms by (simp add: shm_add_def Pair None)
    next
      case False
      with g obtain k where k: "g = int k" "k < length ?es" by auto
      with assms none have "shm_inv (?es[k := \<lparr>shm_pa = pa, ref_cnt = 1\<rparr>])"
        by (intro shm_inv_update) auto
      then show ?thesis using False by (simp add: shm_add_def Pair None k)
    qed
  qed
qed

lemma shm_add_cases:
  assumes "shm_inv (shared_memory s)" "pa \<noteq> 0" "shm_add s pa = (r, s')"
  shows "r = -1 \<and> s' = s \<and> shm_refs (shared_memory s) pa = 0
      \<and> (\<forall>e \<in> set (shared_memory s). ref_cnt e \<noteq> 0)
    \<or> (\<exists>k < N_SHARED_PAGES. r = int k \<and> shm_pa (shared_memory s' ! k) = pa
      \<and> s' = s\<lparr>shared_memory := shared_memory s'\<rparr>
      \<and> shm_refs (shared_memory s') = (shm_refs (shared_memory s))(pa := shm_refs (shared_memory s) pa + 1))"
proof (cases "shm_search (shared_memory s) pa 0 (-1)")
  case (Pair found g)
  let ?es = "shared_memory s"
  have len: "length ?es = N_SHARED_PAGES" using assms(1) by (simp add: shm_inv_def)
  show ?thesis
  proof (cases found)
    case (Some k)
    with Pair have "k < length ?es" "shm_pa (?es ! k) = pa"
      using shm_search_Some [of ?es pa 0 "-1" k g] by auto
    with assms(3) len show ?thesis
      by (auto simp: shm_add_def Pair Some fun_eq_iff shm_refs_update)
  next
    case None
    with Pair have none: "\<forall>e \<in> set ?es. shm_pa e \<noteq> pa" and
      g: "g = -1 \<and> (\<forall>e \<in> set ?es. ref_cnt e \<noteq> 0) \<or> (\<exists>k. g = int k \<and> k < length ?es \<and> ref_cnt (?es ! k) = 0)"
      using shm_search_None [of ?es pa 0 "-1" g] by auto
    show ?thesis
    proof (cases "g = -1")
      case True
      with g none assms(3) show ?thesis
        by (auto simp: shm_add_def Pair None shm_refs_absent)
    next
      case False
      with g obtain k where k: "g = int k" "k < length ?es" "ref_cnt (?es ! k) = 0" by auto
      with assms(3) none len show ?thesis
        by (auto simp: shm_add_def Pair None fun_eq_iff shm_refs_update shm_refs_absent)
    qed
  qed
qed

lemma shm_remove_absent: "shm_find (shared_memory s) pa 0 = None \<Longrightarrow> shm_remove s pa = Some (-1, s)"
  by (simp add: shm_remove_def)

lemma shm_find_no_refs:
  assumes "shm_inv (shared_memory s)" "pa \<noteq> 0" "shm_refs (shared_memory s) pa = 0"
  shows "shm_find (shared_memory s) pa 0 = None"
proof (rule ccontr)
  assume "shm_find (shared_memory s) pa 0 \<noteq> None"
  then obtain k where "shm_find (shared_memory s) pa 0 = Some k" by blast
  from shm_find_Some [OF this] assms shm_inv_entry [OF assms(1), of k pa] show False by auto
qed

lemma shm_remove_entry:
  assumes "shm_inv (shared_memory s)" "pa \<noteq> 0" "0 < shm_refs (shared_memory s) pa"
  obtains k where "k < N_SHARED_PAGES" "shm_find (shared_memory s) pa 0 = Some k"
    "shm_pa (shared_memory s ! k) = pa" "ref_cnt (shared_memory s ! k) = shm_refs (shared_memory s) pa"
proof -
  obtain k where k: "shm_find (shared_memory s) pa 0 = Some k"
    using assms(3) shm_find_None by (cases "shm_find (shared_memory s) pa 0") fastforce+
  with shm_find_Some [OF k] assms shm_inv_entry [OF assms(1), of k pa] that show thesis
    by (auto simp: shm_inv_def)
qed

lemma shm_remove_shared:
  assumes "shm_inv (shared_memory s)" "pa \<noteq> 0" "1 < shm_refs (shared_memory s) pa"
  shows "\<exists>es. shm_remove s pa = Some (0, s\<lparr>shared_memory := es\<rparr>) \<and> shm_inv es
    \<and> shm_refs es = (shm_refs (shared_memory s))(pa := shm_refs (shared_memory s) pa - 1)"
proof -
  let ?es = "shared_memory s"
  obtain k where k: "k < N_SHARED_PAGES" "shm_find ?es pa 0 = Some k" "shm_pa (?es ! k) = pa"
    "ref_cnt (?es ! k) = shm_refs ?es pa"
    using assms by (elim shm_remove_entry) auto
  let ?es' = "?es[k := (?es ! k)\<lparr>ref_cnt := ref_cnt (?es ! k) - 1\<rparr>]"
  have len: "length ?es = N_SHARED_PAGES" using assms(1) by (simp add: shm_inv_def)
  have "shm_remove s pa = Some (0, s\<lparr>shared_memory := ?es'\<rparr>)"
    using k assms(3) by (simp add: shm_remove_def)
  moreover have "shm_inv ?es'"
    using assms k len by (intro shm_inv_update) (auto simp: shm_inv_def)
  moreover have "shm_refs ?es' = (shm_refs ?es)(pa := shm_refs ?es pa - 1)"
    using k len by (auto simp: fun_eq_iff shm_refs_update)
  ultimately show ?thesis by blast
qed

lemma shm_remove_last:
  assumes "shm_inv (shared_memory s)" "pa \<noteq> 0" "shm_refs (shared_memory s) pa = 1"
  shows "\<exists>es. shm_remove s pa = map_option (Pair 0) (kfree (s\<lparr>shared_memory := es\<rparr>) (P2V pa)) \<and> shm_inv es
    \<and> shm_refs es = (shm_refs (shared_memory s))(pa := 0)"
proof -
  let ?es = "shared_memory s"
  obtain k where k: "k < N_SHARED_PAGES" "shm_find ?es pa 0 = Some k" "shm_pa (?es ! k) = pa"
    "ref_cnt (?es ! k) = shm_refs ?es pa"
    using assms by (elim shm_remove_entry) auto
  let ?es' = "?es[k := \<lparr>shm_pa = 0, ref_cnt = 0\<rparr>]"
  have len: "length ?es = N_SHARED_PAGES" using assms(1) by (simp add: shm_inv_def)
  have "shm_remove s pa = map_option (Pair 0) (kfree (s\<lparr>shared_memory := ?es'\<rparr>) (P2V pa))"
    using k assms(3) by (cases "kfree (s\<lparr>shared_memory := ?es'\<rparr>) (P2V pa)") (simp_all add: shm_remove_def)
  moreover have "shm_inv ?es'"
    using assms k len by (intro shm_inv_update) auto
  moreover have "shm_refs ?es' = (shm_refs ?es)(pa := 0)"
    using k len assms by (auto simp: fun_eq_iff shm_refs_update)
  ultimately show ?thesis by blast
qed

lemma shm_refs_nonneg: "shm_inv es \<Longrightarrow> 0 \<le> shm_refs es pa"
proof -
  assume "shm_inv es"
  then have "\<forall>e \<in> set es. 0 \<le> ref_cnt e" by (auto simp: shm_inv_def)
  then show ?thesis by (induction es) auto
qed

lemma kfree_shared_memory [frame_simps]:
  "kfree s v = Some s' \<Longrightarrow> shared_memory s' = shared_memory s"
  by (auto simp: kfree_eq split: if_splits)

lemma shm_remove_cases:
  assumes "shm_inv (shared_memory s)" "pa \<noteq> 0" "shm_remove s pa = Some (r, s')"
  shows "shm_inv (shared_memory s')
    \<and> (if shm_refs (shared_memory s) pa = 0 then r = -1 \<and> s' = s
       else r = 0 \<and> shm_refs (shared_memory s') =
         (shm_refs (shared_memory s))(pa := shm_refs (shared_memory s) pa - 1))"
proof -
  consider "shm_refs (shared_memory s) pa = 0" | "shm_refs (shared_memory s) pa = 1"
    | "1 < shm_refs (shared_memory s) pa"
    using shm_refs_nonneg [OF assms(1), of pa] by linarith
  then show ?thesis
  proof cases
    case 1
    then have "shm_find (shared_memory s) pa 0 = None" by (rule shm_find_no_refs [OF assms(1,2)])
    with 1 assms show ?thesis by (simp add: shm_remove_absent)
  next
    case 2
    obtain es where es: "shm_remove s pa = map_option (Pair 0) (kfree (s\<lparr>shared_memory := es\<rparr>) (P2V pa))"
      "shm_inv es" "shm_refs es = (shm_refs (shared_memory s))(pa := 0)"
      using shm_remove_last [OF assms(1,2) 2] by blast
    with assms(3) have "r = 0" "kfree (s\<lparr>shared_memory := es\<rparr>) (P2V pa) = Some s'" by auto
    with es 2 show ?thesis by (simp add: kfree_shared_memory)
  next
    case 3
    then show ?thesis using shm_remove_shared [OF assms(1,2)] assms(3) by auto
  qed
qed

section \<open>The contract of a reference table\<close>

datatype ref_op = RefAdd u32 | RefRemove u32

locale ref_table =
  fixes add :: "'s \<Rightarrow> u32 \<Rightarrow> int \<times> 's"
    and remove :: "'s \<Rightarrow> u32 \<Rightarrow> (int \<times> 's) option"
    and count :: "'s \<Rightarrow> u32 \<Rightarrow> int"
    and inv :: "'s \<Rightarrow> bool"
  assumes add_inv: "inv s \<Longrightarrow> pa \<noteq> 0 \<Longrightarrow> inv (snd (add s pa))"
    and add_count: "inv s \<Longrightarrow> pa \<noteq> 0 \<Longrightarrow>
      count (snd (add s pa)) = (if fst (add s pa) < 0 then count s else (count s)(pa := count s pa + 1))"
    and remove_inv: "inv s \<Longrightarrow> pa \<noteq> 0 \<Longrightarrow> remove s pa = Some (r, s') \<Longrightarrow> inv s'"
    and remove_count: "inv s \<Longrightarrow> pa \<noteq> 0 \<Longrightarrow> remove s pa = Some (r, s') \<Longrightarrow>
      count s' = (if r < 0 then count s else (count s)(pa := count s pa - 1))"
    and remove_fails: "inv s \<Longrightarrow> pa \<noteq> 0 \<Longrightarrow> remove s pa = Some (r, s') \<Longrightarrow> r < 0 \<longleftrightarrow> count s pa = 0"
    and count_nonneg: "inv s \<Longrightarrow> 0 \<le> count s pa"
begin

text \<open>A sequence of additions and removals, with the change of each address's count.\<close>

fun run_refs :: "ref_op list \<Rightarrow> 's \<Rightarrow> ((u32 \<Rightarrow> int) \<times> 's) option" where
  "run_refs [] s = Some ((\<lambda>_. 0), s)"
| "run_refs (RefAdd pa # ops) s = (let (r, s') = add s pa in
     map_option (\<lambda>(d, t). (if r < 0 then d else d(pa := d pa + 1), t)) (run_refs ops s'))"
| "run_refs (RefRemove pa # ops) s = (case remove s pa of None \<Rightarrow> None | Some (r, s') \<Rightarrow>
     map_option (\<lambda>(d, t). (if r < 0 then d else d(pa := d pa - 1), t)) (run_refs ops s'))"

lemma run_refs_balance:
  "inv s \<Longrightarrow> RefAdd 0 \<notin> set ops \<Longrightarrow> RefRemove 0 \<notin> set ops \<Longrightarrow> run_refs ops s = Some (d, t) \<Longrightarrow>
   inv t \<and> (\<forall>pa. count t pa = count s pa + d pa)"
proof (induction ops s arbitrary: d rule: run_refs.induct)
  case (1 s)
  then show ?case by (auto simp: count_nonneg)
next
  case (2 pa ops s)
  obtain r s' where add: "add s pa = (r, s')" by (cases "add s pa")
  with 2 obtain e where e: "run_refs ops s' = Some (e, t)"
    and d: "d = (if r < 0 then e else e(pa := e pa + 1))" by auto
  have pa: "pa \<noteq> 0" using "2.prems" by auto
  have "inv s'" using add_inv [OF "2.prems"(1) pa] add by simp
  moreover have "RefAdd 0 \<notin> set ops" "RefRemove 0 \<notin> set ops" using "2.prems" by auto
  ultimately have "inv t \<and> (\<forall>pa. count t pa = count s' pa + e pa)"
    by (rule "2.IH" [OF add [symmetric] refl _ _ _ e])
  then show ?case using add_count [OF "2.prems"(1) pa] add d by auto
next
  case (3 pa ops s)
  then obtain r s' where rem: "remove s pa = Some (r, s')" by (auto split: option.splits)
  with 3 obtain e where e: "run_refs ops s' = Some (e, t)"
    and d: "d = (if r < 0 then e else e(pa := e pa - 1))" by auto
  have pa: "pa \<noteq> 0" using "3.prems" by auto
  have "inv s'" using remove_inv [OF "3.prems"(1) pa rem] .
  moreover have "RefAdd 0 \<notin> set ops" "RefRemove 0 \<notin> set ops" using "3.prems" by auto
  ultimately have "inv t \<and> (\<forall>pa. count t pa = count s' pa + e pa)"
    by (rule "3.IH" [OF rem refl _ _ _ e])
  then show ?case using remove_count [OF "3.prems"(1) pa rem] d by auto
qed

end

interpretation shm: ref_table shm_add shm_remove "\<lambda>s. shm_refs (shared_memory s)" "\<lambda>s. shm_inv (shared_memory s)"
proof unfold_locales
  fix s :: "'a shm_state_scheme" and pa :: u32
  assume inv: "shm_inv (shared_memory s)" "pa \<noteq> 0"
  show "shm_refs (shared_memory (snd (shm_add s pa))) = (if fst (shm_add s pa) < 0 then shm_refs (shared_memory s)
      else (shm_refs (shared_memory s))(pa := shm_refs (shared_memory s) pa + 1))"
    using shm_add_cases [OF inv, of "fst (shm_add s pa)" "snd (shm_add s pa)"] by fastforce
next
  fix s s' :: "'a shm_state_scheme" and pa :: u32 and r
  assume *: "shm_inv (shared_memory s)" "pa \<noteq> 0" "shm_remove s pa = Some (r, s')"
  show "shm_refs (shared_memory s') = (if r < 0 then shm_refs (shared_memory s)
      else (shm_refs (shared_memory s))(pa := shm_refs (shared_memory s) pa - 1))"
    "r < 0 \<longleftrightarrow> shm_refs (shared_memory s) pa = 0" "shm_inv (shared_memory s')"
    using shm_remove_cases [OF *] by (auto split: if_splits)
qed (auto simp: shm_add_inv shm_refs_nonneg)

section \<open>Properties\<close>

text \<open>
  C21: dropping a reference to a shared page. With no reference \<open>shm_remove\<close> returns -1
  and changes nothing; with several it only decrements the count; with exactly one it clears the
  entry and frees the page, so a page is returned to the allocator exactly when its last reference
  goes. The table invariant is kept.
\<close>

theorem shm_remove_correct:
  fixes s :: "'a shm_state_scheme"
  assumes "shm_inv (shared_memory s)" "pa \<noteq> 0"
  shows "\<exists>es. shm_inv es \<and> (let n = shm_refs (shared_memory s) pa in
    if n = 0 then shm_remove s pa = Some (-1, s)
    else shm_refs es = (shm_refs (shared_memory s))(pa := n - 1)
      \<and> shm_remove s pa = (if n = 1 then map_option (Pair 0) (kfree (s\<lparr>shared_memory := es\<rparr>) (P2V pa))
           else Some (0, s\<lparr>shared_memory := es\<rparr>)))"
proof -
  consider "shm_refs (shared_memory s) pa = 0" | "shm_refs (shared_memory s) pa = 1" | "1 < shm_refs (shared_memory s) pa"
    using shm_refs_nonneg [OF assms(1), of pa] by linarith
  then show ?thesis
  proof cases
    case 1
    then have "shm_find (shared_memory s) pa 0 = None" by (rule shm_find_no_refs [OF assms])
    with 1 assms(1) show ?thesis by (auto simp: shm_remove_absent)
  next
    case 2
    from shm_remove_last [OF assms 2] 2 show ?thesis by auto
  next
    case 3
    from shm_remove_shared [OF assms 3] 3 show ?thesis by auto
  qed
qed

definition ex_shm :: shm_state where
  "ex_shm = shm_init \<lparr>mem = (\<lambda>_. 0), freelist = 0, use_lock = True, kend = 0x80200000, shared_memory = []\<rparr>"

lemma ex_shm_inv: "shm_inv (shared_memory ex_shm)"
  unfolding ex_shm_def by (rule shm_init_inv)

theorem shm_remove_correct_witness: "shm_remove ex_shm 0x500000 = Some (-1, ex_shm)"
proof -
  have "shm_refs (shared_memory ex_shm) 0x500000 = 0"
    by (intro shm_refs_absent) (auto simp: ex_shm_def shm_init_def)
  then show ?thesis using shm_remove_correct [OF ex_shm_inv, of "0x500000"] by (auto simp: Let_def)
qed

text \<open>
  Taking a reference. \<open>shm_add\<close> fails, changing nothing, exactly when the page is not in
  the table and no entry is free; otherwise it returns the index of the page's entry and adds one to
  its count, no other count changes, and the table invariant is kept.
\<close>

lemma shm_add_correct:
  fixes s :: "'a shm_state_scheme"
  assumes "shm_inv (shared_memory s)" "pa \<noteq> 0"
  shows "shm_inv (shared_memory (snd (shm_add s pa)))
    \<and> (fst (shm_add s pa) = -1 \<and> snd (shm_add s pa) = s \<and> shm_refs (shared_memory s) pa = 0
        \<and> (\<forall>e \<in> set (shared_memory s). ref_cnt e \<noteq> 0)
     \<or> (\<exists>k < N_SHARED_PAGES. fst (shm_add s pa) = int k \<and> shm_pa (shared_memory (snd (shm_add s pa)) ! k) = pa
        \<and> shm_refs (shared_memory (snd (shm_add s pa)))
          = (shm_refs (shared_memory s))(pa := shm_refs (shared_memory s) pa + 1)))"
  using shm_add_inv [OF assms] shm_add_cases [OF assms, of "fst (shm_add s pa)" "snd (shm_add s pa)"]
  by auto



end
