(* ===== verification/Spinlock.thy ===== *)
theory Spinlock
  imports Mmu
begin

text \<open>
  Spin locks, \<open>spinlock.c\<close>, and the part of \<open>struct cpu\<close> (\<open>proc.h\<close>) the kernel sets. The operations
  act on the state of the CPU that runs them, whose number is the argument \<open>i\<close>; \<open>if_flag\<close> is the
  interrupt flag of its \<open>eflags\<close>. \<open>acquire\<close> on one CPU spins for ever on a lock that is taken,
  \<open>None\<close> here; the interleaving of several CPUs, where each atomic access of \<open>acquire\<close> and
  \<open>release\<close> is a step of its own, is the relation \<open>smp_step\<close>. The memory barriers are implicit: memory is sequentially
  consistent.
\<close>

section \<open>State and operations\<close>

record cpu =
  gdt :: "segdesc list"
  ts_addr :: addr
  ts_ss0 :: u16
  ts_esp0 :: u32
  ts_iomb :: u16
  cr3 :: u32
  ncli :: int
  intena :: bool
  if_flag :: bool

record spinlock =
  locked :: u32
  lk_name :: string
  lk_cpu :: "nat option"
  pcs :: "u32 list"

definition initlock :: "string \<Rightarrow> spinlock \<Rightarrow> spinlock" where
  "initlock nm lk = lk\<lparr>lk_name := nm, locked := 0, lk_cpu := None\<rparr>"

definition pushcli :: "'a cpu_scheme \<Rightarrow> 'a cpu_scheme" where
  "pushcli c =
     (let eflags = if_flag c;
          c = c\<lparr>if_flag := False\<rparr>;
          c = (if ncli c = 0 then c\<lparr>intena := eflags\<rparr> else c)
      in c\<lparr>ncli := ncli c + 1\<rparr>)"

definition popcli :: "'a cpu_scheme \<Rightarrow> 'a cpu_scheme option" where
  "popcli c =
     (if if_flag c then panic ''popcli - interruptible''
      else
        let c = c\<lparr>ncli := ncli c - 1\<rparr> in
        if ncli c < 0 then panic ''popcli''
        else if ncli c = 0 \<and> intena c then Some (c\<lparr>if_flag := True\<rparr>)
        else Some c)"

definition holding :: "nat \<Rightarrow> 'a cpu_scheme \<Rightarrow> spinlock \<Rightarrow> (bool \<times> 'a cpu_scheme) option" where
  "holding i c lk = do {
     let c = pushcli c;
     let r = (locked lk \<noteq> 0 \<and> lk_cpu lk = Some i);
     c \<leftarrow> popcli c;
     Some (r, c) }"

text \<open>The chain of saved frame pointers that \<open>getcallerpcs\<close> follows from address \<open>v\<close>.\<close>

fun callerpcs :: "memory \<Rightarrow> addr \<Rightarrow> nat \<Rightarrow> u32 list" where
  "callerpcs m ebp 0 = []"
| "callerpcs m ebp (Suc n) =
     (if ebp = 0 \<or> ebp < KERNBASE \<or> ebp = 0xffffffff then replicate (Suc n) 0
      else load32 m (ebp + 4) # callerpcs m (load32 m ebp) n)"

definition getcallerpcs :: "memory \<Rightarrow> addr \<Rightarrow> u32 list" where
  "getcallerpcs m v = callerpcs m (v - 8) 10"

definition acquire :: "u32 list \<Rightarrow> nat \<Rightarrow> 'a cpu_scheme \<Rightarrow> spinlock \<Rightarrow> ('a cpu_scheme \<times> spinlock) option" where
  "acquire callers i c lk = do {
     let c = pushcli c;
     (h, c) \<leftarrow> holding i c lk;
     if h then panic ''acquire''
     else if locked lk \<noteq> 0 then None
     else Some (c, lk\<lparr>locked := 1, lk_cpu := Some i, pcs := callers\<rparr>) }"

definition release :: "nat \<Rightarrow> 'a cpu_scheme \<Rightarrow> spinlock \<Rightarrow> ('a cpu_scheme \<times> spinlock) option" where
  "release i c lk = do {
     (h, c) \<leftarrow> holding i c lk;
     if \<not> h then panic ''release''
     else do {
       let lk = lk\<lparr>pcs := (pcs lk)[0 := 0], lk_cpu := None\<rparr>;
       let lk = lk\<lparr>locked := 0\<rparr>;
       c \<leftarrow> popcli c;
       Some (c, lk) } }"

section \<open>One CPU\<close>

text \<open>Interrupts are off while the nesting depth is positive.\<close>

definition irq_ok :: "'a cpu_scheme \<Rightarrow> bool" where
  "irq_ok c \<longleftrightarrow> 0 \<le> ncli c \<and> (0 < ncli c \<longrightarrow> \<not> if_flag c)"

lemma irq_ok_pushcli [simp]: "irq_ok c \<Longrightarrow> irq_ok (pushcli c)"
  by (simp add: irq_ok_def pushcli_def Let_def)

lemma pushcli_fields [simp]:
  "ncli (pushcli c) = ncli c + 1" "if_flag (pushcli c) = False"
  "gdt (pushcli c) = gdt c" "cr3 (pushcli c) = cr3 c"
  by (simp_all add: pushcli_def Let_def)

lemma popcli_pushcli: "irq_ok c \<Longrightarrow> popcli (pushcli c) = Some (c\<lparr>intena := intena (pushcli c)\<rparr>)"
  by (auto simp: irq_ok_def popcli_def pushcli_def Let_def)

lemma popcli_ok: "irq_ok c \<Longrightarrow> 0 < ncli c \<Longrightarrow> \<exists>c'. popcli c = Some c' \<and> irq_ok c' \<and> ncli c' = ncli c - 1"
  by (auto simp: irq_ok_def popcli_def Let_def)

lemma popcli_irq_ok: "irq_ok c \<Longrightarrow> popcli c = Some c' \<Longrightarrow> irq_ok c'"
  by (auto simp: irq_ok_def popcli_def Let_def split: if_splits)

lemma popcli_ncli: "popcli c = Some c' \<Longrightarrow> ncli c' = ncli c - 1"
  by (auto simp: popcli_def Let_def split: if_splits)

text \<open>Inside a matched pair the recorded interrupt state is kept.\<close>

lemma holding_nested:
  "irq_ok c \<Longrightarrow> 0 < ncli c \<Longrightarrow> holding i c lk = Some (locked lk \<noteq> 0 \<and> lk_cpu lk = Some i, c)"
  by (simp add: holding_def popcli_pushcli) (simp add: pushcli_def Let_def)

lemma holding_some: "irq_ok c \<Longrightarrow> \<exists>c'. holding i c lk = Some (locked lk \<noteq> 0 \<and> lk_cpu lk = Some i, c')
    \<and> irq_ok c' \<and> ncli c' = ncli c \<and> if_flag c' = if_flag c"
  by (simp add: holding_def popcli_pushcli) (simp add: irq_ok_def)

lemma acquire_free:
  assumes "irq_ok c" "locked lk = 0"
  shows "acquire callers i c lk = Some (pushcli c, lk\<lparr>locked := 1, lk_cpu := Some i, pcs := callers\<rparr>)"
  using assms by (simp add: acquire_def holding_nested irq_ok_def)

lemma acquire_release:
  assumes "irq_ok c" "locked lk = 0"
  shows "\<exists>c' lk'. acquire callers i c lk = Some (c', lk') \<and> irq_ok c' \<and> ncli c' = ncli c + 1 \<and> \<not> if_flag c'
    \<and> release i c' lk' = Some (c\<lparr>intena := intena (pushcli c)\<rparr>, lk'\<lparr>pcs := (pcs lk')[0 := 0], lk_cpu := None, locked := 0\<rparr>)"
proof -
  have "irq_ok (pushcli c)" "0 < ncli (pushcli c)" using assms(1) by (simp_all add: irq_ok_def)
  then show ?thesis
    using assms by (simp add: acquire_free release_def holding_nested popcli_pushcli)
qed

section \<open>Several CPUs and one lock\<close>

datatype lock_pc = Outside | Spinning | Taken | Inside | Leaving

record smp =
  smp_cpu :: "nat \<Rightarrow> cpu"
  smp_lock :: spinlock
  smp_pc :: "nat \<Rightarrow> lock_pc"

text \<open>
  The atomic steps of \<open>acquire\<close> and \<open>release\<close> on CPU \<open>i\<close>; the exchange of the spin loop either reads
  a non-zero value (\<open>spin\<close>) or wins the lock (\<open>take\<close>). \<open>nest\<close> and \<open>unnest\<close> are the use of other locks,
  \<open>toggle\<close> the \<open>sti\<close> and \<open>cli\<close> of code that holds no lock.
\<close>

inductive smp_step :: "smp \<Rightarrow> smp \<Rightarrow> bool" where
  start: "smp_pc s i = Outside \<Longrightarrow> holding i (pushcli (smp_cpu s i)) (smp_lock s) = Some (False, c) \<Longrightarrow>
    smp_step s (s\<lparr>smp_cpu := (smp_cpu s)(i := c), smp_pc := (smp_pc s)(i := Spinning)\<rparr>)"
| spin: "smp_pc s i = Spinning \<Longrightarrow> locked (smp_lock s) \<noteq> 0 \<Longrightarrow>
    smp_step s (s\<lparr>smp_lock := (smp_lock s)\<lparr>locked := 1\<rparr>\<rparr>)"
| take: "smp_pc s i = Spinning \<Longrightarrow> locked (smp_lock s) = 0 \<Longrightarrow>
    smp_step s (s\<lparr>smp_lock := (smp_lock s)\<lparr>locked := 1\<rparr>, smp_pc := (smp_pc s)(i := Taken)\<rparr>)"
| mark: "smp_pc s i = Taken \<Longrightarrow>
    smp_step s (s\<lparr>smp_lock := (smp_lock s)\<lparr>lk_cpu := Some i, pcs := callers\<rparr>, smp_pc := (smp_pc s)(i := Inside)\<rparr>)"
| unmark: "smp_pc s i = Inside \<Longrightarrow> holding i (smp_cpu s i) (smp_lock s) = Some (True, c) \<Longrightarrow>
    smp_step s (s\<lparr>smp_cpu := (smp_cpu s)(i := c),
      smp_lock := (smp_lock s)\<lparr>pcs := (pcs (smp_lock s))[0 := 0], lk_cpu := None\<rparr>, smp_pc := (smp_pc s)(i := Leaving)\<rparr>)"
| unlock: "smp_pc s i = Leaving \<Longrightarrow> popcli (smp_cpu s i) = Some c \<Longrightarrow>
    smp_step s (s\<lparr>smp_cpu := (smp_cpu s)(i := c), smp_lock := (smp_lock s)\<lparr>locked := 0\<rparr>,
      smp_pc := (smp_pc s)(i := Outside)\<rparr>)"
| nest: "smp_step s (s\<lparr>smp_cpu := (smp_cpu s)(i := pushcli (smp_cpu s i))\<rparr>)"
| unnest: "popcli (smp_cpu s i) = Some c \<Longrightarrow> smp_pc s i \<noteq> Outside \<longrightarrow> 1 < ncli (smp_cpu s i) \<Longrightarrow>
    smp_step s (s\<lparr>smp_cpu := (smp_cpu s)(i := c)\<rparr>)"
| toggle: "smp_pc s i = Outside \<Longrightarrow> ncli (smp_cpu s i) = 0 \<Longrightarrow>
    smp_step s (s\<lparr>smp_cpu := (smp_cpu s)(i := (smp_cpu s i)\<lparr>if_flag := b\<rparr>)\<rparr>)"

definition smp_init :: "smp \<Rightarrow> bool" where
  "smp_init s \<longleftrightarrow> (\<forall>i. irq_ok (smp_cpu s i) \<and> smp_pc s i = Outside) \<and> locked (smp_lock s) = 0 \<and> lk_cpu (smp_lock s) = None"

definition owns :: "smp \<Rightarrow> nat \<Rightarrow> bool" where
  "owns s i \<longleftrightarrow> smp_pc s i \<in> {Taken, Inside, Leaving}"

definition irq_inv :: "smp \<Rightarrow> bool" where
  "irq_inv s \<longleftrightarrow> (\<forall>i. irq_ok (smp_cpu s i) \<and> (smp_pc s i \<noteq> Outside \<longrightarrow> 0 < ncli (smp_cpu s i)))"

definition lock_inv :: "smp \<Rightarrow> nat option \<Rightarrow> bool" where
  "lock_inv s own \<longleftrightarrow> (\<forall>i. owns s i \<longleftrightarrow> own = Some i) \<and> (locked (smp_lock s) \<noteq> 0 \<longleftrightarrow> own \<noteq> None)
     \<and> (\<forall>i. lk_cpu (smp_lock s) = Some i \<longleftrightarrow> smp_pc s i = Inside)"

definition smp_inv :: "smp \<Rightarrow> bool" where
  "smp_inv s \<longleftrightarrow> irq_inv s \<and> (\<exists>own. lock_inv s own)"

lemma smp_init_inv: "smp_init s \<Longrightarrow> smp_inv s"
  unfolding smp_inv_def by (intro conjI exI [of _ None]) (simp_all add: smp_init_def irq_inv_def lock_inv_def owns_def)

lemma smp_step_irq: "smp_step s s' \<Longrightarrow> irq_inv s \<Longrightarrow> irq_inv s'"
proof (induction rule: smp_step.cases)
  case (start s i c)
  have ok: "irq_ok (smp_cpu s i)" using start by (simp add: irq_inv_def)
  have "c = pushcli (smp_cpu s i)"
    using start(4) holding_nested [OF irq_ok_pushcli [OF ok]] ok by (simp add: irq_ok_def)
  with start ok show ?case by (simp add: irq_inv_def) (simp add: irq_ok_def)
next
  case (unmark s i c)
  have "irq_ok (smp_cpu s i)" "0 < ncli (smp_cpu s i)" using unmark by (simp_all add: irq_inv_def)
  then have "c = smp_cpu s i" using unmark(4) by (simp add: holding_nested)
  with unmark show ?case by (simp add: irq_inv_def)
next
  case (unlock s i c)
  have "irq_ok (smp_cpu s i)" using unlock by (simp add: irq_inv_def)
  then have "irq_ok c" using unlock(4) by (rule popcli_irq_ok)
  with unlock show ?case by (simp add: irq_inv_def)
next
  case (nest s i)
  then show ?case by (simp add: irq_inv_def) (simp add: irq_ok_def)
next
  case (unnest s i c)
  have "irq_ok (smp_cpu s i)" using unnest by (simp add: irq_inv_def)
  then have "irq_ok c" using unnest(3) by (rule popcli_irq_ok)
  with unnest popcli_ncli [OF unnest(3)] show ?case by (simp add: irq_inv_def)
next
  case (toggle s i b)
  then show ?case by (simp add: irq_inv_def irq_ok_def)
qed (simp_all add: irq_inv_def)

lemma smp_step_lock: "smp_step s s' \<Longrightarrow> lock_inv s own \<Longrightarrow> \<exists>own. lock_inv s' own"
proof (induction rule: smp_step.cases)
  case (take s i)
  then have "lock_inv s' (Some i)" by (auto simp: lock_inv_def owns_def)
  then show ?case by blast
next
  case (unlock s i c)
  then have "own = Some i" by (auto simp: lock_inv_def owns_def)
  with unlock have "lock_inv s' None" by (auto simp: lock_inv_def owns_def)
  then show ?case by blast
next
  case (mark s i callers)
  then have own: "own = Some i" by (auto simp: lock_inv_def owns_def)
  with mark have "lock_inv s' own" by (auto simp: lock_inv_def owns_def)
  then show ?case by blast
next
  case (unmark s i c)
  then have own: "own = Some i" by (auto simp: lock_inv_def owns_def)
  with unmark have "lock_inv s' own" by (auto simp: lock_inv_def owns_def)
  then show ?case by blast
next
  case (start s i c)
  then have "\<not> owns s i" by (simp add: owns_def)
  with start have "own \<noteq> Some i" by (auto simp: lock_inv_def)
  with start have "lock_inv s' own" by (auto simp: lock_inv_def owns_def)
  then show ?case by blast
next
  case (spin s i)
  then have "lock_inv s' own" by (simp add: lock_inv_def owns_def)
  then show ?case by blast
next
  case (nest s i)
  then have "lock_inv s' own" by (simp add: lock_inv_def owns_def)
  then show ?case by blast
next
  case (unnest s i c)
  then have "lock_inv s' own" by (simp add: lock_inv_def owns_def)
  then show ?case by blast
next
  case (toggle s i b)
  then have "lock_inv s' own" by (simp add: lock_inv_def owns_def)
  then show ?case by blast
qed

lemma smp_step_inv: "smp_step s s' \<Longrightarrow> smp_inv s \<Longrightarrow> smp_inv s'"
  using smp_step_irq smp_step_lock by (auto simp: smp_inv_def)

lemma smp_reachable_inv: "smp_step\<^sup>*\<^sup>* s s' \<Longrightarrow> smp_inv s \<Longrightarrow> smp_inv s'"
  by (induction rule: rtranclp_induct) (auto dest: smp_step_inv)

section \<open>Properties\<close>


definition ex_cpu :: cpu where
  "ex_cpu = \<lparr>gdt = [], ts_addr = 0, ts_ss0 = 0, ts_esp0 = 0, ts_iomb = 0, cr3 = 0x400000, ncli = 0, intena = False, if_flag = True\<rparr>"

definition ex_smp :: smp where
  "ex_smp = \<lparr>smp_cpu = (\<lambda>_. ex_cpu), smp_lock = \<lparr>locked = 0, lk_name = [], lk_cpu = None, pcs = replicate 10 0\<rparr>,
     smp_pc = (\<lambda>_. Outside)\<rparr>"

lemma ex_smp_start:
  "smp_step ex_smp (ex_smp\<lparr>smp_cpu := (smp_cpu ex_smp)(0 := pushcli ex_cpu), smp_pc := (smp_pc ex_smp)(0 := Spinning)\<rparr>)"
  by (rule smp_step.start) (simp_all add: ex_smp_def ex_cpu_def holding_nested irq_ok_def)


text \<open>
  C26: on one CPU, \<open>acquire\<close> of a free lock followed by \<open>release\<close> does not panic, runs the
  code in between with interrupts off and one level deeper, and afterwards the lock is free and
  nesting depth and interrupt flag are what they were.
\<close>

theorem acquire_release_round:
  assumes "irq_ok c" "locked lk = 0"
  shows "\<exists>c1 lk1 c2 lk2. acquire callers i c lk = Some (c1, lk1) \<and> ncli c1 = ncli c + 1 \<and> \<not> if_flag c1
    \<and> release i c1 lk1 = Some (c2, lk2) \<and> ncli c2 = ncli c \<and> if_flag c2 = if_flag c \<and> locked lk2 = 0 \<and> lk_cpu lk2 = None"
  using acquire_release [OF assms, of callers i] by fastforce

theorem acquire_release_round_witness:
  "\<exists>c1 lk1 c2 lk2. acquire [] 0 ex_cpu (smp_lock ex_smp) = Some (c1, lk1) \<and> ncli c1 = 1 \<and> \<not> if_flag c1
    \<and> release 0 c1 lk1 = Some (c2, lk2) \<and> ncli c2 = 0 \<and> if_flag c2 \<and> locked lk2 = 0 \<and> lk_cpu lk2 = None"
  using acquire_release_round [of ex_cpu "smp_lock ex_smp" "[]" 0]
  by (simp add: ex_cpu_def ex_smp_def irq_ok_def)

end
