(* ===== verification/Proc_State.thy ===== *)
theory Proc_State
  imports Sh_mem Spinlock
begin

text \<open>
  The data of \<open>proc.h\<close> and the trap frame of \<open>x86.h\<close>: per-process and per-CPU state, and the
  state \<open>ksys\<close> of the memory and process side of the kernel, which extends the shared-page
  table and the page allocator. Process pointers are indices into \<open>ptable.proc\<close>; open files
  and inodes are indices into their tables. \<open>p_tf\<close> and \<open>p_ctx\<close> are the contents of the
  structures the C pointers \<open>tf\<close> and \<open>context\<close> point at, \<open>p_tf_ptr\<close> and \<open>p_context_ptr\<close> the pointers
  themselves. The model follows one CPU, number 0, whose \<open>struct cpu\<close> is the field \<open>cpu\<close>. \<open>kdata\<close>,
  \<open>forkret_addr\<close> and \<open>trapret_addr\<close> are the addresses of the linker symbols \<open>data\<close>, \<open>forkret\<close> and \<open>trapret\<close>.
\<close>

record trapframe =
  tf_edi :: u32
  tf_esi :: u32
  tf_ebp :: u32
  tf_oesp :: u32
  tf_ebx :: u32
  tf_edx :: u32
  tf_ecx :: u32
  tf_eax :: u32
  tf_gs :: u16
  tf_fs :: u16
  tf_es :: u16
  tf_ds :: u16
  tf_trapno :: u32
  tf_err :: u32
  tf_eip :: u32
  tf_cs :: u16
  tf_eflags :: u32
  tf_esp :: u32
  tf_ss :: u16

definition zero_trapframe :: trapframe where
  "zero_trapframe = \<lparr>tf_edi = 0, tf_esi = 0, tf_ebp = 0, tf_oesp = 0, tf_ebx = 0, tf_edx = 0,
     tf_ecx = 0, tf_eax = 0, tf_gs = 0, tf_fs = 0, tf_es = 0, tf_ds = 0, tf_trapno = 0, tf_err = 0,
     tf_eip = 0, tf_cs = 0, tf_eflags = 0, tf_esp = 0, tf_ss = 0\<rparr>"

record proc_context =
  ctx_edi :: u32
  ctx_esi :: u32
  ctx_ebx :: u32
  ctx_ebp :: u32
  ctx_eip :: u32

datatype procstate = UNUSED | EMBRYO | SLEEPING | RUNNABLE | RUNNING | ZOMBIE

text \<open>What a process can sleep on: the addresses the code passes to \<open>sleep\<close>.\<close>

datatype channel =
  ProcChan nat | TicksChan | LogChan | BufChan nat | SleeplockChan nat | PipeReadChan addr
  | PipeWriteChan addr | InputChan

record proc =
  p_sz :: u32
  p_pgdir :: addr
  p_kstack :: addr
  p_state :: procstate
  p_pid :: int
  p_parent :: "nat option"
  p_tf_ptr :: addr
  p_tf :: trapframe
  p_context_ptr :: addr
  p_ctx :: proc_context
  p_chan :: "channel option"
  p_killed :: bool
  p_ofile :: "nat option list"
  p_cwd :: "nat option"
  p_name :: "u8 list"
  p_shm_idx :: int
  p_shm_va :: addr

record ksys = shm_state +
  procs :: "proc list"
  curproc :: "nat option"
  initproc :: "nat option"
  cpu :: cpu
  kpgdir :: addr
  kdata :: addr
  ptable_lock :: spinlock
  forkret_addr :: u32
  trapret_addr :: u32
  ticks :: u32
  tickslock :: spinlock
  idt :: "gatedesc list"

text \<open>\<open>myproc()\<close> as a pointer is the field \<open>curproc\<close>; dereferencing it when no process runs
  on the CPU has no defined result.\<close>

definition myproc :: "'a ksys_scheme \<Rightarrow> proc option" where
  "myproc s = (case curproc s of None \<Rightarrow> None
     | Some i \<Rightarrow> if i < length (procs s) then Some (procs s ! i) else None)"

definition upd_proc :: "nat \<Rightarrow> (proc \<Rightarrow> proc) \<Rightarrow> 'a ksys_scheme \<Rightarrow> 'a ksys_scheme" where
  "upd_proc i f s = s\<lparr>procs := (procs s)[i := f (procs s ! i)]\<rparr>"

lemma kalloc_ksys [simp, frame_simps]:
  "shared_memory (snd (kalloc s1)) = shared_memory s1"
  "procs (snd (kalloc s)) = procs s" "curproc (snd (kalloc s)) = curproc s"
  "initproc (snd (kalloc s)) = initproc s" "cpu (snd (kalloc s)) = cpu s"
  "kpgdir (snd (kalloc s)) = kpgdir s" "kdata (snd (kalloc s)) = kdata s"
  "myproc (snd (kalloc s)) = myproc s" "ptable_lock (snd (kalloc s)) = ptable_lock s"
  by (simp_all add: kalloc_def Let_def myproc_def split: option.split)

lemma kfree_ksys [frame_simps]:
  assumes "kfree s v = Some s'"
  shows "procs s' = procs s" "curproc s' = curproc s" "initproc s' = initproc s" "cpu s' = cpu s"
    "kpgdir s' = kpgdir s" "kdata s' = kdata s" "myproc s' = myproc s" "kend s' = kend s"
    "use_lock s' = use_lock s"
  using assms by (auto simp: kfree_eq myproc_def split: if_splits option.split)

end
