(* ===== verification/User_Mem.thy ===== *)
theory User_Mem
  imports Proc_State
begin

text \<open>
  User memory as the kernel sees it while a process runs: addresses go through the page directory
  in \<open>cr3\<close>. An access to a page that is not present raises a page fault, which \<open>trap\<close> of \<open>trap.c\<close>
  serves by giving a lazily allocated page its frame; after any other fault the process exits and
  the access never returns, \<open>None\<close> here. A kernel access to a present page through a directory or
  table entry without the writable bit faults when it writes (\<open>CR0_WP\<close> is set in \<open>entry.S\<close>).

  On top of it the system-call argument fetching of \<open>syscall.c\<close>. A function that fills in a result
  through a pointer and returns 0 or -1 returns an option here; \<open>fetchstr\<close> and \<open>argstr\<close>, which
  set a pointer and return the length of the string at it, return the pointer and the string.
\<close>

section \<open>Translation and page faults\<close>

definition mmu_translate :: "'a ksys_scheme \<Rightarrow> addr \<Rightarrow> addr option" where
  "mmu_translate s va =
     (let pde = load32 (mem s) (P2V (PTE_ADDR (cr3 (cpu s))) + 4 * PDX va);
          pte = load32 (mem s) (P2V (PTE_ADDR pde) + 4 * PTX va)
      in if pde AND PTE_P = 0 \<or> pte AND PTE_P = 0 then None
         else Some (PTE_ADDR pte OR PTE_FLAGS va))"

definition mmu_writable :: "'a ksys_scheme \<Rightarrow> addr \<Rightarrow> bool" where
  "mmu_writable s va =
     (let pde = load32 (mem s) (P2V (PTE_ADDR (cr3 (cpu s))) + 4 * PDX va);
          pte = load32 (mem s) (P2V (PTE_ADDR pde) + 4 * PTX va)
      in pde AND PTE_W \<noteq> 0 \<and> pte AND PTE_W \<noteq> 0)"

text \<open>The test \<open>pgdir[PDX(addr)] & PTE_P == 0\<close> of the source groups as
  \<open>pgdir[PDX(addr)] & (PTE_P == 0)\<close>.\<close>

definition is_page_lazy :: "'a ksys_scheme \<Rightarrow> addr \<Rightarrow> bool option" where
  "is_page_lazy s va = do {
     p \<leftarrow> myproc s;
     let pde = load32 (mem s) (p_pgdir p + 4 * PDX va);
     if pde AND (if (PTE_P :: u32) = 0 then 1 else 0) \<noteq> 0 then Some False
     else Some (load32 (mem s) (P2V (PTE_ADDR pde) + 4 * PTX va) AND PTE_LAZY \<noteq> 0) }"

text \<open>The page-fault branch of \<open>trap\<close>: the flag says whether the faulting instruction is retried
  (otherwise the process exits). When the page table is missing the code jumps over the
  initialisation of \<open>pte\<close> to \<open>kill_process\<close>, where it prints \<open>*pte\<close>: an access through an uninitialised pointer.\<close>

definition page_fault :: "'a ksys_scheme \<Rightarrow> addr \<Rightarrow> (bool \<times> 'a ksys_scheme) option" where
  "page_fault s va = do {
     p \<leftarrow> myproc s;
     let pde = load32 (mem s) (p_pgdir p + 4 * PDX va);
     if pde AND PTE_P = 0 then ub
     else do {
       let pte = P2V (PTE_ADDR pde) + 4 * PTX va;
       lazy \<leftarrow> is_page_lazy s va;
       if \<not> lazy then Some (False, s)
       else
         let s = s\<lparr>mem := store32 (mem s) pte 0\<rparr>;
             (pg, s) = kalloc s in
         if pg = 0 then Some (False, s)
         else
           let s = s\<lparr>mem := store32 (mem s) pte (load32 (mem s) pte AND NOT PTE_LAZY)\<rparr>
           in Some (True, s\<lparr>mem := store32 (mem s) pte (V2P pg OR PTE_P OR PTE_W OR PTE_U)\<rparr>) } }"

definition user_load8 :: "'a ksys_scheme \<Rightarrow> addr \<Rightarrow> (u8 \<times> 'a ksys_scheme) option" where
  "user_load8 s va =
     (case mmu_translate s va of Some pa \<Rightarrow> Some (mem s (P2V pa), s)
      | None \<Rightarrow> do {
          (resume, s) \<leftarrow> page_fault s va;
          if \<not> resume then None
          else do { pa \<leftarrow> mmu_translate s va; Some (mem s (P2V pa), s) } })"

definition user_store8 :: "'a ksys_scheme \<Rightarrow> addr \<Rightarrow> u8 \<Rightarrow> 'a ksys_scheme option" where
  "user_store8 s va c =
     (case mmu_translate s va of
        Some pa \<Rightarrow> if mmu_writable s va then Some (s\<lparr>mem := (mem s)(P2V pa := c)\<rparr>) else None
      | None \<Rightarrow> do {
          (resume, s) \<leftarrow> page_fault s va;
          if \<not> resume then None
          else do {
            pa \<leftarrow> mmu_translate s va;
            if mmu_writable s va then Some (s\<lparr>mem := (mem s)(P2V pa := c)\<rparr>) else None } })"

fun user_loads :: "'a ksys_scheme \<Rightarrow> addr \<Rightarrow> nat \<Rightarrow> (u8 list \<times> 'a ksys_scheme) option" where
  "user_loads s va 0 = Some ([], s)"
| "user_loads s va (Suc n) = do {
     (c, s) \<leftarrow> user_load8 s va;
     (cs, s) \<leftarrow> user_loads s (va + 1) n;
     Some (c # cs, s) }"

fun user_stores :: "'a ksys_scheme \<Rightarrow> addr \<Rightarrow> u8 list \<Rightarrow> 'a ksys_scheme option" where
  "user_stores s va [] = Some s"
| "user_stores s va (c # cs) = do { s \<leftarrow> user_store8 s va c; user_stores s (va + 1) cs }"

definition word_bytes :: "u32 \<Rightarrow> u8 list" where
  "word_bytes w = [ucast w, ucast (drop_bit 8 w), ucast (drop_bit 16 w), ucast (drop_bit 24 w)]"

definition bytes_word :: "u8 list \<Rightarrow> u32" where
  "bytes_word bs = ucast (bs ! 0) OR push_bit 8 (ucast (bs ! 1)) OR push_bit 16 (ucast (bs ! 2))
     OR push_bit 24 (ucast (bs ! 3))"

definition user_load32 :: "'a ksys_scheme \<Rightarrow> addr \<Rightarrow> (u32 \<times> 'a ksys_scheme) option" where
  "user_load32 s va = do { (bs, s) \<leftarrow> user_loads s va 4; Some (bytes_word bs, s) }"

definition user_store32 :: "'a ksys_scheme \<Rightarrow> addr \<Rightarrow> u32 \<Rightarrow> 'a ksys_scheme option" where
  "user_store32 s va w = user_stores s va (word_bytes w)"

section \<open>Fetching system-call arguments\<close>

definition fetchint :: "'a ksys_scheme \<Rightarrow> addr \<Rightarrow> (u32 option \<times> 'a ksys_scheme) option" where
  "fetchint s va = do {
     p \<leftarrow> myproc s;
     if p_sz p \<le> va \<or> p_sz p < va + 4 then Some (None, s)
     else do { (w, s) \<leftarrow> user_load32 s va; Some (Some w, s) } }"

partial_function (option) fetchstr_loop ::
  "'a ksys_scheme \<Rightarrow> addr \<Rightarrow> addr \<Rightarrow> u8 list \<Rightarrow> (u8 list option \<times> 'a ksys_scheme) option" where
  "fetchstr_loop s ep q acc =
     (if \<not> q < ep then Some (None, s)
      else do {
        (c, s) \<leftarrow> user_load8 s q;
        if c = 0 then Some (Some (rev acc), s)
        else fetchstr_loop s ep (q + 1) (c # acc) })"

definition fetchstr :: "'a ksys_scheme \<Rightarrow> addr \<Rightarrow> ((addr \<times> u8 list) option \<times> 'a ksys_scheme) option" where
  "fetchstr s va = do {
     p \<leftarrow> myproc s;
     if p_sz p \<le> va then Some (None, s)
     else do {
       (r, s) \<leftarrow> fetchstr_loop s (p_sz p) va [];
       Some (map_option (Pair va) r, s) } }"

definition argint :: "'a ksys_scheme \<Rightarrow> nat \<Rightarrow> (u32 option \<times> 'a ksys_scheme) option" where
  "argint s n = do { p \<leftarrow> myproc s; fetchint s (tf_esp (p_tf p) + 4 + 4 * word_of_nat n) }"

definition argptr :: "'a ksys_scheme \<Rightarrow> nat \<Rightarrow> u32 \<Rightarrow> (addr option \<times> 'a ksys_scheme) option" where
  "argptr s n sz = do {
     p \<leftarrow> myproc s;
     (r, s) \<leftarrow> argint s n;
     case r of None \<Rightarrow> Some (None, s)
     | Some i \<Rightarrow>
         if sint sz < 0 \<or> p_sz p \<le> i \<or> p_sz p < i + sz then Some (None, s)
         else Some (Some i, s) }"

definition argstr :: "'a ksys_scheme \<Rightarrow> nat \<Rightarrow> ((addr \<times> u8 list) option \<times> 'a ksys_scheme) option" where
  "argstr s n = do {
     (r, s) \<leftarrow> argint s n;
     case r of None \<Rightarrow> Some (None, s) | Some a \<Rightarrow> fetchstr s a }"

section \<open>What an access may change\<close>

definition same_but_mem :: "'a ksys_scheme \<Rightarrow> 'a ksys_scheme \<Rightarrow> bool" where
  "same_but_mem s s' \<longleftrightarrow> (\<exists>f m. s' = s\<lparr>freelist := f, mem := m\<rparr>)"

lemma same_but_mem_refl [simp]: "same_but_mem s s"
  unfolding same_but_mem_def by (intro exI [of _ "freelist s"] exI [of _ "mem s"]) simp

lemma same_but_mem_trans [trans]: "same_but_mem s s' \<Longrightarrow> same_but_mem s' s'' \<Longrightarrow> same_but_mem s s''"
  unfolding same_but_mem_def by fastforce

lemma same_but_mem_fields:
  assumes "same_but_mem s s'"
  shows "kend s' = kend s" "myproc s' = myproc s" "procs s' = procs s" "curproc s' = curproc s"
    "cpu s' = cpu s" "shared_memory s' = shared_memory s" "use_lock s' = use_lock s"
    "ptable_lock s' = ptable_lock s" "initproc s' = initproc s"
  using assms by (auto simp: same_but_mem_def myproc_def split: option.split)

lemma same_but_mem_mem: "same_but_mem s (s\<lparr>mem := m\<rparr>)"
  unfolding same_but_mem_def by (intro exI [of _ "freelist s"] exI [of _ m]) simp

lemma same_but_mem_kalloc: "same_but_mem s (snd (kalloc s))"
  unfolding same_but_mem_def
  by (rule exI [of _ "freelist (snd (kalloc s))"], rule exI [of _ "mem s"])
    (auto simp: kalloc_def Let_def)

lemma same_but_mem_kfree: "kfree s v = Some s' \<Longrightarrow> same_but_mem s s'"
  unfolding same_but_mem_def kfree_eq
  by (rule exI [of _ "freelist s'"], rule exI [of _ "mem s'"]) (auto split: if_splits)

lemma same_but_mem_upd: "same_but_mem s s' \<Longrightarrow> same_but_mem s (s'\<lparr>mem := m\<rparr>)"
  using same_but_mem_mem same_but_mem_trans by blast

lemma same_but_mem_kalloc_upd: "same_but_mem s (snd (kalloc (s\<lparr>mem := m\<rparr>)))"
  using same_but_mem_mem same_but_mem_kalloc same_but_mem_trans by blast

lemma page_fault_same: "page_fault s va = Some (r, s') \<Longrightarrow> same_but_mem s s'"
  by (auto simp: page_fault_def Let_def case_prod_beta bind_eq_Some_conv split: if_splits
      intro: same_but_mem_upd same_but_mem_kalloc_upd)

lemma user_load8_same: "user_load8 s va = Some (c, s') \<Longrightarrow> same_but_mem s s'"
  by (auto simp: user_load8_def bind_eq_Some_conv split: option.splits if_splits dest: page_fault_same)

lemma user_store8_same: "user_store8 s va c = Some s' \<Longrightarrow> same_but_mem s s'"
  by (auto simp: user_store8_def bind_eq_Some_conv same_but_mem_mem split: option.splits if_splits
      dest!: page_fault_same intro: same_but_mem_trans)

lemma user_loads_same: "user_loads s va n = Some (cs, s') \<Longrightarrow> same_but_mem s s'"
  by (induction s va n arbitrary: cs rule: user_loads.induct)
    (auto simp: bind_eq_Some_conv dest: user_load8_same intro: same_but_mem_trans)

lemma user_stores_same: "user_stores s va cs = Some s' \<Longrightarrow> same_but_mem s s'"
  by (induction s va cs rule: user_stores.induct)
    (auto simp: bind_eq_Some_conv dest: user_store8_same intro: same_but_mem_trans)

lemma fetchint_same: "fetchint s va = Some (r, s') \<Longrightarrow> same_but_mem s s'"
  by (auto simp: fetchint_def user_load32_def bind_eq_Some_conv split: if_splits dest: user_loads_same)

lemma fetchstr_loop_same: "fetchstr_loop s ep q acc = Some rs \<Longrightarrow> same_but_mem s (snd rs)"
  by (erule fetchstr_loop.raw_induct [rotated])
    (fastforce simp: bind_eq_Some_conv split: if_splits dest: user_load8_same intro: same_but_mem_trans)

lemma argint_same: "argint s n = Some (r, s') \<Longrightarrow> same_but_mem s s'"
  by (auto simp: argint_def bind_eq_Some_conv dest: fetchint_same)

lemma argptr_same: "argptr s n sz = Some (r, s') \<Longrightarrow> same_but_mem s s'"
  by (auto simp: argptr_def bind_eq_Some_conv split: option.splits if_splits dest: argint_same)

lemma fetchstr_same: "fetchstr s va = Some (r, s') \<Longrightarrow> same_but_mem s s'"
  by (auto simp: fetchstr_def bind_eq_Some_conv split: if_splits dest!: fetchstr_loop_same)

lemma argstr_same: "argstr s n = Some (r, s') \<Longrightarrow> same_but_mem s s'"
  unfolding argstr_def bind_eq_Some_conv
  by (auto split: option.splits dest!: argint_same fetchstr_same intro: same_but_mem_trans)

lemmas same_but_mem_fetch = fetchint_same argint_same argptr_same argstr_same fetchstr_same

section \<open>Bounds\<close>

lemma nonneg_unat:
  fixes w :: u32
  assumes "0 \<le> sint w"
  shows "unat w < 2147483648"
proof -
  have "\<not> bit w 31" using assms bit_last_iff [of w] by simp
  have "take_bit 31 w = w"
  proof (rule bit_word_eqI)
    fix n assume "n < LENGTH(32)"
    with \<open>\<not> bit w 31\<close> show "bit (take_bit 31 w) n = bit w n"
      by (cases "n = 31") (auto simp: bit_simps)
  qed
  then have "unat w = unat w mod 2147483648" using unat_take [of 31 w] by simp
  then show ?thesis by (metis mod_less_divisor zero_less_numeral)
qed

lemma argptr_inside:
  assumes "argptr s n sz = Some (Some i, s')" "myproc s = Some p" "p_sz p \<le> KERNBASE"
  shows "unat i + unat sz \<le> unat (p_sz p)" "i < p_sz p"
proof -
  from assms have c: "0 \<le> sint sz" "i < p_sz p" "i + sz \<le> p_sz p"
    by (auto simp: argptr_def bind_eq_Some_conv not_less not_le split: option.splits if_splits)
  then show "i < p_sz p" by simp
  have "unat i < 2147483648" using c(2) assms(3) by (simp add: word_less_nat_alt word_le_nat_alt)
  moreover have "unat sz < 2147483648"

    using c(1) by (rule nonneg_unat)
  ultimately show "unat i + unat sz \<le> unat (p_sz p)"
    using c(3) by (simp add: word_le_nat_alt unat_word_ariths)
qed

text \<open>What \<open>fetchstr\<close> finds when no page of the string has to be faulted in.\<close>

definition user_byte :: "'a ksys_scheme \<Rightarrow> addr \<Rightarrow> u8" where
  "user_byte s va = mem s (P2V (the (mmu_translate s va)))"

lemma user_load8_present: "mmu_translate s va \<noteq> None \<Longrightarrow> user_load8 s va = Some (user_byte s va, s)"
  by (auto simp: user_load8_def user_byte_def)

lemma fetchstr_loop_present:
  assumes "\<forall>i \<le> k. mmu_translate s (q + word_of_nat i) \<noteq> None" "unat q + k < unat ep"
    and "\<forall>i < k. user_byte s (q + word_of_nat i) \<noteq> 0" "user_byte s (q + word_of_nat k) = 0"
  shows "fetchstr_loop s ep q acc = Some (Some (rev acc @ map (\<lambda>i. user_byte s (q + word_of_nat i)) [0..<k]), s)"
  using assms
proof (induction k arbitrary: q acc)
  case 0
  then have "q < ep" "user_load8 s q = Some (0, s)"
    using user_load8_present [of s q] by (simp_all add: word_less_nat_alt)
  then show ?case by (subst fetchstr_loop.simps) simp
next
  case (Suc k)
  have go: "q < ep" "user_load8 s q = Some (user_byte s q, s)" "user_byte s q \<noteq> 0"
    using Suc.prems user_load8_present [of s q] by (auto simp: word_less_nat_alt dest: spec [of _ 0])
  have shift: "q + 1 + word_of_nat i = q + word_of_nat (Suc i)" for i by simp
  have "unat (q + 1) = unat q + 1"
    using Suc.prems(2) unat_less_4G [of ep] by (simp add: unat_word_ariths)
  then have "fetchstr_loop s ep (q + 1) (user_byte s q # acc)
      = Some (Some (rev (user_byte s q # acc) @ map (\<lambda>i. user_byte s (q + 1 + word_of_nat i)) [0..<k]), s)"
  proof (intro Suc.IH)
    show "\<forall>i\<le>k. mmu_translate s (q + 1 + word_of_nat i) \<noteq> None"
      and "\<forall>i<k. user_byte s (q + 1 + word_of_nat i) \<noteq> 0"
      and "user_byte s (q + 1 + word_of_nat k) = 0"
      unfolding shift using Suc.prems(1,3,4) by auto
  qed (use Suc.prems(2) in simp)
  moreover have "map (\<lambda>i. user_byte s (q + word_of_nat i)) [0..<Suc k]
      = user_byte s q # map (\<lambda>i. user_byte s (q + 1 + word_of_nat i)) [0..<k]"
    unfolding shift by (simp only: upt_conv_Cons [of 0 "Suc k"] map_Suc_upt [symmetric] list.map map_map comp_def zero_less_Suc) simp
  ultimately show ?case
    using go by (subst fetchstr_loop.simps) simp
qed

section \<open>Properties\<close>

text \<open>
  C24: the pointers \<open>argptr\<close> lets through denote blocks that lie inside the calling
  process's memory; with a process size of at most \<open>KERNBASE\<close> the 32-bit sum in its check cannot
  wrap. \<open>argint\<close> and \<open>argptr\<close> change nothing but the memory of faulted-in pages.
\<close>

theorem argptr_bounds:
  assumes "argptr s n sz = Some (r, s')" "myproc s = Some p" "p_sz p \<le> KERNBASE"
  shows "same_but_mem s s' \<and> (\<forall>i. r = Some i \<longrightarrow> 0 \<le> sint sz \<and> i < p_sz p \<and> unat i + unat sz \<le> unat (p_sz p))"
proof -
  have "0 \<le> sint sz \<and> i < p_sz p \<and> unat i + unat sz \<le> unat (p_sz p)" if "r = Some i" for i
    using argptr_inside [OF assms(1) [unfolded that] assms(2,3)] assms(1) that
    by (auto simp: argptr_def bind_eq_Some_conv split: option.splits if_splits)
  with argptr_same [OF assms(1)] show ?thesis by blast
qed

text \<open>A process of one page whose stack holds the word 16 as first argument, for the witnesses.\<close>

definition ex_uproc :: proc where
  "ex_uproc = \<lparr>p_sz = 0x1000, p_pgdir = 0x80400000, p_kstack = 0x80500000, p_state = RUNNING, p_pid = 1,
     p_parent = None, p_tf_ptr = 0, p_tf = zero_trapframe, p_context_ptr = 0,
     p_ctx = \<lparr>ctx_edi = 0, ctx_esi = 0, ctx_ebx = 0, ctx_ebp = 0, ctx_eip = 0\<rparr>, p_chan = None,
     p_killed = False, p_ofile = replicate 16 None, p_cwd = None, p_name = [], p_shm_idx = -1, p_shm_va = 0\<rparr>"

definition ex_user :: ksys where
  "ex_user = \<lparr>mem = store32 (store32 (store32 (\<lambda>_. 0) 0x80400000 0x401007) 0x80401000 0x402007) 0x80402004 16,
     freelist = 0, use_lock = True, kend = 0x80200000, shared_memory = [], procs = [ex_uproc],
     curproc = Some 0, initproc = None,
     cpu = ex_cpu, kpgdir = 0, kdata = 0x80108000,
     ptable_lock = \<lparr>locked = 0, lk_name = [], lk_cpu = None, pcs = replicate 10 0\<rparr>, forkret_addr = 0, trapret_addr = 0,
     ticks = 0, tickslock = \<lparr>locked = 0, lk_name = [], lk_cpu = None, pcs = replicate 10 0\<rparr>, idt = []\<rparr>"

lemma ex_user_argptr: "map_option fst (argptr ex_user 0 8) = Some (Some 16)"
  by code_simp

theorem argptr_bounds_witness:
  "\<exists>s'. argptr ex_user 0 8 = Some (Some 16, s') \<and> same_but_mem ex_user s' \<and> unat (16 :: u32) + unat (8 :: u32) \<le> 4096"
proof -
  obtain s' where a: "argptr ex_user 0 8 = Some (Some 16, s')" using ex_user_argptr by auto
  have p: "myproc ex_user = Some ex_uproc" by (simp add: myproc_def ex_user_def)
  have "p_sz ex_uproc \<le> KERNBASE" "p_sz ex_uproc = 0x1000" by (simp_all add: ex_uproc_def)
  with argptr_bounds [OF a p] a show ?thesis by auto
qed

end
