(* ===== verification/Vm.thy ===== *)
theory Vm
  imports User_Mem
begin

text \<open>
  Page tables, \<open>vm.c\<close>. A page directory and its page tables are pages of the kernel memory;
  the operations below read and write their 32-bit entries there, through the kernel's direct
  map (\<open>P2V\<close>). \<open>ub\<close> marks an access the C program does through a null pointer or to an
  uninitialised variable; it has no defined result. \<open>walkpgdir\<close> returns 0 for the null pointer.
\<close>

section \<open>Segments\<close>

definition seginit :: "'a ksys_scheme \<Rightarrow> 'a ksys_scheme" where
  "seginit s = s\<lparr>cpu := (cpu s)\<lparr>gdt := (gdt (cpu s))
     [unat SEG_KCODE := SEG (0x8 OR 0x2) 0 0xffffffff 0,
      unat SEG_KDATA := SEG 0x2 0 0xffffffff 0,
      unat SEG_UCODE := SEG (0x8 OR 0x2) 0 0xffffffff DPL_USER,
      unat SEG_UDATA := SEG 0x2 0 0xffffffff DPL_USER]\<rparr>\<rparr>"

section \<open>Walking and mapping\<close>

definition walkpgdir ::
  "'a ksys_scheme \<Rightarrow> addr \<Rightarrow> addr \<Rightarrow> bool \<Rightarrow> addr \<times> 'a ksys_scheme" where
  "walkpgdir s pd va alloc =
     (let pde = pd + 4 * PDX va in
      if load32 (mem s) pde AND PTE_P \<noteq> 0 then
        (P2V (PTE_ADDR (load32 (mem s) pde)) + 4 * PTX va, s)
      else if \<not> alloc then (0, s)
      else
        let (pgtab, s) = kalloc s in
        if pgtab = 0 then (0, s)
        else
          let s = s\<lparr>mem := memset (mem s) pgtab 0 PGSIZE\<rparr>;
              s = s\<lparr>mem := store32 (mem s) pde (V2P pgtab OR PTE_P OR PTE_W OR PTE_U)\<rparr>
          in (pgtab + 4 * PTX va, s))"

partial_function (option) mappages_loop ::
  "addr \<Rightarrow> addr \<Rightarrow> u32 \<Rightarrow> 'a ksys_scheme \<Rightarrow> addr \<Rightarrow> u32 \<Rightarrow> (int \<times> 'a ksys_scheme) option" where
  "mappages_loop pd lastp perm s a pa =
     (case walkpgdir s pd a True of (pte, s) \<Rightarrow>
      if pte = 0 then Some (-1, s)
      else if load32 (mem s) pte AND PTE_P \<noteq> 0 then panic ''remap''
      else if a = lastp then Some (0, s\<lparr>mem := store32 (mem s) pte (pa OR perm OR PTE_P)\<rparr>)
      else mappages_loop pd lastp perm (s\<lparr>mem := store32 (mem s) pte (pa OR perm OR PTE_P)\<rparr>)
             (a + PGSIZE) (pa + PGSIZE))"

definition mappages ::
  "'a ksys_scheme \<Rightarrow> addr \<Rightarrow> addr \<Rightarrow> u32 \<Rightarrow> u32 \<Rightarrow> u32 \<Rightarrow> (int \<times> 'a ksys_scheme) option" where
  "mappages s pd va n pa perm =
     mappages_loop pd (PGROUNDDOWN (va + n - 1)) perm s (PGROUNDDOWN va) pa"

section \<open>Releasing user memory\<close>

partial_function (option) deallocuvm_loop ::
  "addr \<Rightarrow> u32 \<Rightarrow> 'a ksys_scheme \<Rightarrow> addr \<Rightarrow> 'a ksys_scheme option" where
  "deallocuvm_loop pd oldsz s a =
     (if \<not> a < oldsz then Some s
      else do {
        p \<leftarrow> myproc s;
        let pte = fst (walkpgdir s pd a False);
        if p_shm_idx p \<noteq> -1 \<and> a = p_shm_va p then
          if pte = 0 then ub
          else do {
            (_, s) \<leftarrow> shm_remove s (PTE_ADDR (load32 (mem s) pte));
            deallocuvm_loop pd oldsz s (a + PGSIZE) }
        else if pte = 0 then
          deallocuvm_loop pd oldsz s (PGADDR (PDX a + 1) 0 0 - PGSIZE + PGSIZE)
        else if load32 (mem s) pte AND PTE_P \<noteq> 0 then
          if PTE_ADDR (load32 (mem s) pte) = 0 then panic ''kfree''
          else do {
            s \<leftarrow> kfree s (P2V (PTE_ADDR (load32 (mem s) pte)));
            deallocuvm_loop pd oldsz (s\<lparr>mem := store32 (mem s) pte 0\<rparr>) (a + PGSIZE) }
        else deallocuvm_loop pd oldsz s (a + PGSIZE) })"

definition deallocuvm ::
  "'a ksys_scheme \<Rightarrow> addr \<Rightarrow> u32 \<Rightarrow> u32 \<Rightarrow> (u32 \<times> 'a ksys_scheme) option" where
  "deallocuvm s pd oldsz newsz =
     (if oldsz \<le> newsz then Some (oldsz, s)
      else do {
        s \<leftarrow> deallocuvm_loop pd oldsz s (PGROUNDUP newsz);
        Some (newsz, s) })"

definition freevm_pde :: "addr \<Rightarrow> nat \<Rightarrow> 'a ksys_scheme \<Rightarrow> 'a ksys_scheme option" where
  "freevm_pde pd i s =
     (let pde = load32 (mem s) (pd + 4 * word_of_nat i) in
      if pde AND PTE_P \<noteq> 0 then kfree s (P2V (PTE_ADDR pde)) else Some s)"

definition freevm :: "'a ksys_scheme \<Rightarrow> addr \<Rightarrow> 'a ksys_scheme option" where
  "freevm s pd =
     (if pd = 0 then panic ''freevm: no pgdir''
      else do {
        (_, s) \<leftarrow> deallocuvm s pd KERNBASE 0;
        s \<leftarrow> for_each (freevm_pde pd) [0..<NPDENTRIES] s;
        kfree s pd })"

section \<open>Kernel part of a page table\<close>

record kmap =
  virt :: addr
  phys_start :: u32
  phys_end :: u32
  km_perm :: u32

definition kmap_table :: "'a ksys_scheme \<Rightarrow> kmap list" where
  "kmap_table s =
    [\<lparr>virt = KERNBASE, phys_start = 0, phys_end = EXTMEM, km_perm = PTE_W\<rparr>,
     \<lparr>virt = KERNLINK, phys_start = V2P KERNLINK, phys_end = V2P (kdata s), km_perm = 0\<rparr>,
     \<lparr>virt = kdata s, phys_start = V2P (kdata s), phys_end = PHYSTOP, km_perm = PTE_W\<rparr>,
     \<lparr>virt = DEVSPACE, phys_start = DEVSPACE, phys_end = 0, km_perm = PTE_W\<rparr>]"

definition setupkvm_row :: "addr \<Rightarrow> kmap \<Rightarrow> 'a ksys_scheme \<Rightarrow> (bool \<times> 'a ksys_scheme) option" where
  "setupkvm_row pd k s = do {
     (r, s) \<leftarrow> mappages s pd (virt k) (phys_end k - phys_start k) (phys_start k) (km_perm k);
     Some (\<not> r < 0, s) }"

definition setupkvm :: "'a ksys_scheme \<Rightarrow> (addr \<times> 'a ksys_scheme) option" where
  "setupkvm s =
     (let (pd, s) = kalloc s in
      if pd = 0 then Some (0, s)
      else
        let s = s\<lparr>mem := memset (mem s) pd 0 PGSIZE\<rparr> in
        if DEVSPACE < P2V PHYSTOP then panic ''PHYSTOP too high''
        else do {
          (ok, s) \<leftarrow> for_while (setupkvm_row pd) (kmap_table s) s;
          if ok then Some (pd, s)
          else do { s \<leftarrow> freevm s pd; Some (0, s) } })"

definition switchkvm :: "'a ksys_scheme \<Rightarrow> 'a ksys_scheme" where
  "switchkvm s = s\<lparr>cpu := (cpu s)\<lparr>cr3 := V2P (kpgdir s)\<rparr>\<rparr>"

definition kvmalloc :: "'a ksys_scheme \<Rightarrow> 'a ksys_scheme option" where
  "kvmalloc s = do {
     (pd, s) \<leftarrow> setupkvm s;
     Some (switchkvm (s\<lparr>kpgdir := pd\<rparr>)) }"

definition switchuvm :: "'a ksys_scheme \<Rightarrow> nat option \<Rightarrow> 'a ksys_scheme option" where
  "switchuvm s p =
     (case p of None \<Rightarrow> panic ''switchuvm: no process''
      | Some i \<Rightarrow>
          let p = procs s ! i in
          if p_kstack p = 0 then panic ''switchuvm: no kstack''
          else if p_pgdir p = 0 then panic ''switchuvm: no pgdir''
          else do {
            let c = pushcli (cpu s);
            c \<leftarrow> popcli (c\<lparr>
              gdt := (gdt c)[unat SEG_TSS := (SEG16 0x9 (ts_addr c) 103 0)\<lparr>seg_s := 0\<rparr>],
              ts_ss0 := ucast (push_bit 3 SEG_KDATA),
              ts_esp0 := p_kstack p + KSTACKSIZE,
              ts_iomb := 0xFFFF,
              cr3 := V2P (p_pgdir p)\<rparr>);
            Some (s\<lparr>cpu := c\<rparr>) })"

section \<open>Building user memory\<close>

definition inituvm :: "'a ksys_scheme \<Rightarrow> addr \<Rightarrow> addr \<Rightarrow> u32 \<Rightarrow> 'a ksys_scheme option" where
  "inituvm s pd init n =
     (if PGSIZE \<le> n then panic ''inituvm: more than a page''
      else
        let (pg, s) = kalloc s in
        if pg = 0 then ub
        else do {
          let s = s\<lparr>mem := memset (mem s) pg 0 PGSIZE\<rparr>;
          (_, s) \<leftarrow> mappages s pd 0 PGSIZE (V2P pg) (PTE_W OR PTE_U);
          Some (s\<lparr>mem := memmove (mem s) pg init n\<rparr>) })"

partial_function (option) allocuvm_loop ::
  "addr \<Rightarrow> u32 \<Rightarrow> u32 \<Rightarrow> 'a ksys_scheme \<Rightarrow> addr \<Rightarrow> (u32 \<times> 'a ksys_scheme) option" where
  "allocuvm_loop pd oldsz newsz s a =
     (if \<not> a < newsz then Some (newsz, s)
      else case kalloc s of (pg, s) \<Rightarrow>
        if pg = 0 then do {
          (_, s) \<leftarrow> deallocuvm s pd newsz oldsz;
          Some (0, s) }
        else do {
          (r, s) \<leftarrow> mappages (s\<lparr>mem := memset (mem s) pg 0 PGSIZE\<rparr>) pd a PGSIZE (V2P pg) (PTE_W OR PTE_U);
          if r < 0 then do {
            (_, s) \<leftarrow> deallocuvm s pd newsz oldsz;
            s \<leftarrow> kfree s pg;
            Some (0, s) }
          else allocuvm_loop pd oldsz newsz s (a + PGSIZE) })"

definition allocuvm ::
  "'a ksys_scheme \<Rightarrow> addr \<Rightarrow> u32 \<Rightarrow> u32 \<Rightarrow> (u32 \<times> 'a ksys_scheme) option" where
  "allocuvm s pd oldsz newsz =
     (if KERNBASE \<le> newsz then Some (0, s)
      else if newsz < oldsz then Some (oldsz, s)
      else allocuvm_loop pd oldsz newsz s (PGROUNDUP oldsz))"

partial_function (option) allocuvm_lazy_loop ::
  "addr \<Rightarrow> u32 \<Rightarrow> 'a ksys_scheme \<Rightarrow> addr \<Rightarrow> (u32 \<times> 'a ksys_scheme) option" where
  "allocuvm_lazy_loop pd newsz s a =
     (if \<not> a < newsz then Some (newsz, s)
      else do {
        s \<leftarrow> (if load32 (mem s) (pd + 4 * PDX a) AND PTE_P = 0 then
               let (pg, s) = kalloc s in
               if pg = 0 then panic ''allocuvm_lazy''
               else
                 let s = s\<lparr>mem := memset (mem s) pg 0 PGSIZE\<rparr>
                 in Some (s\<lparr>mem := store32 (mem s) (pd + 4 * PDX a) (V2P pg OR PTE_P OR PTE_W OR PTE_U)\<rparr>)
             else Some s);
        let pgtable = P2V (PTE_ADDR (load32 (mem s) (pd + 4 * PDX a)));
        let s = s\<lparr>mem := store32 (mem s) (pgtable + 4 * PTX a) 0\<rparr>;
        let s = s\<lparr>mem := store32 (mem s) (pgtable + 4 * PTX a) (PTE_W OR PTE_U OR PTE_LAZY)\<rparr>;
        allocuvm_lazy_loop pd newsz s (a + PGSIZE) })"

definition allocuvm_lazy ::
  "'a ksys_scheme \<Rightarrow> addr \<Rightarrow> u32 \<Rightarrow> u32 \<Rightarrow> (u32 \<times> 'a ksys_scheme) option" where
  "allocuvm_lazy s pd oldsz newsz =
     (if KERNBASE \<le> newsz then Some (0, s)
      else if newsz < oldsz then Some (oldsz, s)
      else allocuvm_lazy_loop pd newsz s (PGROUNDUP oldsz))"

definition clearpteu :: "'a ksys_scheme \<Rightarrow> addr \<Rightarrow> addr \<Rightarrow> 'a ksys_scheme option" where
  "clearpteu s pd uva =
     (let (pte, s) = walkpgdir s pd uva False in
      if pte = 0 then panic ''clearpteu''
      else Some (s\<lparr>mem := store32 (mem s) pte (load32 (mem s) pte AND NOT PTE_U)\<rparr>))"

section \<open>Copying user memory\<close>

definition copyuvm_pte ::
  "addr \<Rightarrow> addr \<Rightarrow> nat \<Rightarrow> nat \<Rightarrow> 'a ksys_scheme \<Rightarrow> (bool \<times> 'a ksys_scheme) option" where
  "copyuvm_pte pgtable new_pgtable i j s = do {
     p \<leftarrow> myproc s;
     let pte = load32 (mem s) (pgtable + 4 * word_of_nat j);
     let flags = pte AND 0xfff;
     let uva = PGADDR (word_of_nat i) (word_of_nat j) 0;
     if flags AND (PTE_P OR PTE_LAZY) = 0 then Some (True, s)
     else if flags AND PTE_LAZY \<noteq> 0 then
       Some (True, s\<lparr>mem := store32 (mem s) (new_pgtable + 4 * word_of_nat j) flags\<rparr>)
     else if p_shm_idx p \<noteq> -1 \<and> uva = p_shm_va p then
       let s = s\<lparr>mem := store32 (mem s) (new_pgtable + 4 * word_of_nat j) pte\<rparr>;
           (_, s) = shm_add s (PTE_ADDR (load32 (mem s) (pgtable + 4 * word_of_nat j)))
       in Some (True, s)
     else
       let (pg, s) = kalloc s in
       if pg = 0 then Some (False, s)
       else
         case mmu_translate s uva of None \<Rightarrow> ub
         | Some pa \<Rightarrow>
           let s = s\<lparr>mem := copy_range (mem s) pg (\<lambda>k. mem s (P2V pa + k)) PGSIZE\<rparr>
           in Some (True, s\<lparr>mem := store32 (mem s) (new_pgtable + 4 * word_of_nat j) (V2P pg OR flags)\<rparr>) }"

definition copyuvm_pde ::
  "addr \<Rightarrow> addr \<Rightarrow> nat \<Rightarrow> 'a ksys_scheme \<Rightarrow> (bool \<times> 'a ksys_scheme) option" where
  "copyuvm_pde pd new_pd i s =
     (let pde = load32 (mem s) (pd + 4 * word_of_nat i) in
      if pde AND PTE_P = 0 then Some (True, s)
      else
        let pgtable = P2V (PTE_ADDR pde);
            (new_pgtable, s) = kalloc s in
        if new_pgtable = 0 then Some (False, s)
        else do {
          let s = s\<lparr>mem := memmove (mem s) new_pgtable pgtable PGSIZE\<rparr>;
          (ok, s) \<leftarrow> for_while (copyuvm_pte pgtable new_pgtable i) [0..<NPTENTRIES] s;
          if \<not> ok then Some (False, s)
          else Some (True, s\<lparr>mem := store32 (mem s) (new_pd + 4 * word_of_nat i)
                  (V2P new_pgtable OR PTE_P OR PTE_W OR PTE_U)\<rparr>) })"

definition copyuvm :: "'a ksys_scheme \<Rightarrow> addr \<Rightarrow> u32 \<Rightarrow> (addr \<times> 'a ksys_scheme) option" where
  "copyuvm s pd n = do {
     (new_pd, s) \<leftarrow> setupkvm s;
     if new_pd = 0 then Some (0, s)
     else do {
       (ok, s) \<leftarrow> for_while (copyuvm_pde pd new_pd) [0..<512] s;
       if ok then Some (new_pd, s)
       else do { s \<leftarrow> freevm s new_pd; Some (0, s) } } }"

definition uva2ka :: "'a ksys_scheme \<Rightarrow> addr \<Rightarrow> addr \<Rightarrow> addr option" where
  "uva2ka s pd uva =
     (let pte = fst (walkpgdir s pd uva False) in
      if pte = 0 then ub
      else if load32 (mem s) pte AND PTE_P = 0 then Some 0
      else if load32 (mem s) pte AND PTE_U = 0 then Some 0
      else Some (P2V (PTE_ADDR (load32 (mem s) pte))))"

text \<open>The buffer that \<open>copyout\<close> copies is given by its bytes.\<close>

definition put_bytes :: "memory \<Rightarrow> addr \<Rightarrow> u8 list \<Rightarrow> memory" where
  "put_bytes m dst bs = copy_range m dst (\<lambda>i. bs ! unat i) (word_of_nat (length bs))"

partial_function (option) copyout ::
  "'a ksys_scheme \<Rightarrow> addr \<Rightarrow> addr \<Rightarrow> u8 list \<Rightarrow> (int \<times> 'a ksys_scheme) option" where
  "copyout s pd va buf =
     (if buf = [] then Some (0, s)
      else do {
        let va0 = PGROUNDDOWN va;
        pa0 \<leftarrow> uva2ka s pd va0;
        if pa0 = 0 then Some (-1, s)
        else do {
          let n = min (length buf) (unat (PGSIZE - (va - va0)));
          copyout (s\<lparr>mem := put_bytes (mem s) (pa0 + (va - va0)) (take n buf)\<rparr>) pd (va0 + PGSIZE) (drop n buf) } })"

section \<open>Page-table system calls\<close>

definition count_ptes :: "'a ksys_scheme \<Rightarrow> u32 \<Rightarrow> addr \<Rightarrow> nat" where
  "count_ptes s flags pgtable =
     length (filter (\<lambda>j. load32 (mem s) (pgtable + 4 * word_of_nat j) AND flags \<noteq> 0) [0..<NPTENTRIES])"

definition count_user_ptes :: "'a ksys_scheme \<Rightarrow> u32 \<Rightarrow> addr \<Rightarrow> nat" where
  "count_user_ptes s flags pd =
     sum_list (map (\<lambda>i. let pde = load32 (mem s) (pd + 4 * word_of_nat i) in
       if pde AND PTE_P = 0 then 0 else count_ptes s flags (P2V (PTE_ADDR pde))) [0..<NPDENTRIES div 2])"

definition sys_numvp :: "'a ksys_scheme \<Rightarrow> nat option" where
  "sys_numvp s = do { p \<leftarrow> myproc s; Some (count_user_ptes s (PTE_P OR PTE_LAZY) (p_pgdir p) + 1) }"

definition sys_numpp :: "'a ksys_scheme \<Rightarrow> nat option" where
  "sys_numpp s = do { p \<leftarrow> myproc s; Some (count_user_ptes s PTE_P (p_pgdir p) + 1) }"

definition sys_getptsize :: "'a ksys_scheme \<Rightarrow> nat option" where
  "sys_getptsize s = do {
     p \<leftarrow> myproc s;
     Some (length (filter (\<lambda>i. load32 (mem s) (p_pgdir p + 4 * word_of_nat i) AND PTE_P \<noteq> 0)
       [0..<NPDENTRIES]) + 1) }"

partial_function (option) mmap_loop ::
  "addr \<Rightarrow> addr \<Rightarrow> 'a ksys_scheme \<Rightarrow> addr \<Rightarrow> (int \<times> 'a ksys_scheme) option" where
  "mmap_loop pd ep s p =
     (if \<not> p < ep then Some (0, s)
      else case walkpgdir s pd p True of (pte, s) \<Rightarrow>
        if pte = 0 then ub
        else if load32 (mem s) pte AND PTE_P \<noteq> 0 then Some (-1, s)
        else mmap_loop pd ep (s\<lparr>mem := store32 (mem s) pte PTE_LAZY\<rparr>) (p + PGSIZE))"

definition sys_mmap :: "'a ksys_scheme \<Rightarrow> (int \<times> 'a ksys_scheme) option" where
  "sys_mmap s = do {
     (a0, s) \<leftarrow> argint s 0;
     case a0 of None \<Rightarrow> Some (-1, s) | Some start \<Rightarrow> do {
     (a1, s) \<leftarrow> argint s 1;
     case a1 of None \<Rightarrow> Some (-1, s) | Some n \<Rightarrow> do {
     p \<leftarrow> myproc s;
     if sint n < 0 then Some (-1, s)
     else if start AND 0xfff \<noteq> 0 then Some (-1, s)
     else if KERNBASE < start + PGROUNDUP n then Some (-1, s)
     else do {
       (r, s) \<leftarrow> mmap_loop (p_pgdir p) (start + PGROUNDUP n) s start;
       if r < 0 then Some (-1, s)
       else do { s \<leftarrow> switchuvm s (curproc s); Some (0, s) } } } } }"

partial_function (option) munmap_loop ::
  "addr \<Rightarrow> addr \<Rightarrow> 'a ksys_scheme \<Rightarrow> addr \<Rightarrow> (int \<times> 'a ksys_scheme) option" where
  "munmap_loop pd ep s a =
     (if \<not> a < ep then Some (0, s)
      else do {
        let pte = fst (walkpgdir s pd a False);
        if pte = 0 then Some (-1, s)
        else do {
          s \<leftarrow> (if load32 (mem s) pte AND PTE_P \<noteq> 0
               then kfree s (P2V (PTE_ADDR (load32 (mem s) pte))) else Some s);
          munmap_loop pd ep (s\<lparr>mem := store32 (mem s) pte 0\<rparr>) (a + PGSIZE) } })"

text \<open>\<open>sys_munmap\<close> reaches its closing brace without a \<open>return\<close> when it succeeds: the result is
  then whatever the register holds, \<open>None\<close> here.\<close>

definition sys_munmap :: "'a ksys_scheme \<Rightarrow> (int option \<times> 'a ksys_scheme) option" where
  "sys_munmap s = do {
     (a0, s) \<leftarrow> argint s 0;
     case a0 of None \<Rightarrow> Some (Some (-1), s) | Some start \<Rightarrow> do {
     (a1, s) \<leftarrow> argint s 1;
     case a1 of None \<Rightarrow> Some (Some (-1), s) | Some n \<Rightarrow>
     if sint n < 0 then Some (Some (-1), s)
     else if start AND 0xfff \<noteq> 0 then Some (Some (-1), s)
     else if KERNBASE < start + PGROUNDUP n then Some (Some (-1), s)
     else do {
       p \<leftarrow> myproc s;
       (r, s) \<leftarrow> munmap_loop (p_pgdir p) (start + PGROUNDUP n) s start;
       if r < 0 then Some (Some (-1), s)
       else do { s \<leftarrow> switchuvm s (curproc s); Some (None, s) } } } }"

text \<open>\<open>sys_va_to_pa\<close> does not look at the result of \<open>argint\<close>; when that fails the address it
  translates is an uninitialised variable.\<close>

definition sys_va_to_pa :: "'a ksys_scheme \<Rightarrow> (u32 \<times> 'a ksys_scheme) option" where
  "sys_va_to_pa s = do {
     (a0, s) \<leftarrow> argint s 0;
     case a0 of None \<Rightarrow> ub | Some va \<Rightarrow> do {
     p \<leftarrow> myproc s;
     let pte = fst (walkpgdir s (p_pgdir p) va False);
     if pte = 0 then Some (0, s)
     else Some (PTE_ADDR (load32 (mem s) pte) + (va AND 0xfff), s) } }"

end
