(* ===== verification/Vm_Pagetable.thy ===== *)
theory Vm_Pagetable
  imports Vm "HOL-Library.Sublist"
begin

text \<open>
  The mapping that a page directory describes, and the operations of \<open>vm.c\<close> that build it.
  \<open>pt_lookup\<close> is the 32-bit entry for a virtual address; \<open>vm_inv\<close> says that the directory and its
  tables are kernel pages of their own, off the free list. \<open>walkpgdir\<close> and \<open>mappages\<close> are
  characterised by what they do to the mapping, to the free list and to the rest of memory.
\<close>

section \<open>The mapping a page directory describes\<close>

lemma PTE_P_bit [simp]: "(w :: u32) AND PTE_P = 0 \<longleftrightarrow> even w"
  by (simp add: and_one_eq mod_2_eq_odd)

definition pd_present :: "memory \<Rightarrow> addr \<Rightarrow> u32 \<Rightarrow> bool" where
  "pd_present m pd i \<longleftrightarrow> odd (load32 m (pd + 4 * i))"

definition pd_table :: "memory \<Rightarrow> addr \<Rightarrow> u32 \<Rightarrow> addr" where
  "pd_table m pd i = P2V (PTE_ADDR (load32 m (pd + 4 * i)))"

definition pt_lookup :: "memory \<Rightarrow> addr \<Rightarrow> addr \<Rightarrow> u32" where
  "pt_lookup m pd va =
     (if pd_present m pd (PDX va) then load32 m (pd_table m pd (PDX va) + 4 * PTX va) else 0)"

definition pt_pages :: "memory \<Rightarrow> addr \<Rightarrow> addr set" where
  "pt_pages m pd = insert pd {pd_table m pd i | i. unat i < 1024 \<and> pd_present m pd i}"

definition wf_pgdir :: "memory \<Rightarrow> addr \<Rightarrow> addr \<Rightarrow> bool" where
  "wf_pgdir m e pd \<longleftrightarrow> kpage e pd
     \<and> (\<forall>i. unat i < 1024 \<and> pd_present m pd i \<longrightarrow> kpage e (pd_table m pd i) \<and> pd_table m pd i \<noteq> pd)
     \<and> (\<forall>i j. unat i < 1024 \<and> unat j < 1024 \<and> pd_present m pd i \<and> pd_present m pd j
          \<and> pd_table m pd i = pd_table m pd j \<longrightarrow> i = j)"

definition vm_inv :: "'a ksys_scheme \<Rightarrow> addr list \<Rightarrow> addr \<Rightarrow> bool" where
  "vm_inv s fl pd \<longleftrightarrow> kmem_inv s fl \<and> wf_pgdir (mem s) (kend s) pd \<and> pt_pages (mem s) pd \<inter> set fl = {}"

lemma pte_bits: "(a :: u32) OR PTE_P OR PTE_W OR PTE_U = a OR 7"
  by (simp add: or.assoc)

lemma pd_present_or7 [simp]: "odd ((a :: u32) OR 7)"
  by (simp add: even_or_iff)

lemma wf_pgdir_pd: "wf_pgdir m e pd \<Longrightarrow> page_aligned pd"
  by (auto simp: wf_pgdir_def)

lemma wf_pgdir_table:
  "wf_pgdir m e pd \<Longrightarrow> unat i < 1024 \<Longrightarrow> pd_present m pd i \<Longrightarrow>
   kpage e (pd_table m pd i) \<and> pd_table m pd i \<noteq> pd \<and> page_aligned (pd_table m pd i)"
  by (auto simp: wf_pgdir_def)

lemma pt_pages_pd [simp]: "pd \<in> pt_pages m pd"
  by (simp add: pt_pages_def)

lemma pt_pages_image:
  "pt_pages m pd = insert pd (pd_table m pd ` {i. unat i < 1024 \<and> pd_present m pd i})"
  by (auto simp: pt_pages_def)

lemma pt_pages_table: "unat i < 1024 \<Longrightarrow> pd_present m pd i \<Longrightarrow> pd_table m pd i \<in> pt_pages m pd"
  by (auto simp: pt_pages_def)

text \<open>A change of memory that spares the directory and its tables spares the mapping.\<close>

lemma load32_page_cong:
  assumes "aligned4 a" "\<And>x. PGROUNDDOWN x = PGROUNDDOWN a \<Longrightarrow> m' x = m x"
  shows "load32 m' a = load32 m a"
  using assms by (intro load32_cong) (simp add: aligned4_same_page)

lemma pd_entry_cong:
  assumes "wf_pgdir m e pd" "\<And>x. PGROUNDDOWN x = pd \<Longrightarrow> m' x = m x" "unat i < 1024"
  shows "load32 m' (pd + 4 * i) = load32 m (pd + 4 * i)"
  using assms wf_pgdir_pd [OF assms(1)] by (intro load32_page_cong) auto

lemma pt_frame:
  assumes wf: "wf_pgdir m e pd" and same: "\<And>x. PGROUNDDOWN x \<in> pt_pages m pd \<Longrightarrow> m' x = m x"
  shows "wf_pgdir m' e pd" "pt_pages m' pd = pt_pages m pd" "pt_lookup m' pd = pt_lookup m pd"
proof -
  have entry: "load32 m' (pd + 4 * i) = load32 m (pd + 4 * i)" if "unat i < 1024" for i
    using pd_entry_cong [OF wf, of m'] same that by simp
  then have present: "pd_present m' pd i = pd_present m pd i"
    and table: "pd_table m' pd i = pd_table m pd i" if "unat i < 1024" for i
    using that by (simp_all add: pd_present_def pd_table_def)
  show "wf_pgdir m' e pd"
    using wf unfolding wf_pgdir_def by (auto simp: present table)
  show "pt_pages m' pd = pt_pages m pd"
    unfolding pt_pages_def by (intro arg_cong [where f = "insert pd"] Collect_cong) (metis present table)
  show "pt_lookup m' pd = pt_lookup m pd"
  proof
    fix va
    have "load32 m' (pd_table m pd (PDX va) + 4 * PTX va) = load32 m (pd_table m pd (PDX va) + 4 * PTX va)"
      if "pd_present m pd (PDX va)"
      using that wf_pgdir_table [OF wf PDX_less that] pt_pages_table [OF PDX_less that] PTX_less same
      by (intro load32_page_cong) auto
    then show "pt_lookup m' pd va = pt_lookup m pd va"
      by (simp add: pt_lookup_def present table PDX_less)
  qed
qed

lemma vm_inv_frame:
  assumes "vm_inv s fl pd" "freelist s' = freelist s" "kend s' = kend s"
    and "\<And>x. PGROUNDDOWN x \<in> pt_pages (mem s) pd \<or> PGROUNDDOWN x \<in> set fl \<Longrightarrow> mem s' x = mem s x"
  shows "vm_inv s' fl pd" "pt_pages (mem s') pd = pt_pages (mem s) pd"
    "pt_lookup (mem s') pd = pt_lookup (mem s) pd"
proof -
  have wf: "wf_pgdir (mem s) (kend s) pd" and km: "kmem_inv s fl"
    using assms(1) by (simp_all add: vm_inv_def)
  note fr = pt_frame [OF wf, of "mem s'"]
  show "pt_pages (mem s') pd = pt_pages (mem s) pd" "pt_lookup (mem s') pd = pt_lookup (mem s) pd"
    using assms(4) by (blast intro!: fr)+
  moreover have "kmem_inv s' fl" using assms km by (blast intro: kmem_inv_frame)
  moreover have "wf_pgdir (mem s') (kend s') pd" using assms(3,4) fr(1) by metis
  ultimately show "vm_inv s' fl pd" using assms(1) by (simp add: vm_inv_def)
qed

section \<open>Writing an entry\<close>

lemma pt_store:
  fixes w :: u32
  assumes wf: "wf_pgdir m e pd" and pres: "pd_present m pd (PDX va)"
  defines "m' \<equiv> store32 m (pd_table m pd (PDX va) + 4 * PTX va) w"
  shows pt_store_present: "unat i < 1024 \<Longrightarrow> pd_present m' pd i = pd_present m pd i"
    and pt_store_table: "unat i < 1024 \<Longrightarrow> pd_table m' pd i = pd_table m pd i"
    and pt_store_wf: "wf_pgdir m' e pd"
    and pt_store_pages: "pt_pages m' pd = pt_pages m pd"
    and pt_store_lookup: "pt_lookup m' pd va' =
      (if PGROUNDDOWN va' = PGROUNDDOWN va then w else pt_lookup m pd va')"
proof -
  let ?slot = "pd_table m pd (PDX va) + 4 * PTX va"
  note tab = wf_pgdir_table [OF wf PDX_less pres]
  have al: "aligned4 ?slot" and pg: "PGROUNDDOWN ?slot = pd_table m pd (PDX va)"
    using tab PTX_less by simp_all
  have entry: "load32 m' (pd + 4 * i) = load32 m (pd + 4 * i)" if "unat i < 1024" for i
    unfolding m'_def using that tab wf_pgdir_pd [OF wf] al pg
    by (intro load32_store32_other_page) auto
  then show present: "pd_present m' pd i = pd_present m pd i" if "unat i < 1024" for i
    using that by (simp add: pd_present_def)
  from entry show table: "pd_table m' pd i = pd_table m pd i" if "unat i < 1024" for i
    using that by (simp add: pd_table_def)
  show "wf_pgdir m' e pd"
    using wf unfolding wf_pgdir_def by (auto simp: present table)
  show "pt_pages m' pd = pt_pages m pd"
    unfolding pt_pages_def by (intro arg_cong [where f = "insert pd"] Collect_cong) (metis present table)
  show "pt_lookup m' pd va' = (if PGROUNDDOWN va' = PGROUNDDOWN va then w else pt_lookup m pd va')"
  proof (cases "pd_present m pd (PDX va')")
    case True
    note tab' = wf_pgdir_table [OF wf PDX_less True]
    have "?slot = pd_table m pd (PDX va') + 4 * PTX va' \<longleftrightarrow> PGROUNDDOWN va' = PGROUNDDOWN va"
      using tab tab' wf pres True PDX_less unfolding wf_pgdir_def PGROUNDDOWN_eq_iff
      by (subst slot_inject) (auto simp: PTX_less)
    moreover have "aligned4 (pd_table m pd (PDX va') + 4 * PTX va')"
      using tab' PTX_less by simp
    moreover have "pt_lookup m' pd va' = load32 m' (pd_table m pd (PDX va') + 4 * PTX va')"
      using True by (simp add: pt_lookup_def present table PDX_less)
    ultimately show ?thesis
      using True al by (auto simp: pt_lookup_def [of m] m'_def)
  next
    case False
    then have "PGROUNDDOWN va' \<noteq> PGROUNDDOWN va"
      using pres by (auto simp: PGROUNDDOWN_eq_iff)
    with False show ?thesis by (simp add: pt_lookup_def present PDX_less)
  qed
qed

lemma vm_inv_store:
  fixes w :: u32
  assumes inv: "vm_inv s fl pd" and pres: "pd_present (mem s) pd (PDX va)"
  defines "s' \<equiv> s\<lparr>mem := store32 (mem s) (pd_table (mem s) pd (PDX va) + 4 * PTX va) w\<rparr>"
  shows "vm_inv s' fl pd" "pt_pages (mem s') pd = pt_pages (mem s) pd"
    "pt_lookup (mem s') pd = (\<lambda>va'. if PGROUNDDOWN va' = PGROUNDDOWN va then w else pt_lookup (mem s) pd va')"
    "PGROUNDDOWN x \<notin> pt_pages (mem s) pd \<Longrightarrow> mem s' x = mem s x"
proof -
  have wf: "wf_pgdir (mem s) (kend s) pd" and km: "kmem_inv s fl" and dj: "pt_pages (mem s) pd \<inter> set fl = {}"
    using inv by (simp_all add: vm_inv_def)
  note tab = wf_pgdir_table [OF wf PDX_less pres] pt_pages_table [OF PDX_less pres]
  show out: "mem s' x = mem s x" if "PGROUNDDOWN x \<notin> pt_pages (mem s) pd" for x
    unfolding s'_def using that tab PTX_less
    by (auto intro!: store32_other_page)
  show pages: "pt_pages (mem s') pd = pt_pages (mem s) pd"
    unfolding s'_def using pt_store_pages [OF wf pres] by simp
  have "kmem_inv s' fl"
    using km by (rule kmem_inv_frame) (use dj out in \<open>auto simp: s'_def\<close>)
  then show "vm_inv s' fl pd"
    using pt_store_wf [OF wf pres, of w] pages dj by (simp add: vm_inv_def s'_def)
  show "pt_lookup (mem s') pd = (\<lambda>va'. if PGROUNDDOWN va' = PGROUNDDOWN va then w else pt_lookup (mem s) pd va')"
    unfolding s'_def using pt_store_lookup [OF wf pres] by auto
qed

section \<open>Walking\<close>

definition pte_slot :: "memory \<Rightarrow> addr \<Rightarrow> addr \<Rightarrow> addr" where
  "pte_slot m pd va = pd_table m pd (PDX va) + 4 * PTX va"

lemma walkpgdir_noalloc:
  "walkpgdir s pd va False = (if pd_present (mem s) pd (PDX va) then (pte_slot (mem s) pd va, s) else (0, s))"
  by (simp add: walkpgdir_def pd_present_def pd_table_def pte_slot_def Let_def)

lemma walkpgdir_present:
  "pd_present (mem s) pd (PDX va) \<Longrightarrow> walkpgdir s pd va alloc = (pte_slot (mem s) pd va, s)"
  by (simp add: walkpgdir_def pd_present_def pd_table_def pte_slot_def Let_def)

lemma slot_nonzero:
  assumes "kpage e p" "unat i < 1024"
  shows "p + 4 * i \<noteq> 0"
proof
  assume "p + 4 * i = 0"
  then have "PGROUNDDOWN (p + 4 * i) = 0" by (simp add: PGROUNDDOWN_def)
  with assms kpage_nonzero [OF assms(1)] show False by (auto simp: kpage_def)
qed

lemma pte_slot_nonzero:
  "vm_inv s fl pd \<Longrightarrow> pd_present (mem s) pd (PDX va) \<Longrightarrow> pte_slot (mem s) pd va \<noteq> 0"
  unfolding pte_slot_def using wf_pgdir_table PDX_less PTX_less slot_nonzero
  by (metis vm_inv_def)

lemma pt_lookup_slot:
  "pd_present m pd (PDX va) \<Longrightarrow> load32 m (pte_slot m pd va) = pt_lookup m pd va"
  by (simp add: pt_lookup_def pte_slot_def)

text \<open>Installing a fresh zeroed table: the mapping itself does not change.\<close>

lemma new_table:
  assumes inv: "vm_inv s (v # fl) pd" and abs: "\<not> pd_present (mem s) pd (PDX va)"
  defines "m' \<equiv> store32 (fill (mem s) v 0 PGSIZE) (pd + 4 * PDX va) (V2P v OR 7)"
  shows "vm_inv (s\<lparr>freelist := load32 (mem s) v, mem := m'\<rparr>) fl pd"
    "pt_lookup m' pd = pt_lookup (mem s) pd" "pd_present m' pd (PDX va)" "pd_table m' pd (PDX va) = v"
    "pt_pages m' pd = insert v (pt_pages (mem s) pd)"
    "PGROUNDDOWN x \<notin> insert v (pt_pages (mem s) pd) \<Longrightarrow> m' x = mem s x"
proof -
  let ?m = "mem s"
  have wf: "wf_pgdir ?m (kend s) pd" and km: "kmem_inv s (v # fl)"
    and dj: "pt_pages ?m pd \<inter> set (v # fl) = {}" using inv by (simp_all add: vm_inv_def)
  have v: "kpage (kend s) v" "page_aligned v" "v \<notin> set fl" "v \<notin> pt_pages ?m pd"
    using km dj by (auto simp: kmem_inv_def)
  have pd: "page_aligned pd" "v \<noteq> pd" using wf_pgdir_pd [OF wf] v by auto
  have entry: "load32 m' (pd + 4 * i) = (if i = PDX va then V2P v OR 7 else load32 ?m (pd + 4 * i))"
    if "unat i < 1024" for i
    using that pd v PDX_less slot_inject [of pd pd "PDX va" i]
    by (auto simp: m'_def load32_fill_other)
  have addr: "PTE_ADDR (V2P v OR 7) = V2P v"
    using v by (intro PTE_ADDR_or) auto
  have pres: "pd_present m' pd i = (i = PDX va \<or> pd_present ?m pd i)"
    and tab: "pd_table m' pd i = (if i = PDX va then v else pd_table ?m pd i)" if "unat i < 1024" for i
    using that by (auto simp: pd_present_def pd_table_def entry addr)
  show "pd_present m' pd (PDX va)" "pd_table m' pd (PDX va) = v"
    using pres tab PDX_less by simp_all
  have fresh: "pd_table ?m pd i \<noteq> v" if "unat i < 1024" "pd_present ?m pd i" for i
    using pt_pages_table [OF that] v by auto
  show pages: "pt_pages m' pd = insert v (pt_pages ?m pd)"
  proof -
    have "{i. unat i < 1024 \<and> pd_present m' pd i} = insert (PDX va) {i. unat i < 1024 \<and> pd_present ?m pd i}"
      using pres PDX_less by auto
    moreover have "pd_table m' pd ` {i. unat i < 1024 \<and> pd_present ?m pd i}
        = pd_table ?m pd ` {i. unat i < 1024 \<and> pd_present ?m pd i}"
      by (rule image_cong) (use abs tab in auto)
    ultimately show ?thesis using tab PDX_less by (auto simp: pt_pages_image)
  qed
  have wf': "wf_pgdir m' (kend s) pd"
  proof (unfold wf_pgdir_def, intro conjI allI impI; (elim conjE)?)
    show "kpage (kend s) pd" using wf by (simp add: wf_pgdir_def)
  next
    fix i :: u32
    assume i: "unat i < 1024" "pd_present m' pd i"
    show "kpage (kend s) (pd_table m' pd i)" "pd_table m' pd i \<noteq> pd"
      using i v(1) pd(2) pres [OF i(1)] tab [OF i(1)] wf_pgdir_table [OF wf i(1)]
      by (auto split: if_splits)
  next
    fix i j :: u32
    assume ij: "unat i < 1024" "unat j < 1024" "pd_present m' pd i" "pd_present m' pd j"
      "pd_table m' pd i = pd_table m' pd j"
    have inj: "pd_present ?m pd i \<Longrightarrow> pd_present ?m pd j \<Longrightarrow> pd_table ?m pd i = pd_table ?m pd j \<Longrightarrow> i = j"
      using wf ij(1,2) unfolding wf_pgdir_def by blast
    note facts = ij(3-5) pres [OF ij(1)] pres [OF ij(2)] tab [OF ij(1)] tab [OF ij(2)]
      fresh [OF ij(1)] fresh [OF ij(2)]
    show "i = j"
    proof (cases "i = PDX va \<or> j = PDX va")
      case True
      with facts abs show ?thesis by (cases "i = PDX va"; cases "j = PDX va") auto
    next
      case False
      with facts have "pd_present ?m pd i" "pd_present ?m pd j" "pd_table ?m pd i = pd_table ?m pd j"
        by simp_all
      then show ?thesis by (rule inj)
    qed
  qed
  show out: "m' x = ?m x" if "PGROUNDDOWN x \<notin> insert v (pt_pages ?m pd)" for x
  proof -
    have "PGROUNDDOWN x \<noteq> pd" "PGROUNDDOWN x \<noteq> v" using that pt_pages_pd [of pd ?m] by auto
    then show ?thesis
      using pd v PDX_less by (simp add: m'_def store32_other_page fill_def in_page_iff)
  qed
  have "kmem_inv (s\<lparr>freelist := load32 ?m v\<rparr>) fl"
    by (rule kalloc_Cons(2) [OF km])
  then have "kmem_inv (s\<lparr>freelist := load32 ?m v, mem := m'\<rparr>) fl"
    by (rule kmem_inv_frame) (use v dj in \<open>auto intro!: out\<close>)
  then show "vm_inv (s\<lparr>freelist := load32 ?m v, mem := m'\<rparr>) fl pd"
    using wf' pages dj v by (auto simp: vm_inv_def)
  show "pt_lookup m' pd = pt_lookup ?m pd"
  proof
    fix va'
    show "pt_lookup m' pd va' = pt_lookup ?m pd va'"
    proof (cases "PDX va' = PDX va")
      case True
      have "load32 m' (v + 4 * PTX va') = 0"
        using v pd PDX_less PTX_less by (auto simp: m'_def load32_store32_other_page load32_fill_zero)
      with True abs show ?thesis by (simp add: pt_lookup_def pres tab PDX_less)
    next
      case False
      have "load32 m' (pd_table ?m pd (PDX va') + 4 * PTX va') = load32 ?m (pd_table ?m pd (PDX va') + 4 * PTX va')"
        if "pd_present ?m pd (PDX va')"
      proof -
        note tab' = wf_pgdir_table [OF wf PDX_less that] fresh [OF PDX_less that]
        have "load32 m' (pd_table ?m pd (PDX va') + 4 * PTX va')
            = load32 (fill ?m v 0 PGSIZE) (pd_table ?m pd (PDX va') + 4 * PTX va')"
          unfolding m'_def using tab' pd PDX_less PTX_less
          by (intro load32_store32_other_page) auto
        also have "\<dots> = load32 ?m (pd_table ?m pd (PDX va') + 4 * PTX va')"
          using tab' v PTX_less by (intro load32_fill_other) auto
        finally show ?thesis .
      qed
      with False show ?thesis by (simp add: pt_lookup_def pres tab PDX_less)
    qed
  qed
qed

lemma walkpgdir_alloc_absent:
  assumes "\<not> pd_present (mem s) pd (PDX va)" "kmem_inv s fl"
  shows "walkpgdir s pd va True = (case fl of [] \<Rightarrow> (0, s)
    | v # _ \<Rightarrow> (v + 4 * PTX va, s\<lparr>freelist := load32 (mem s) v,
        mem := store32 (fill (mem s) v 0 PGSIZE) (pd + 4 * PDX va) (V2P v OR 7)\<rparr>))"
proof (cases fl)
  case Nil
  with assms show ?thesis by (simp add: walkpgdir_def pd_present_def kalloc_Nil)
next
  case (Cons v vs)
  with assms(2) have "v \<noteq> 0" by (auto simp: kmem_inv_def)
  with assms Cons show ?thesis
    by (simp add: walkpgdir_def pd_present_def kalloc_Cons(1) memset_fill pte_bits)
qed

text \<open>
  What every step that extends a page table keeps: the invariant, with pages only leaving the
  free list to become page-table pages, memory outside the page-table pages, and every field
  other than the memory and the free-list head.
\<close>

definition pt_step :: "'a ksys_scheme \<Rightarrow> addr list \<Rightarrow> addr \<Rightarrow> 'a ksys_scheme \<Rightarrow> addr list \<Rightarrow> bool" where
  "pt_step s fl pd s' fl' \<longleftrightarrow> vm_inv s' fl' pd \<and> suffix fl' fl
     \<and> pt_pages (mem s') pd = pt_pages (mem s) pd \<union> (set fl - set fl')
     \<and> (\<forall>x. PGROUNDDOWN x \<notin> pt_pages (mem s') pd \<longrightarrow> mem s' x = mem s x) \<and> same_but_mem s s'"

lemma pt_stepD:
  assumes "pt_step s fl pd s' fl'"
  shows "vm_inv s' fl' pd" "suffix fl' fl" "set fl' \<subseteq> set fl"
    "pt_pages (mem s') pd = pt_pages (mem s) pd \<union> (set fl - set fl')"
    "PGROUNDDOWN x \<notin> pt_pages (mem s') pd \<Longrightarrow> mem s' x = mem s x" "same_but_mem s s'"
  using assms by (auto simp: pt_step_def dest: set_mono_suffix)

lemma pt_step_refl: "vm_inv s fl pd \<Longrightarrow> pt_step s fl pd s fl"
  by (simp add: pt_step_def)

lemma pt_step_trans:
  assumes "pt_step s fl pd s' fl'" "pt_step s' fl' pd s'' fl''"
  shows "pt_step s fl pd s'' fl''"
proof -
  note a = pt_stepD [OF assms(1)] and b = pt_stepD [OF assms(2)]
  have "mem s'' x = mem s x" if "PGROUNDDOWN x \<notin> pt_pages (mem s'') pd" for x
    using that a(4) b(4) a(5) [of x] b(5) [of x] by auto
  moreover have "pt_pages (mem s'') pd = pt_pages (mem s) pd \<union> (set fl - set fl'')"
    using a(3,4) b(3,4) by auto
  ultimately show ?thesis
    using a b suffix_order.trans [OF b(2) a(2)] same_but_mem_trans [OF a(6) b(6)]
    by (simp add: pt_step_def)
qed

lemma pt_step_store:
  assumes "vm_inv s fl pd" "pd_present (mem s) pd (PDX va)"
  shows "pt_step s fl pd (s\<lparr>mem := store32 (mem s) (pte_slot (mem s) pd va) w\<rparr>) fl"
  using vm_inv_store [OF assms, where w = w] same_but_mem_mem
  by (auto simp: pt_step_def pte_slot_def)

lemma pt_step_new_table:
  assumes inv: "vm_inv s (v # fl) pd" and abs: "\<not> pd_present (mem s) pd (PDX va)"
  shows "pt_step s (v # fl) pd (s\<lparr>freelist := load32 (mem s) v,
     mem := store32 (fill (mem s) v 0 PGSIZE) (pd + 4 * PDX va) (V2P v OR 7)\<rparr>) fl"
proof -
  note nt = new_table [OF inv abs]
  have "v \<notin> set fl" using inv by (auto simp: vm_inv_def kmem_inv_def)
  moreover have "same_but_mem s (s\<lparr>freelist := f, mem := m\<rparr>)" for f m
    unfolding same_but_mem_def by blast
  ultimately show ?thesis using nt by (auto simp: pt_step_def suffix_ConsI)
qed

text \<open>What \<open>walkpgdir\<close> with \<open>alloc\<close> does: it fails only when a table is missing and no page is
  free; otherwise the slot exists and the mapping is the old one.\<close>

lemma walkpgdir_alloc:
  assumes inv: "vm_inv s fl pd"
  obtains (fail) "walkpgdir s pd va True = (0, s)" "fl = []" "\<not> pd_present (mem s) pd (PDX va)"
  | (slot) s' fl' where "walkpgdir s pd va True = (pte_slot (mem s') pd va, s')"
      "pte_slot (mem s') pd va \<noteq> 0" "pt_step s fl pd s' fl'" "pd_present (mem s') pd (PDX va)"
      "pt_lookup (mem s') pd = pt_lookup (mem s) pd" "length fl \<le> length fl' + 1"
proof (cases "pd_present (mem s) pd (PDX va)")
  case True
  show ?thesis
    by (rule slot [of s fl])
      (use True inv in \<open>auto simp: walkpgdir_present pte_slot_nonzero intro: pt_step_refl\<close>)
next
  case False
  have km: "kmem_inv s fl" using inv by (simp add: vm_inv_def)
  show ?thesis
  proof (cases fl)
    case Nil
    with fail False km show ?thesis by (simp add: walkpgdir_alloc_absent)
  next
    case (Cons v vs)
    let ?s = "s\<lparr>freelist := load32 (mem s) v,
      mem := store32 (fill (mem s) v 0 PGSIZE) (pd + 4 * PDX va) (V2P v OR 7)\<rparr>"
    from inv Cons have inv': "vm_inv s (v # vs) pd" by simp
    note nt = new_table [OF inv' False]
    have w: "walkpgdir s pd va True = (pte_slot (mem ?s) pd va, ?s)"
      using walkpgdir_alloc_absent [OF False km] Cons nt(4) by (simp add: pte_slot_def)
    have "pte_slot (mem ?s) pd va \<noteq> 0"
      using pte_slot_nonzero [OF nt(1)] nt(3) by simp
    then show ?thesis
      using slot [of ?s vs] w nt(2,3) pt_step_new_table [OF inv' False] Cons by simp
  qed
qed

lemma page_last: "page_aligned a \<Longrightarrow> PGROUNDDOWN (a + PGSIZE - 1) = a"
proof -
  assume a: "page_aligned a"
  have "unat (a + 0xfff) = unat a + 4095"
    using page_aligned_room [OF a, of 4096] by (simp add: unat_word_ariths)
  moreover have "a + PGSIZE - 1 = a + 0xfff" by simp
  ultimately show ?thesis
    using a div4096_add by (simp add: word_unat_eq_iff unat_PGROUNDDOWN page_aligned_def)
qed

text \<open>Mapping one page, \<open>mappages\<close> with a size of one page at a page boundary.\<close>

definition map_entry :: "addr \<Rightarrow> u32 \<Rightarrow> (addr \<Rightarrow> u32) \<Rightarrow> addr \<Rightarrow> u32" where
  "map_entry a w f = (\<lambda>va. if PGROUNDDOWN va = PGROUNDDOWN a then w else f va)"

text \<open>Mapping a range of pages: either all of them, or a prefix when the pages run out.\<close>

definition map_range :: "addr \<Rightarrow> nat \<Rightarrow> u32 \<Rightarrow> u32 \<Rightarrow> (addr \<Rightarrow> u32) \<Rightarrow> addr \<Rightarrow> u32" where
  "map_range a n pa perm f = (\<lambda>va. if unat a \<le> unat (PGROUNDDOWN va) \<and> unat (PGROUNDDOWN va) < unat a + 4096 * n
     then pa + (PGROUNDDOWN va - a) OR perm OR PTE_P else f va)"

lemma map_range_0 [simp]: "map_range a 0 pa perm f = f"
  by (auto simp: map_range_def fun_eq_iff)

lemma page_cases:
  assumes "page_aligned a"
  shows "PGROUNDDOWN va = a \<or> unat (PGROUNDDOWN va) < unat a \<or> unat a + 4096 \<le> unat (PGROUNDDOWN va)"
proof -
  obtain q where q: "unat a = 4096 * q"
    using assms by (auto simp: page_aligned_def mod_eq_0_iff_dvd elim: dvdE)
  have p: "unat (PGROUNDDOWN va) = 4096 * (unat va div 4096)" by (simp add: unat_PGROUNDDOWN)
  consider "unat va div 4096 = q" | "unat va div 4096 < q" | "q + 1 \<le> unat va div 4096" by linarith
  then show ?thesis
    by cases (auto simp: word_unat_eq_iff p q)
qed

lemma map_range_Suc:
  assumes a: "page_aligned a" and room: "unat a + 4096 < 4294967296"
  shows "map_range (a + PGSIZE) n (pa + PGSIZE) perm (map_entry a (pa OR perm OR PTE_P) f)
    = map_range a (Suc n) pa perm f"
proof
  fix va
  have u: "unat (a + PGSIZE) = unat a + 4096" using room by (simp add: unat_word_ariths)
  have "pa + PGSIZE + (PGROUNDDOWN va - (a + PGSIZE)) = pa + (PGROUNDDOWN va - a)" by simp
  with page_cases [OF a, of va] show "map_range (a + PGSIZE) n (pa + PGSIZE) perm (map_entry a (pa OR perm OR PTE_P) f) va
      = map_range a (Suc n) pa perm f va"
    unfolding map_range_def map_entry_def u using a by auto
qed

lemma map_entry_range: "page_aligned a \<Longrightarrow> map_entry a (pa OR perm OR PTE_P) f = map_range a 1 pa perm f"
  unfolding map_entry_def map_range_def using page_cases [of a] by (intro ext) fastforce

lemma mappages_loop_step:
  assumes inv: "vm_inv s fl pd" and a: "page_aligned a" and free: "even (pt_lookup (mem s) pd a)"
  obtains (fail) "mappages_loop pd lastp perm s a pa = Some (-1, s)" "fl = []"
  | (mapped) s' fl' where "mappages_loop pd lastp perm s a pa =
        (if a = lastp then Some (0, s') else mappages_loop pd lastp perm s' (a + PGSIZE) (pa + PGSIZE))"
      "pt_step s fl pd s' fl'" "pt_lookup (mem s') pd = map_entry a (pa OR perm OR PTE_P) (pt_lookup (mem s) pd)"
  using inv
proof (cases rule: walkpgdir_alloc [where va = a])
  case fail
  then show ?thesis
    by (intro that(1)) (subst mappages_loop.simps, simp_all)
next
  case (slot s1 fl1)
  let ?s = "s1\<lparr>mem := store32 (mem s1) (pte_slot (mem s1) pd a) (pa OR perm OR PTE_P)\<rparr>"
  note inv1 = pt_stepD(1) [OF slot(3)]
  have "mappages_loop pd lastp perm s a pa =
      (if a = lastp then Some (0, ?s) else mappages_loop pd lastp perm ?s (a + PGSIZE) (pa + PGSIZE))"
    using slot free by (subst mappages_loop.simps) (simp add: pt_lookup_slot)
  moreover have "pt_step s fl pd ?s fl1"
    using slot(3) pt_step_store [OF inv1 slot(4)] by (rule pt_step_trans)
  moreover have "pt_lookup (mem ?s) pd = map_entry a (pa OR perm OR PTE_P) (pt_lookup (mem s) pd)"
    using vm_inv_store(3) [OF inv1 slot(4), where w = "pa OR perm OR PTE_P"] slot(5)
    by (auto simp: pte_slot_def map_entry_def)
  ultimately show ?thesis by (rule that(2))
qed

lemma mappages_loop_range:
  assumes "vm_inv s fl pd" "page_aligned a" "unat a + 4096 * n < 4294967296"
    and "\<And>p. page_aligned p \<Longrightarrow> unat a \<le> unat p \<Longrightarrow> unat p \<le> unat a + 4096 * n \<Longrightarrow> even (pt_lookup (mem s) pd p)"
  shows "\<exists>r s' fl' k. mappages_loop pd (a + PGSIZE * word_of_nat n) perm s a pa = Some (r, s')
    \<and> pt_step s fl pd s' fl' \<and> (r = 0 \<and> k = Suc n \<or> r = -1 \<and> k \<le> n \<and> fl' = [])
    \<and> pt_lookup (mem s') pd = map_range a k pa perm (pt_lookup (mem s) pd)"
  using assms
proof (induction n arbitrary: s fl a pa)
  case 0
  have "even (pt_lookup (mem s) pd a)" using 0 by simp
  from 0(1,2) this show ?case
  proof (cases rule: mappages_loop_step [where lastp = a and perm = perm and pa = pa])
    case fail
    with 0(1) show ?thesis
      by (intro exI [of _ "-1"] exI [of _ s] exI [of _ fl] exI [of _ "0 :: nat"]) (simp add: pt_step_refl)
  next
    case (mapped s' fl')
    with 0(2) show ?thesis
      by (intro exI [of _ 0] exI [of _ s'] exI [of _ fl'] exI [of _ "1 :: nat"]) (simp add: map_entry_range)
  qed
next
  case (Suc n)
  let ?last = "a + PGSIZE * word_of_nat (Suc n)"
  have ev: "even (pt_lookup (mem s) pd a)" using Suc.prems by simp
  have up: "unat (a + PGSIZE) = unat a + 4096" using Suc.prems(3) by (simp add: unat_word_ariths)
  have "unat ?last = unat a + 4096 * Suc n" using Suc.prems(3) by (rule unat_range_page) simp
  then have ne: "a \<noteq> ?last" by auto
  have last: "?last = (a + PGSIZE) + PGSIZE * word_of_nat n" by (simp add: algebra_simps)
  from Suc.prems(1,2) ev show ?case
  proof (cases rule: mappages_loop_step [where lastp = ?last and perm = perm and pa = pa])
    case fail
    with Suc.prems(1) show ?thesis
      by (intro exI [of _ "-1"] exI [of _ s] exI [of _ fl] exI [of _ "0 :: nat"]) (simp add: pt_step_refl)
  next
    case (mapped s1 fl1)
    have "\<exists>r s' fl' k. mappages_loop pd ?last perm s1 (a + PGSIZE) (pa + PGSIZE) = Some (r, s')
        \<and> pt_step s1 fl1 pd s' fl' \<and> (r = 0 \<and> k = Suc n \<or> r = -1 \<and> k \<le> n \<and> fl' = [])
        \<and> pt_lookup (mem s') pd = map_range (a + PGSIZE) k (pa + PGSIZE) perm (pt_lookup (mem s1) pd)"
      unfolding last
    proof (rule Suc.IH)
      show "vm_inv s1 fl1 pd" by (rule pt_stepD(1) [OF mapped(2)])
      show "page_aligned (a + PGSIZE)" using Suc.prems(2) up by (simp add: page_aligned_def)
      show "unat (a + PGSIZE) + 4096 * n < 4294967296" using up Suc.prems(3) by simp
      show "even (pt_lookup (mem s1) pd p)"
        if "page_aligned p" "unat (a + PGSIZE) \<le> unat p" "unat p \<le> unat (a + PGSIZE) + 4096 * n" for p
        using that up Suc.prems(2,4) by (auto simp: mapped(3) map_entry_def)
    qed
    then obtain r s' fl' k where run: "mappages_loop pd ?last perm s1 (a + PGSIZE) (pa + PGSIZE) = Some (r, s')"
      "pt_step s1 fl1 pd s' fl'" "r = 0 \<and> k = Suc n \<or> r = -1 \<and> k \<le> n \<and> fl' = []"
      "pt_lookup (mem s') pd = map_range (a + PGSIZE) k (pa + PGSIZE) perm (pt_lookup (mem s1) pd)" by blast
    have room: "unat a + 4096 < 4294967296" using Suc.prems(3) by simp
    have "pt_lookup (mem s') pd = map_range a (Suc k) pa perm (pt_lookup (mem s) pd)"
      unfolding run(4) mapped(3) by (rule map_range_Suc [OF Suc.prems(2) room])
    then show ?thesis
      using run(1,3) pt_step_trans [OF mapped(2) run(2)] mapped(1) ne
      by (intro exI [of _ r] exI [of _ s'] exI [of _ fl'] exI [of _ "Suc k"]) auto
  qed
qed

lemma mappages_page:
  assumes inv: "vm_inv s fl pd" and a: "page_aligned a" and free: "even (pt_lookup (mem s) pd a)"
  obtains (fail) "mappages s pd a PGSIZE pa perm = Some (-1, s)" "fl = []"
  | (mapped) s' fl' where "mappages s pd a PGSIZE pa perm = Some (0, s')" "pt_step s fl pd s' fl'"
      "pt_lookup (mem s') pd = map_entry a (pa OR perm OR PTE_P) (pt_lookup (mem s) pd)"
proof -
  have loop: "mappages s pd a PGSIZE pa perm = mappages_loop pd a perm s a pa"
    unfolding mappages_def page_last [OF a] using a by simp
  show ?thesis
    using inv a free
    by (cases rule: mappages_loop_step [where lastp = a and perm = perm and pa = pa])
      (simp_all add: loop that)
qed

lemma mappages_range:
  assumes inv: "vm_inv s fl pd" and va: "page_aligned va" and n: "0 < n" "unat va + 4096 * n \<le> 4294967296"
    and free: "\<And>p. page_aligned p \<Longrightarrow> unat va \<le> unat p \<Longrightarrow> unat p < unat va + 4096 * n \<Longrightarrow> even (pt_lookup (mem s) pd p)"
  obtains r s' fl' k where "mappages s pd va (word_of_nat (4096 * n)) pa perm = Some (r, s')"
    "pt_step s fl pd s' fl'" "r = 0 \<and> k = n \<or> r = -1 \<and> k < n \<and> fl' = []"
    "pt_lookup (mem s') pd = map_range va k pa perm (pt_lookup (mem s) pd)"
proof -
  obtain m where m: "n = Suc m" using n(1) by (cases n) auto
  let ?l = "va + PGSIZE * word_of_nat m"
  have "unat ?l = unat va + 4096 * m" using n(2) m by (intro unat_range_page [of _ m]) simp_all
  then have "page_aligned ?l" using va by (simp add: page_aligned_def mod_add_eq)
  moreover have "va + word_of_nat (4096 * n) - 1 = ?l + PGSIZE - 1" by (simp add: m algebra_simps)
  ultimately have l: "PGROUNDDOWN (va + word_of_nat (4096 * n) - 1) = ?l" by (simp only: page_last)
  have "unat va + 4096 * m < 4294967296" using n(2) m by simp
  from mappages_loop_range [OF inv va this, of perm pa] free obtain r s' fl' k where
    "mappages_loop pd ?l perm s va pa = Some (r, s')" "pt_step s fl pd s' fl'"
    "r = 0 \<and> k = Suc m \<or> r = -1 \<and> k \<le> m \<and> fl' = []"
    "pt_lookup (mem s') pd = map_range va k pa perm (pt_lookup (mem s) pd)" by (auto simp: m)
  moreover have "mappages s pd va (word_of_nat (4096 * n)) pa perm = mappages_loop pd ?l perm s va pa"
    unfolding mappages_def l using va by simp
  ultimately show ?thesis
    by (intro that [of r s' fl' k]) (auto simp only: m less_Suc_eq_le)
qed

end
