(* ===== verification/Vm_User.thy ===== *)
theory Vm_User
  imports Vm_Pagetable
begin

text \<open>
  User memory: \<open>deallocuvm\<close>, \<open>allocuvm\<close> and \<open>freevm\<close> of \<open>vm.c\<close>. \<open>uvm_inv\<close> adds to \<open>vm_inv\<close> that
  the frames of the present user entries are pages of their own. The lemmas account for every
  page: what leaves the free list becomes a page table or a frame, and comes back.
\<close>

section \<open>User memory\<close>

text \<open>
  The user frames of a directory: the page a present entry below \<open>KERNBASE\<close> points at. In a
  well-formed address space every such frame is a page of its own, neither free nor part of the
  page table.
\<close>

definition user_page :: "memory \<Rightarrow> addr \<Rightarrow> addr \<Rightarrow> bool" where
  "user_page m pd va \<longleftrightarrow> page_aligned va \<and> va < KERNBASE \<and> odd (pt_lookup m pd va)"

definition uframe :: "memory \<Rightarrow> addr \<Rightarrow> addr \<Rightarrow> addr" where
  "uframe m pd va = P2V (PTE_ADDR (pt_lookup m pd va))"

definition uvm_inv :: "'a ksys_scheme \<Rightarrow> addr list \<Rightarrow> addr \<Rightarrow> bool" where
  "uvm_inv s fl pd \<longleftrightarrow> vm_inv s fl pd \<and> KERNBASE < kend s
     \<and> (\<forall>va. user_page (mem s) pd va \<longrightarrow> kpage (kend s) (uframe (mem s) pd va)
          \<and> uframe (mem s) pd va \<notin> set fl \<and> uframe (mem s) pd va \<notin> pt_pages (mem s) pd)
     \<and> (\<forall>va va'. user_page (mem s) pd va \<and> user_page (mem s) pd va'
          \<and> uframe (mem s) pd va = uframe (mem s) pd va' \<longrightarrow> va = va')"

lemma kpage_frame_nonzero: "kpage e (P2V pa) \<Longrightarrow> KERNBASE < e \<Longrightarrow> pa \<noteq> 0"
  by (auto simp: kpage_def P2V_def)

lemma uvm_invD:
  assumes "uvm_inv s fl pd"
  shows "vm_inv s fl pd"
    "user_page (mem s) pd va \<Longrightarrow> kpage (kend s) (uframe (mem s) pd va)"
    "user_page (mem s) pd va \<Longrightarrow> PTE_ADDR (pt_lookup (mem s) pd va) \<noteq> 0"
    "user_page (mem s) pd va \<Longrightarrow> uframe (mem s) pd va \<notin> set fl"
    "user_page (mem s) pd va \<Longrightarrow> uframe (mem s) pd va \<notin> pt_pages (mem s) pd"
    "user_page (mem s) pd va \<Longrightarrow> user_page (mem s) pd va' \<Longrightarrow>
       uframe (mem s) pd va = uframe (mem s) pd va' \<Longrightarrow> va = va'"
    "KERNBASE < kend s"
  using assms kpage_frame_nonzero unfolding uvm_inv_def uframe_def by blast+

lemma user_page_cong:
  "pt_lookup m' pd = pt_lookup m pd \<Longrightarrow> user_page m' pd va = user_page m pd va \<and> uframe m' pd va = uframe m pd va"
  by (simp add: user_page_def uframe_def)

text \<open>Frames stay owned when free pages become page-table pages.\<close>

lemma uvm_inv_step:
  assumes "uvm_inv s fl pd" "vm_inv s' fl' pd" "pt_lookup (mem s') pd = pt_lookup (mem s) pd"
    "kend s' = kend s" "set fl' \<union> pt_pages (mem s') pd \<subseteq> set fl \<union> pt_pages (mem s) pd"
  shows "uvm_inv s' fl' pd"
  using assms user_page_cong [OF assms(3)] unfolding uvm_inv_def assms(3,4)
  by (simp, blast)

text \<open>A page taken from the allocator, and a zeroed one.\<close>

lemma vm_inv_take:
  assumes inv: "vm_inv s (v # fl) pd"
  defines "s' \<equiv> s\<lparr>freelist := load32 (mem s) v, mem := fill (mem s) v 0 PGSIZE\<rparr>"
  shows "vm_inv s' fl pd" "pt_pages (mem s') pd = pt_pages (mem s) pd"
    "pt_lookup (mem s') pd = pt_lookup (mem s) pd" "v \<notin> set fl" "v \<notin> pt_pages (mem s) pd"
    "kpage (kend s) v" "PGROUNDDOWN x = v \<Longrightarrow> mem s' x = 0" "PGROUNDDOWN x \<noteq> v \<Longrightarrow> mem s' x = mem s x"
    "same_but_mem s s'"
proof -
  have km: "kmem_inv s (v # fl)" and dj: "pt_pages (mem s) pd \<inter> set (v # fl) = {}"
    using inv by (simp_all add: vm_inv_def)
  then show v: "v \<notin> set fl" "v \<notin> pt_pages (mem s) pd" "kpage (kend s) v"
    by (auto simp: kmem_inv_def)
  then have al: "page_aligned v" by auto
  show zero: "mem s' x = 0" if "PGROUNDDOWN x = v" for x
    using that al by (simp add: s'_def fill_def in_page_iff)
  show out: "mem s' x = mem s x" if "PGROUNDDOWN x \<noteq> v" for x
    using that al by (simp add: s'_def fill_def in_page_iff)
  show "same_but_mem s s'" unfolding s'_def same_but_mem_def by blast
  let ?s = "s\<lparr>freelist := load32 (mem s) v\<rparr>"
  have "vm_inv ?s fl pd"
    using kalloc_Cons(2) [OF km] inv by (auto simp: vm_inv_def)
  moreover have "mem s' x = mem ?s x"
    if "PGROUNDDOWN x \<in> pt_pages (mem ?s) pd \<or> PGROUNDDOWN x \<in> set fl" for x
    using that v out [of x] by auto
  moreover have "freelist s' = freelist ?s" "kend s' = kend ?s" by (simp_all add: s'_def)
  ultimately show "vm_inv s' fl pd" "pt_pages (mem s') pd = pt_pages (mem s) pd"
    "pt_lookup (mem s') pd = pt_lookup (mem s) pd"
    using vm_inv_frame [of ?s fl pd s'] by simp_all
qed

text \<open>Giving a frame back: unmapped pages and page-table pages are untouched.\<close>

lemma vm_inv_give:
  assumes inv: "vm_inv s fl pd" and v: "kpage (kend s) v" "v \<notin> set fl" "v \<notin> pt_pages (mem s) pd"
  obtains s' where "kfree s v = Some s'" "vm_inv s' (v # fl) pd"
    "pt_pages (mem s') pd = pt_pages (mem s) pd" "pt_lookup (mem s') pd = pt_lookup (mem s) pd"
    "\<And>x. PGROUNDDOWN x \<noteq> v \<Longrightarrow> mem s' x = mem s x" "same_but_mem s s'"
proof -
  have km: "kmem_inv s fl" and wf: "wf_pgdir (mem s) (kend s) pd"
    and dj: "pt_pages (mem s) pd \<inter> set fl = {}"
    using inv by (simp_all add: vm_inv_def)
  from kfree_inv [OF km v(1,2)] obtain s'
    where s': "kfree s v = Some s'" "kmem_inv s' (v # fl)" "kend s' = kend s" by blast
  have out: "mem s' x = mem s x" if "PGROUNDDOWN x \<noteq> v" for x
    by (rule kfree_other_page [OF s'(1) that])
  have "mem s' x = mem s x" if "PGROUNDDOWN x \<in> pt_pages (mem s) pd" for x
    using that v(3) by (intro out) auto
  note fr = pt_frame [OF wf this, simplified]
  show ?thesis
    by (rule that [OF s'(1)])
      (use s' fr out v dj same_but_mem_kfree [OF s'(1)] in \<open>auto simp: vm_inv_def\<close>)
qed

section \<open>\<open>deallocuvm\<close>\<close>

text \<open>One present page of user memory: the frame goes to the head of the free list and the
  entry becomes 0.\<close>

lemma dealloc_page:
  assumes inv: "uvm_inv s fl pd" and up: "user_page (mem s) pd a"
  obtains s1 where "kfree s (uframe (mem s) pd a) = Some s1" 
    "uvm_inv (s1\<lparr>mem := store32 (mem s1) (pte_slot (mem s) pd a) 0\<rparr>) (uframe (mem s) pd a # fl) pd"
    "pt_pages (store32 (mem s1) (pte_slot (mem s) pd a) 0) pd = pt_pages (mem s) pd"
    "pt_lookup (store32 (mem s1) (pte_slot (mem s) pd a) 0) pd = map_entry a 0 (pt_lookup (mem s) pd)"
    "\<And>x. PGROUNDDOWN x \<noteq> uframe (mem s) pd a \<Longrightarrow> PGROUNDDOWN x \<notin> pt_pages (mem s) pd \<Longrightarrow>
       store32 (mem s1) (pte_slot (mem s) pd a) 0 x = mem s x"
    "same_but_mem s (s1\<lparr>mem := store32 (mem s1) (pte_slot (mem s) pd a) 0\<rparr>)"
proof -
  let ?f = "uframe (mem s) pd a"
  note own = uvm_invD(2-5) [OF inv up]
  from vm_inv_give [OF uvm_invD(1) [OF inv] own(1) own(3) own(4)]
  obtain s1 where s1: "kfree s ?f = Some s1" "vm_inv s1 (?f # fl) pd"
    "pt_pages (mem s1) pd = pt_pages (mem s) pd" "pt_lookup (mem s1) pd = pt_lookup (mem s) pd"
    "\<And>x. PGROUNDDOWN x \<noteq> ?f \<Longrightarrow> mem s1 x = mem s x" "same_but_mem s s1" by blast
  have wf: "wf_pgdir (mem s) (kend s) pd" using inv by (simp add: uvm_inv_def vm_inv_def)
  have pres: "pd_present (mem s) pd (PDX a)"
    using up by (auto simp: user_page_def pt_lookup_def split: if_splits)
  have "load32 (mem s1) (pd + 4 * PDX a) = load32 (mem s) (pd + 4 * PDX a)"
  proof (rule pd_entry_cong [OF wf _ PDX_less])
    fix x assume "PGROUNDDOWN x = pd"
    with own(4) have "PGROUNDDOWN x \<noteq> ?f" by auto
    then show "mem s1 x = mem s x" by (rule s1(5))
  qed
  then have pres1: "pd_present (mem s1) pd (PDX a)" and slot: "pte_slot (mem s1) pd a = pte_slot (mem s) pd a"
    using pres by (simp_all add: pd_present_def pte_slot_def pd_table_def)
  let ?s = "s1\<lparr>mem := store32 (mem s1) (pte_slot (mem s) pd a) 0\<rparr>"
  note st = vm_inv_store [OF s1(2) pres1, where w = 0, folded pte_slot_def, unfolded slot]
  have look: "pt_lookup (mem ?s) pd = map_entry a 0 (pt_lookup (mem s) pd)"
    using st(3) unfolding s1(4) map_entry_def by simp
  have al: "page_aligned a" using up by (simp add: user_page_def)
  have up': "user_page (mem ?s) pd va \<longleftrightarrow> user_page (mem s) pd va \<and> va \<noteq> a"
    and fr': "va \<noteq> a \<Longrightarrow> page_aligned va \<Longrightarrow> uframe (mem ?s) pd va = uframe (mem s) pd va" for va
    unfolding user_page_def uframe_def look using al by (auto simp: map_entry_def)
  have ke: "kend ?s = kend s" using same_but_mem_fields(1) [OF s1(6)] by simp
  have own': "kpage (kend s) (uframe (mem ?s) pd va)
      \<and> uframe (mem ?s) pd va \<notin> set (?f # fl) \<and> uframe (mem ?s) pd va \<notin> pt_pages (mem ?s) pd"
    if "user_page (mem ?s) pd va" for va
  proof -
    have va: "user_page (mem s) pd va" "va \<noteq> a" using that up' by auto
    then have f: "uframe (mem ?s) pd va = uframe (mem s) pd va"
      and l: "pt_lookup (mem ?s) pd va = pt_lookup (mem s) pd va"
      using fr' al unfolding look by (auto simp: user_page_def map_entry_def)
    show ?thesis
      unfolding f l using uvm_invD(2-5) [OF inv va(1)] uvm_invD(6) [OF inv va(1) up] va(2) st(2) s1(3)
      by auto
  qed
  have inj': "va = va'"
    if "user_page (mem ?s) pd va" "user_page (mem ?s) pd va'" "uframe (mem ?s) pd va = uframe (mem ?s) pd va'"
    for va va'
    using that uvm_invD(6) [OF inv] up' fr' by (metis user_page_def)
  have "uvm_inv ?s (?f # fl) pd"
    unfolding uvm_inv_def ke using st(1) own' inj' uvm_invD(7) [OF inv] by blast
  moreover have "mem ?s x = mem s x" if "PGROUNDDOWN x \<noteq> ?f" "PGROUNDDOWN x \<notin> pt_pages (mem s) pd" for x
    using that st(4) s1(3,5) by simp
  moreover have "same_but_mem s ?s"
    using s1(6) same_but_mem_mem by (rule same_but_mem_trans)
  ultimately show ?thesis
    using s1(1,3) st(2) look by (intro that [OF s1(1)]) simp_all
qed

definition unmap_range :: "addr \<Rightarrow> addr \<Rightarrow> (addr \<Rightarrow> u32) \<Rightarrow> addr \<Rightarrow> u32" where
  "unmap_range lo hi f =
     (\<lambda>va. if lo \<le> PGROUNDDOWN va \<and> PGROUNDDOWN va < hi \<and> odd (f va) then 0 else f va)"

definition range_frames :: "memory \<Rightarrow> addr \<Rightarrow> addr \<Rightarrow> addr \<Rightarrow> addr set" where
  "range_frames m pd lo hi = uframe m pd ` {va. user_page m pd va \<and> lo \<le> va \<and> va < hi}"

definition released :: "'a ksys_scheme \<Rightarrow> addr list \<Rightarrow> addr \<Rightarrow> addr \<Rightarrow> addr \<Rightarrow> 'a ksys_scheme \<Rightarrow> addr list \<Rightarrow> bool" where
  "released s fl pd lo hi s' fl' \<longleftrightarrow> uvm_inv s' fl' pd \<and> pt_pages (mem s') pd = pt_pages (mem s) pd
     \<and> pt_lookup (mem s') pd = unmap_range lo hi (pt_lookup (mem s) pd)
     \<and> set fl' = set fl \<union> range_frames (mem s) pd lo hi
     \<and> (\<forall>x. PGROUNDDOWN x \<notin> pt_pages (mem s) pd \<union> range_frames (mem s) pd lo hi \<longrightarrow> mem s' x = mem s x)
     \<and> same_but_mem s s'"

lemma pt_lookup_page: "pt_lookup m pd (PGROUNDDOWN va) = pt_lookup m pd va"
  using PGROUNDDOWN_eq_iff [of "PGROUNDDOWN va" va] by (simp add: pt_lookup_def)

lemma released_skip:
  assumes "released s fl pd lo' hi s' fl'" "lo \<le> lo'"
    and even: "\<And>p. page_aligned p \<Longrightarrow> lo \<le> p \<Longrightarrow> p < lo' \<Longrightarrow> even (pt_lookup (mem s) pd p)"
  shows "released s fl pd lo hi s' fl'"
proof -
  have "range_frames (mem s) pd lo hi = range_frames (mem s) pd lo' hi"
    unfolding range_frames_def using assms(2) even
    by (intro arg_cong [where f = "image _"] Collect_cong) (metis user_page_def not_le order.trans)
  moreover have "unmap_range lo hi (pt_lookup (mem s) pd) = unmap_range lo' hi (pt_lookup (mem s) pd)"
  proof
    fix va
    show "unmap_range lo hi (pt_lookup (mem s) pd) va = unmap_range lo' hi (pt_lookup (mem s) pd) va"
      using even [of "PGROUNDDOWN va"] assms(2) unfolding unmap_range_def pt_lookup_page
      by (metis not_le order.trans page_aligned_PGROUNDDOWN)
  qed
  ultimately show ?thesis using assms(1) by (simp add: released_def)
qed

lemma page_next:
  assumes "page_aligned a" "a < hi" "hi \<le> KERNBASE"
  shows "unat (a + PGSIZE) = unat a + 4096" "page_aligned (a + PGSIZE)" "a < a + PGSIZE"
    "page_aligned p \<Longrightarrow> a \<le> p \<Longrightarrow> p < a + PGSIZE \<Longrightarrow> p = a" "page_aligned p \<Longrightarrow> a \<le> p \<longleftrightarrow> p = a \<or> a + PGSIZE \<le> p"
proof -
  have "unat a < 2147483648" using assms(2,3) by (simp add: word_less_nat_alt word_le_nat_alt)
  then show n: "unat (a + PGSIZE) = unat a + 4096" by (simp add: unat_word_ariths)
  then show "page_aligned (a + PGSIZE)" "a < a + PGSIZE"
    using assms(1) by (simp_all add: page_aligned_def word_less_nat_alt)
  obtain q where q: "unat a = 4096 * q"
    using assms(1) by (auto simp: page_aligned_def mod_eq_0_iff_dvd elim: dvdE)
  show one: "p = a" if p: "page_aligned p" "a \<le> p" "p < a + PGSIZE" for p
  proof -
    obtain r where r: "unat p = 4096 * r"
      using p(1) by (auto simp: page_aligned_def mod_eq_0_iff_dvd elim: dvdE)
    have "4096 * q \<le> 4096 * r" "4096 * r < 4096 * q + 4096"
      using that(2,3) unfolding word_le_nat_alt word_less_nat_alt n q r by auto
    then have "r = q" by linarith
    with q r show ?thesis by (simp add: word_unat_eq_iff)
  qed
  show "a \<le> p \<longleftrightarrow> p = a \<or> a + PGSIZE \<le> p" if "page_aligned p" for p
    using one [OF that] \<open>a < a + PGSIZE\<close> by (meson le_less_trans less_imp_le not_le order_refl)
qed

lemma next_table:
  assumes "a < hi" "hi \<le> KERNBASE"
  shows "page_aligned (PGADDR (PDX a + 1) 0 0)" "a < PGADDR (PDX a + 1) 0 0"
    "a \<le> p \<Longrightarrow> p < PGADDR (PDX a + 1) 0 0 \<Longrightarrow> PDX p = PDX a"
proof -
  have lt: "unat a < 2147483648" using assms by (simp add: word_less_nat_alt word_le_nat_alt)
  then have "unat (PDX a) < 512" by (simp add: unat_PDX)
  then have nx: "unat (PDX a + 1) = unat a div 4194304 + 1"
    by (simp add: unat_word_ariths unat_PDX)
  have ad: "unat (PGADDR (PDX a + 1) 0 0) = (unat a div 4194304 + 1) * 4194304"
  proof -
    have "PGADDR (PDX a + 1) 0 0 = (PDX a + 1) * 4194304"
      unfolding PGADDR_def push_bit_eq_mult by simp
    then have "unat (PGADDR (PDX a + 1) 0 0) = unat (PDX a + 1) * 4194304 mod 4294967296"
      by (simp only: unat_word_ariths(2)) simp
    moreover have "(unat a div 4194304 + 1) * 4194304 < 4294967296"
      using \<open>unat (PDX a) < 512\<close> by (simp add: unat_PDX)
    ultimately show ?thesis unfolding nx by simp
  qed
  show "page_aligned (PGADDR (PDX a + 1) 0 0)"
    unfolding page_aligned_def ad by (simp add: mod_eq_0_iff_dvd)
  show "a < PGADDR (PDX a + 1) 0 0"
    unfolding word_less_nat_alt ad using dividend_less_div_times [of 4194304 "unat a"] by simp
  show "PDX p = PDX a" if "a \<le> p" "p < PGADDR (PDX a + 1) 0 0"
  proof -
    have "unat p div 4194304 = unat a div 4194304"
      using that div_times_less_eq_dividend [of "unat a" 4194304]
      unfolding word_less_nat_alt word_le_nat_alt ad by (intro div_nat_eqI) (simp_all add: algebra_simps)
    then show ?thesis by (simp add: word_unat_eq_iff unat_PDX)
  qed
qed

text \<open>The process whose shared page the loop must not meet.\<close>

definition no_shm_in :: "'a ksys_scheme \<Rightarrow> addr \<Rightarrow> addr \<Rightarrow> bool" where
  "no_shm_in s lo hi \<longleftrightarrow> (\<exists>p. myproc s = Some p \<and> \<not> (p_shm_idx p \<noteq> -1 \<and> lo \<le> p_shm_va p \<and> p_shm_va p < hi))"

lemma no_shm_in_mono: "no_shm_in s lo hi \<Longrightarrow> lo \<le> lo' \<Longrightarrow> myproc s' = myproc s \<Longrightarrow> no_shm_in s' lo' hi"
  unfolding no_shm_in_def by (metis order.trans)

lemma released_page:
  assumes inv: "uvm_inv s fl pd" and up: "user_page (mem s) pd a"
    and a: "a < hi" "hi \<le> KERNBASE"
    and s1: "pt_pages (mem s1) pd = pt_pages (mem s) pd"
      "pt_lookup (mem s1) pd = map_entry a 0 (pt_lookup (mem s) pd)"
      "\<And>x. PGROUNDDOWN x \<noteq> uframe (mem s) pd a \<Longrightarrow> PGROUNDDOWN x \<notin> pt_pages (mem s) pd \<Longrightarrow> mem s1 x = mem s x"
      "same_but_mem s s1"
    and rel: "released s1 (uframe (mem s) pd a # fl) pd (a + PGSIZE) hi s' fl'"
  shows "released s fl pd a hi s' fl'"
proof -
  have al: "page_aligned a" using up by (simp add: user_page_def)
  note nx = page_next [OF al a]
  have frames: "range_frames (mem s) pd a hi = insert (uframe (mem s) pd a) (range_frames (mem s1) pd (a + PGSIZE) hi)"
  proof -
    have "uframe (mem s1) pd va = uframe (mem s) pd va" "user_page (mem s1) pd va = user_page (mem s) pd va"
      if "page_aligned va" "a + PGSIZE \<le> va" for va
      using that al nx(3) by (auto simp: uframe_def user_page_def s1(2) map_entry_def)
    then have "range_frames (mem s1) pd (a + PGSIZE) hi = range_frames (mem s) pd (a + PGSIZE) hi"
      unfolding range_frames_def by (intro image_cong Collect_cong) (auto simp: user_page_def)
    moreover have "{va. user_page (mem s) pd va \<and> a \<le> va \<and> va < hi}
        = insert a {va. user_page (mem s) pd va \<and> a + PGSIZE \<le> va \<and> va < hi}"
      using nx(5) up a(1) by (auto simp: user_page_def)
    ultimately show ?thesis by (simp add: range_frames_def)
  qed
  have lookup: "unmap_range (a + PGSIZE) hi (pt_lookup (mem s1) pd) = unmap_range a hi (pt_lookup (mem s) pd)"
  proof
    fix va
    have "odd (pt_lookup (mem s) pd va)" if "PGROUNDDOWN va = a"
      using that up pt_lookup_page [of "mem s" pd va] by (simp add: user_page_def)
    then show "unmap_range (a + PGSIZE) hi (pt_lookup (mem s1) pd) va = unmap_range a hi (pt_lookup (mem s) pd) va"
      using nx(3,5) a(1) al by (auto simp: unmap_range_def s1(2) map_entry_def)
  qed
  from rel have r: "uvm_inv s' fl' pd" "pt_pages (mem s') pd = pt_pages (mem s) pd"
    "set fl' = insert (uframe (mem s) pd a) (set fl) \<union> range_frames (mem s1) pd (a + PGSIZE) hi"
    "\<And>x. PGROUNDDOWN x \<notin> pt_pages (mem s) pd \<union> range_frames (mem s1) pd (a + PGSIZE) hi \<Longrightarrow> mem s' x = mem s1 x"
    "pt_lookup (mem s') pd = unmap_range a hi (pt_lookup (mem s) pd)"
    by (auto simp: released_def s1(1) lookup)
  have "mem s' x = mem s x" if "PGROUNDDOWN x \<notin> pt_pages (mem s) pd \<union> range_frames (mem s) pd a hi" for x
    using that r(4) [of x] s1(3) [of x] by (auto simp: frames)
  moreover have "same_but_mem s s'"
    using s1(4) rel by (auto simp: released_def intro: same_but_mem_trans)
  ultimately show ?thesis
    using r(1-3,5) frames by (auto simp: released_def)
qed

lemma deallocuvm_loop_released:
  assumes "uvm_inv s fl pd" "page_aligned a" "hi \<le> KERNBASE" "no_shm_in s a hi"
  shows "\<exists>s' fl'. deallocuvm_loop pd hi s a = Some s' \<and> released s fl pd a hi s' fl'"
  using assms
proof (induction "unat hi - unat a" arbitrary: s fl a rule: less_induct)
  case less
  have vm: "vm_inv s fl pd" using less.prems(1) by (rule uvm_invD)
  obtain p where p: "myproc s = Some p" "\<not> (p_shm_idx p \<noteq> -1 \<and> a \<le> p_shm_va p \<and> p_shm_va p < hi)"
    using less.prems(4) by (auto simp: no_shm_in_def)
  show ?case
  proof (cases "a < hi")
    case False
    then have "range_frames (mem s) pd a hi = {}" "unmap_range a hi (pt_lookup (mem s) pd) = pt_lookup (mem s) pd"
      by (fastforce simp: range_frames_def, intro ext, auto simp: unmap_range_def dest: le_less_trans)
    with False less.prems(1) show ?thesis
      by (subst deallocuvm_loop.simps) (auto simp: released_def)
  next
    case True
    with p have notshm: "\<not> (p_shm_idx p \<noteq> -1 \<and> a = p_shm_va p)" by auto
    note nx = page_next [OF less.prems(2) True less.prems(3)]
    note nt = next_table [OF True less.prems(3)]
    have smaller: "unat hi - unat b < unat hi - unat a" if "a < b" for b
      using that True by (simp add: word_less_nat_alt)
    note step = deallocuvm_loop.simps [of pd hi s a]
    show ?thesis
    proof (cases "pd_present (mem s) pd (PDX a)")
      case False
      let ?b = "PGADDR (PDX a + 1) 0 0"
      obtain s' fl' where "deallocuvm_loop pd hi s ?b = Some s'" and rel: "released s fl pd ?b hi s' fl'"
        using less.hyps [OF smaller [OF nt(2)] less.prems(1) nt(1) less.prems(3)]
          no_shm_in_mono [OF less.prems(4), of ?b s] nt(2) by auto
      moreover have "released s fl pd a hi s' fl'"
      proof (rule released_skip [OF rel less_imp_le [OF nt(2)]])
        fix q assume "a \<le> q" "q < ?b"
        then have "PDX q = PDX a" by (rule nt(3))
        with False show "even (pt_lookup (mem s) pd q)" by (simp add: pt_lookup_def)
      qed
      ultimately show ?thesis
        using True False p notshm by (subst step) (auto simp: walkpgdir_noalloc)
    next
      case pres: True
      then have pte: "fst (walkpgdir s pd a False) = pte_slot (mem s) pd a" "pte_slot (mem s) pd a \<noteq> 0"
        using pte_slot_nonzero [OF vm pres] by (simp_all add: walkpgdir_noalloc)
      have look: "load32 (mem s) (pte_slot (mem s) pd a) = pt_lookup (mem s) pd a"
        using pres by (rule pt_lookup_slot)
      show ?thesis
      proof (cases "odd (pt_lookup (mem s) pd a)")
        case False
        obtain s' fl' where "deallocuvm_loop pd hi s (a + PGSIZE) = Some s'"
          and rel: "released s fl pd (a + PGSIZE) hi s' fl'"
          using less.hyps [OF smaller [OF nx(3)] less.prems(1) nx(2) less.prems(3)]
            no_shm_in_mono [OF less.prems(4), of "a + PGSIZE" s] nx(3) by auto
        moreover have "released s fl pd a hi s' fl'"
          by (rule released_skip [OF rel less_imp_le [OF nx(3)]]) (use nx(4) False in metis)
        ultimately show ?thesis
          using True False p notshm pte look by (subst step) auto
      next
        case odd: True
        then have up: "user_page (mem s) pd a"
          using less.prems(2,3) True by (auto simp: user_page_def)
        from dealloc_page [OF less.prems(1) up] obtain s1 where
          s1: "kfree s (uframe (mem s) pd a) = Some s1"
          and d: "uvm_inv (s1\<lparr>mem := store32 (mem s1) (pte_slot (mem s) pd a) 0\<rparr>) (uframe (mem s) pd a # fl) pd"
            "pt_pages (mem (s1\<lparr>mem := store32 (mem s1) (pte_slot (mem s) pd a) 0\<rparr>)) pd = pt_pages (mem s) pd"
            "pt_lookup (mem (s1\<lparr>mem := store32 (mem s1) (pte_slot (mem s) pd a) 0\<rparr>)) pd
               = map_entry a 0 (pt_lookup (mem s) pd)"
            "\<And>x. PGROUNDDOWN x \<noteq> uframe (mem s) pd a \<Longrightarrow> PGROUNDDOWN x \<notin> pt_pages (mem s) pd \<Longrightarrow>
               mem (s1\<lparr>mem := store32 (mem s1) (pte_slot (mem s) pd a) 0\<rparr>) x = mem s x"
            "same_but_mem s (s1\<lparr>mem := store32 (mem s1) (pte_slot (mem s) pd a) 0\<rparr>)"
          by (auto simp: )
        let ?s = "s1\<lparr>mem := store32 (mem s1) (pte_slot (mem s) pd a) 0\<rparr>"
        obtain s' fl' where run: "deallocuvm_loop pd hi ?s (a + PGSIZE) = Some s'"
          and rel: "released ?s (uframe (mem s) pd a # fl) pd (a + PGSIZE) hi s' fl'"
          using less.hyps [OF smaller [OF nx(3)] d(1) nx(2) less.prems(3)]
            no_shm_in_mono [OF less.prems(4), of "a + PGSIZE" ?s] nx(3) same_but_mem_fields(2) [OF d(5)]
          by (metis less_imp_le)
        have "released s fl pd a hi s' fl'"
          by (rule released_page [OF less.prems(1) up True less.prems(3) d(2-5) rel])
        moreover have "PTE_ADDR (pt_lookup (mem s) pd a) \<noteq> 0"
          by (rule uvm_invD(3) [OF less.prems(1) up])
        ultimately show ?thesis
          using True odd p notshm pte look s1 run by (subst step) (auto simp: uframe_def)
      qed
    qed
  qed
qed

lemma deallocuvm_released:
  assumes "uvm_inv s fl pd" "newsz < oldsz" "oldsz \<le> KERNBASE" "no_shm_in s (PGROUNDUP newsz) oldsz"
  obtains s' fl' where "deallocuvm s pd oldsz newsz = Some (newsz, s')"
    "released s fl pd (PGROUNDUP newsz) oldsz s' fl'"
proof -
  obtain s' fl' where "deallocuvm_loop pd oldsz s (PGROUNDUP newsz) = Some s'"
    and rel: "released s fl pd (PGROUNDUP newsz) oldsz s' fl'"
    using deallocuvm_loop_released [OF assms(1) page_aligned_PGROUNDUP assms(3,4)] by blast
  moreover have "\<not> oldsz \<le> newsz" using assms(2) by simp
  ultimately have "deallocuvm s pd oldsz newsz = Some (newsz, s')"
    by (simp add: deallocuvm_def)
  then show ?thesis using rel by (rule that)
qed

section \<open>\<open>allocuvm\<close>\<close>

lemma uvm_inv_take:
  assumes inv: "uvm_inv s (v # fl) pd"
  shows "uvm_inv (s\<lparr>freelist := load32 (mem s) v, mem := fill (mem s) v 0 PGSIZE\<rparr>) fl pd"
  using uvm_inv_step [OF inv vm_inv_take(1) [OF uvm_invD(1) [OF inv]]]
    vm_inv_take(2,3) [OF uvm_invD(1) [OF inv]] by auto

lemma uvm_inv_map:
  assumes inv: "uvm_inv s fl pd" and inv': "vm_inv s' fl' pd" and a: "page_aligned a" "a < KERNBASE"
    and look: "pt_lookup (mem s') pd = map_entry a w (pt_lookup (mem s) pd)"
    and v: "kpage (kend s) v" "v \<notin> set fl \<union> pt_pages (mem s) pd" "P2V (PTE_ADDR w) = v" "odd w"
      "\<And>va. user_page (mem s) pd va \<Longrightarrow> uframe (mem s) pd va \<noteq> v"
    and sub: "set fl' \<union> pt_pages (mem s') pd \<subseteq> set fl \<union> pt_pages (mem s) pd" and ke: "kend s' = kend s"
  shows "uvm_inv s' fl' pd" "user_page (mem s') pd a" "uframe (mem s') pd a = v"
proof -
  show upa: "user_page (mem s') pd a" and fra: "uframe (mem s') pd a = v"
    using a v(3,4) by (simp_all add: user_page_def uframe_def look map_entry_def)
  have other: "user_page (mem s) pd va \<and> uframe (mem s') pd va = uframe (mem s) pd va"
    if "user_page (mem s') pd va" "va \<noteq> a" for va
    using that a by (auto simp: user_page_def uframe_def look map_entry_def)
  have "kpage (kend s) (uframe (mem s') pd va) \<and> uframe (mem s') pd va \<notin> set fl'
      \<and> uframe (mem s') pd va \<notin> pt_pages (mem s') pd" if "user_page (mem s') pd va" for va
    using other [OF that] uvm_invD(2,4,5) [OF inv, of va] sub v(1,2) fra by (cases "va = a") auto
  moreover have "va = va'" if "user_page (mem s') pd va" "user_page (mem s') pd va'"
    "uframe (mem s') pd va = uframe (mem s') pd va'" for va va'
    using that other fra v(5) uvm_invD(6) [OF inv] by metis
  ultimately show "uvm_inv s' fl' pd"
    unfolding uvm_inv_def ke using inv' uvm_invD(7) [OF inv] by blast
qed

text \<open>One round of the loop of \<open>allocuvm\<close>: the page \<open>v\<close> is at the head of the free list.\<close>

lemma alloc_page:
  assumes inv: "uvm_inv s (v # fl) pd" and a: "page_aligned a" "a < KERNBASE"
    and free: "even (pt_lookup (mem s) pd a)"
  defines "s1 \<equiv> s\<lparr>freelist := load32 (mem s) v, mem := fill (mem s) v 0 PGSIZE\<rparr>"
  obtains (fail) "mappages s1 pd a PGSIZE (V2P v) (PTE_W OR PTE_U) = Some (-1, s1)" "fl = []"
  | (mapped) s' fl' where "mappages s1 pd a PGSIZE (V2P v) (PTE_W OR PTE_U) = Some (0, s')"
      "uvm_inv s' fl' pd" "pt_lookup (mem s') pd = map_entry a (V2P v OR 7) (pt_lookup (mem s) pd)"
      "set fl' \<union> pt_pages (mem s') pd = set fl \<union> pt_pages (mem s) pd"
      "pt_pages (mem s) pd \<subseteq> pt_pages (mem s') pd" "user_page (mem s') pd a" "uframe (mem s') pd a = v"
      "\<And>x. PGROUNDDOWN x = v \<Longrightarrow> mem s' x = 0"
      "\<And>x. PGROUNDDOWN x \<notin> insert v (set fl \<union> pt_pages (mem s) pd) \<Longrightarrow> mem s' x = mem s x"
      "same_but_mem s s'"
proof -
  note t = vm_inv_take [OF uvm_invD(1) [OF inv], folded s1_def]
  have inv1: "uvm_inv s1 fl pd" unfolding s1_def by (rule uvm_inv_take [OF inv])
  have ke1: "kend s1 = kend s" by (rule same_but_mem_fields(1) [OF t(9)])
  have perm: "V2P v OR (PTE_W OR PTE_U) OR PTE_P = V2P v OR 7" by (simp add: or.assoc)
  have free1: "even (pt_lookup (mem s1) pd a)" using free t(3) by simp
  show ?thesis
    using t(1) a(1) free1
  proof (cases rule: mappages_page [where pa = "V2P v" and perm = "PTE_W OR PTE_U"])
    case fail
    then show ?thesis by (rule that(1))
  next
    case (mapped s' fl')
    note st = pt_stepD [OF mapped(2)]
    have look: "pt_lookup (mem s') pd = map_entry a (V2P v OR 7) (pt_lookup (mem s1) pd)"
      using mapped(3) unfolding perm .
    have al: "page_aligned v" using t(6) by auto
    have vv: "P2V (PTE_ADDR (V2P v OR 7)) = v"
      using al by (subst PTE_ADDR_or) simp_all
    have pages: "set fl' \<union> pt_pages (mem s') pd = set fl \<union> pt_pages (mem s) pd"
      using st(3,4) t(2) by auto
    have ke: "kend s' = kend s1" by (rule same_but_mem_fields(1) [OF st(6)])
    have notframe: "uframe (mem s1) pd va \<noteq> v" if "user_page (mem s1) pd va" for va
      using that uvm_invD(4) [OF inv, of va] user_page_cong [OF t(3)] by auto
    have um: "uvm_inv s' fl' pd" "user_page (mem s') pd a" "uframe (mem s') pd a = v"
      using uvm_inv_map [OF inv1 st(1) a look _ _ vv pd_present_or7 notframe _ ke] t(2,4,5,6) ke1 pages
      by auto
    have vout: "v \<notin> pt_pages (mem s') pd" using pages t(4,5) by auto
    show ?thesis
    proof (rule that(2) [OF mapped(1) um(1) _ pages _ um(2,3)])
      show "pt_lookup (mem s') pd = map_entry a (V2P v OR 7) (pt_lookup (mem s) pd)"
        using look t(3) by simp
      show "pt_pages (mem s) pd \<subseteq> pt_pages (mem s') pd" using st(4) t(2) by auto
      show "mem s' x = 0" if "PGROUNDDOWN x = v" for x
        using that st(5) [of x] vout t(7) [of x] by simp
      show "mem s' x = mem s x" if "PGROUNDDOWN x \<notin> insert v (set fl \<union> pt_pages (mem s) pd)" for x
        using that st(5) [of x] t(8) [of x] pages by auto
      show "same_but_mem s s'" using t(9) st(6) by (rule same_but_mem_trans)
    qed
  qed
qed

text \<open>
  The pages of \<open>[lo, hi)\<close> have been given fresh zeroed frames; \<open>held\<close> are pages taken from the
  free list that are in neither the table nor the list.
\<close>

definition fresh_page :: "memory \<Rightarrow> addr \<Rightarrow> addr \<Rightarrow> bool" where
  "fresh_page m pd p \<longleftrightarrow> user_page m pd p \<and> pt_lookup m pd p = V2P (uframe m pd p) OR 7
     \<and> (\<forall>x. PGROUNDDOWN x = uframe m pd p \<longrightarrow> m x = 0)"

definition kept :: "'a ksys_scheme \<Rightarrow> addr list \<Rightarrow> addr \<Rightarrow> addr \<Rightarrow> addr \<Rightarrow> 'a ksys_scheme \<Rightarrow> bool" where
  "kept s fl pd lo hi s' \<longleftrightarrow> pt_pages (mem s) pd \<subseteq> pt_pages (mem s') pd
     \<and> (\<forall>va. \<not> (lo \<le> PGROUNDDOWN va \<and> PGROUNDDOWN va < hi) \<longrightarrow> pt_lookup (mem s') pd va = pt_lookup (mem s) pd va)
     \<and> (\<forall>x. PGROUNDDOWN x \<notin> set fl \<union> pt_pages (mem s) pd \<longrightarrow> mem s' x = mem s x) \<and> same_but_mem s s'"

definition grown :: "'a ksys_scheme \<Rightarrow> addr list \<Rightarrow> addr \<Rightarrow> addr \<Rightarrow> addr \<Rightarrow> 'a ksys_scheme \<Rightarrow> addr list \<Rightarrow> bool" where
  "grown s fl pd lo hi s' fl' \<longleftrightarrow> uvm_inv s' fl' pd \<and> kept s fl pd lo hi s'
     \<and> (\<forall>p. page_aligned p \<and> lo \<le> p \<and> p < hi \<longrightarrow> fresh_page (mem s') pd p)
     \<and> set fl' \<union> pt_pages (mem s') pd \<union> range_frames (mem s') pd lo hi = set fl \<union> pt_pages (mem s) pd"

definition restored :: "'a ksys_scheme \<Rightarrow> addr list \<Rightarrow> addr \<Rightarrow> addr \<Rightarrow> addr \<Rightarrow> 'a ksys_scheme \<Rightarrow> addr list \<Rightarrow> bool" where
  "restored s fl pd lo hi s' fl' \<longleftrightarrow> uvm_inv s' fl' pd \<and> kept s fl pd lo hi s'
     \<and> (\<forall>p. page_aligned p \<and> lo \<le> p \<and> p < hi \<longrightarrow> even (pt_lookup (mem s') pd p))
     \<and> set fl' \<union> pt_pages (mem s') pd = set fl \<union> pt_pages (mem s) pd"

lemma keptD:
  assumes "kept s fl pd lo hi s'"
  shows "pt_pages (mem s) pd \<subseteq> pt_pages (mem s') pd"
    "\<not> (lo \<le> PGROUNDDOWN va \<and> PGROUNDDOWN va < hi) \<Longrightarrow> pt_lookup (mem s') pd va = pt_lookup (mem s) pd va"
    "PGROUNDDOWN x \<notin> set fl \<union> pt_pages (mem s) pd \<Longrightarrow> mem s' x = mem s x" "same_but_mem s s'"
  using assms unfolding kept_def by blast+

lemma grown_start: "uvm_inv s fl pd \<Longrightarrow> grown s fl pd lo lo s fl"
  by (auto simp: grown_def kept_def range_frames_def)

lemma grown_range:
  assumes "grown s fl pd lo a s' fl'" "\<And>p. page_aligned p \<Longrightarrow> lo \<le> p \<Longrightarrow> p < a \<longleftrightarrow> p < hi"
  shows "grown s fl pd lo hi s' fl'"
proof -
  have "range_frames (mem s') pd lo a = range_frames (mem s') pd lo hi"
    unfolding range_frames_def using assms(2)
    by (intro arg_cong [where f = "image _"] Collect_cong) (auto simp: user_page_def)
  moreover have "kept s fl pd lo hi s'"
    using assms unfolding grown_def kept_def by (metis page_aligned_PGROUNDDOWN)
  ultimately show ?thesis using assms unfolding grown_def by metis
qed

lemma grown_page:
  assumes g: "grown s0 fl0 pd lo a s (v # fl)" and a: "page_aligned a" "a < hi" "hi \<le> KERNBASE" "lo \<le> a"
    and inv': "uvm_inv s' fl' pd" and look: "pt_lookup (mem s') pd = map_entry a (V2P v OR 7) (pt_lookup (mem s) pd)"
    and pages: "set fl' \<union> pt_pages (mem s') pd = set fl \<union> pt_pages (mem s) pd"
      "pt_pages (mem s) pd \<subseteq> pt_pages (mem s') pd" and va: "user_page (mem s') pd a" "uframe (mem s') pd a = v"
    and zero: "\<And>x. PGROUNDDOWN x = v \<Longrightarrow> mem s' x = 0"
    and same: "\<And>x. PGROUNDDOWN x \<notin> insert v (set fl \<union> pt_pages (mem s) pd) \<Longrightarrow> mem s' x = mem s x" "same_but_mem s s'"
  shows "grown s0 fl0 pd lo (a + PGSIZE) s' fl'"
proof -
  note nx = page_next [OF a(1-3)]
  have k: "kept s0 fl0 pd lo a s" and inv: "uvm_inv s (v # fl) pd"
    and total: "insert v (set fl) \<union> pt_pages (mem s) pd \<union> range_frames (mem s) pd lo a = set fl0 \<union> pt_pages (mem s0) pd"
    using g by (simp_all add: grown_def)
  have lt: "p < a + PGSIZE \<longleftrightarrow> p < a \<or> p = a" if "page_aligned p" for p
    using nx(3) nx(4) [OF that] by (meson le_less_linear less_trans)
  have old: "user_page (mem s) pd p = user_page (mem s') pd p" "uframe (mem s') pd p = uframe (mem s) pd p"
    "pt_lookup (mem s') pd p = pt_lookup (mem s) pd p" if "page_aligned p" "p \<noteq> a" for p
    using that a(1) by (auto simp: user_page_def uframe_def look map_entry_def)
  have frames: "range_frames (mem s') pd lo (a + PGSIZE) = insert v (range_frames (mem s) pd lo a)"
  proof -
    have "{q. user_page (mem s') pd q \<and> lo \<le> q \<and> q < a + PGSIZE}
        = insert a {q. user_page (mem s) pd q \<and> lo \<le> q \<and> q < a}"
      using va(1) a(4) old(1) lt by (auto simp: user_page_def)
    moreover have "uframe (mem s') pd ` {q. user_page (mem s) pd q \<and> lo \<le> q \<and> q < a} = range_frames (mem s) pd lo a"
      unfolding range_frames_def using old(2) by (intro image_cong) (auto simp: user_page_def)
    ultimately show ?thesis using va(2) by (simp add: range_frames_def)
  qed
  have "fresh_page (mem s') pd p" if p: "page_aligned p" "lo \<le> p" "p < a + PGSIZE" for p
  proof (cases "p = a")
    case True
    then show ?thesis
      using va zero a(1) by (auto simp: fresh_page_def look map_entry_def)
  next
    case False
    with p lt g have fp: "fresh_page (mem s) pd p" by (auto simp: grown_def)
    then have "uframe (mem s) pd p \<notin> insert v (set fl \<union> pt_pages (mem s) pd)"
      using uvm_invD(4,5) [OF inv, of p] by (auto simp: fresh_page_def)
    with fp old [OF p(1) False] same(1) show ?thesis by (simp add: fresh_page_def)
  qed
  moreover have "kept s0 fl0 pd lo (a + PGSIZE) s'"
    unfolding kept_def
  proof (intro conjI allI impI)
    show "pt_pages (mem s0) pd \<subseteq> pt_pages (mem s') pd" using keptD(1) [OF k] pages(2) by blast
    show "same_but_mem s0 s'" using keptD(4) [OF k] same(2) by (rule same_but_mem_trans)
    show "mem s' x = mem s0 x" if "PGROUNDDOWN x \<notin> set fl0 \<union> pt_pages (mem s0) pd" for x
      using that same(1) [of x] keptD(3) [OF k that] total by auto
    show "pt_lookup (mem s') pd q = pt_lookup (mem s0) pd q"
      if "\<not> (lo \<le> PGROUNDDOWN q \<and> PGROUNDDOWN q < a + PGSIZE)" for q
      using that lt [of "PGROUNDDOWN q"] a(1,4) keptD(2) [OF k, of q]
      by (auto simp: look map_entry_def)
  qed
  ultimately show ?thesis
    using inv' frames pages(1) total by (auto simp: grown_def)
qed

text \<open>The two failures of \<open>allocuvm\<close> undo the pages given so far.\<close>

lemma grown_undone:
  assumes g: "grown s0 fl0 pd lo a s fl"
    and above: "\<And>p. page_aligned p \<Longrightarrow> a \<le> p \<Longrightarrow> p < hi \<Longrightarrow> even (pt_lookup (mem s0) pd p)" and lim: "hi \<le> KERNBASE" "a < hi"
    and inv: "uvm_inv s' fl' pd" and pages: "pt_pages (mem s') pd = pt_pages (mem s) pd"
    and look: "pt_lookup (mem s') pd = unmap_range lo hi (pt_lookup (mem s) pd)"
    and fl: "set fl' = set fl \<union> range_frames (mem s) pd lo hi"
    and same: "\<And>x. PGROUNDDOWN x \<notin> pt_pages (mem s) pd \<union> range_frames (mem s) pd lo hi \<union> set fl \<Longrightarrow> mem s' x = mem s x"
      "same_but_mem s s'"
  shows "restored s0 fl0 pd lo hi s' fl'"
proof -
  have k: "kept s0 fl0 pd lo a s"
    and total: "set fl \<union> pt_pages (mem s) pd \<union> range_frames (mem s) pd lo a = set fl0 \<union> pt_pages (mem s0) pd"
    using g by (simp_all add: grown_def)
  have ab: "even (pt_lookup (mem s) pd p)" if "page_aligned p" "a \<le> p" "p < hi" for p
    using that(1) above [OF that] keptD(2) [OF k, of p] leD [OF that(2)] by simp
  have "{p. user_page (mem s) pd p \<and> lo \<le> p \<and> p < hi} = {p. user_page (mem s) pd p \<and> lo \<le> p \<and> p < a}"
    using ab lim by (auto simp: user_page_def) (meson leI)
  then have frames: "range_frames (mem s) pd lo hi = range_frames (mem s) pd lo a"
    by (simp add: range_frames_def)
  have "kept s0 fl0 pd lo hi s'"
    unfolding kept_def
  proof (intro conjI allI impI)
    show "pt_pages (mem s0) pd \<subseteq> pt_pages (mem s') pd" using keptD(1) [OF k] pages by simp
    show "same_but_mem s0 s'" using keptD(4) [OF k] same(2) by (rule same_but_mem_trans)
    show "mem s' x = mem s0 x" if "PGROUNDDOWN x \<notin> set fl0 \<union> pt_pages (mem s0) pd" for x
      using that same(1) [of x] keptD(3) [OF k that] total frames by auto
    show "pt_lookup (mem s') pd q = pt_lookup (mem s0) pd q" if "\<not> (lo \<le> PGROUNDDOWN q \<and> PGROUNDDOWN q < hi)" for q
    proof -
      have "\<not> (lo \<le> PGROUNDDOWN q \<and> PGROUNDDOWN q < a)" using that lim(2) less_trans by blast
      with that keptD(2) [OF k] show ?thesis by (auto simp: look unmap_range_def)
    qed
  qed
  moreover have "even (pt_lookup (mem s') pd p)" if "page_aligned p" "lo \<le> p" "p < hi" for p
    using that by (simp add: look unmap_range_def)
  ultimately show ?thesis
    using inv fl pages total frames by (auto simp: restored_def)
qed

lemma grown_undone_held:
  assumes g: "grown s0 fl0 pd lo a s (v # fl)"
    and above: "\<And>p. page_aligned p \<Longrightarrow> a \<le> p \<Longrightarrow> p < hi \<Longrightarrow> even (pt_lookup (mem s0) pd p)" and lim: "hi \<le> KERNBASE" "a < hi"
  defines "s1 \<equiv> s\<lparr>freelist := load32 (mem s) v, mem := fill (mem s) v 0 PGSIZE\<rparr>"
  assumes rel: "released s1 fl pd lo hi s2 fl2"
  shows "\<exists>s3. kfree s2 v = Some s3 \<and> restored s0 fl0 pd lo hi s3 (v # fl2)"
proof -
  have inv: "uvm_inv s (v # fl) pd" using g by (simp add: grown_def)
  note t = vm_inv_take [OF uvm_invD(1) [OF inv], folded s1_def]
  have frames: "range_frames (mem s1) pd lo hi = range_frames (mem s) pd lo hi"
    unfolding range_frames_def using user_page_cong [OF t(3)] by simp
  have notframe: "v \<noteq> uframe (mem s) pd p" if "user_page (mem s) pd p" for p
    using uvm_invD(4) [OF inv that] by auto
  have r: "uvm_inv s2 fl2 pd" "pt_pages (mem s2) pd = pt_pages (mem s) pd"
    "pt_lookup (mem s2) pd = unmap_range lo hi (pt_lookup (mem s) pd)"
    "set fl2 = set fl \<union> range_frames (mem s) pd lo hi" "same_but_mem s1 s2"
    "\<And>x. PGROUNDDOWN x \<notin> pt_pages (mem s) pd \<union> range_frames (mem s) pd lo hi \<Longrightarrow> mem s2 x = mem s1 x"
    using rel unfolding released_def frames t(2,3) by auto
  have "v \<notin> set fl2" "v \<notin> pt_pages (mem s2) pd"
    using r(2,4) t(4,5) notframe by (auto simp: range_frames_def)
  moreover have "kpage (kend s2) v"
    using t(6) same_but_mem_fields(1) [OF t(9)] same_but_mem_fields(1) [OF r(5)] by simp
  ultimately obtain s3 where s3: "kfree s2 v = Some s3" "vm_inv s3 (v # fl2) pd"
    "pt_pages (mem s3) pd = pt_pages (mem s2) pd" "pt_lookup (mem s3) pd = pt_lookup (mem s2) pd"
    "\<And>x. PGROUNDDOWN x \<noteq> v \<Longrightarrow> mem s3 x = mem s2 x" "same_but_mem s2 s3"
    using vm_inv_give [OF uvm_invD(1) [OF r(1)]] by metis
  have vframe2: "uframe (mem s2) pd p \<noteq> v" if "user_page (mem s2) pd p" for p
    using that notframe [of p] by (auto simp: user_page_def uframe_def r(3) unmap_range_def split: if_splits)
  have "uvm_inv s3 (v # fl2) pd"
    using r(1) s3(2) vframe2 user_page_cong [OF s3(4)] same_but_mem_fields(1) [OF s3(6)]
    unfolding uvm_inv_def s3(3) by auto
  moreover have "mem s3 x = mem s x"
    if "PGROUNDDOWN x \<notin> pt_pages (mem s) pd \<union> range_frames (mem s) pd lo hi \<union> set (v # fl)" for x
    using that s3(5) [of x] r(6) [of x] t(8) [of x] by auto
  moreover have "same_but_mem s s3"
    using t(9) r(5) s3(6) by (blast intro: same_but_mem_trans)
  ultimately have "restored s0 fl0 pd lo hi s3 (v # fl2)"
    using r(2-4) s3(3,4) by (intro grown_undone [OF g above lim]) auto
  with s3(1) show ?thesis by blast
qed

lemma allocuvm_loop_result:
  assumes "grown s0 fl0 pd lo a s fl" "page_aligned a" "lo \<le> a" "lo = PGROUNDUP oldsz" "oldsz \<le> lo"
    and hi: "hi \<le> KERNBASE" and shm: "no_shm_in s0 lo hi"
    and below: "\<And>p. page_aligned p \<Longrightarrow> lo \<le> p \<Longrightarrow> p < a \<Longrightarrow> p < hi"
    and above: "\<And>p. page_aligned p \<Longrightarrow> lo \<le> p \<Longrightarrow> p < hi \<Longrightarrow> even (pt_lookup (mem s0) pd p)"
  shows "\<exists>r s' fl'. allocuvm_loop pd oldsz hi s a = Some (r, s')
    \<and> (r = hi \<and> grown s0 fl0 pd lo hi s' fl' \<or> r = 0 \<and> restored s0 fl0 pd lo hi s' fl')"
  using assms(1-5) below
proof (induction "unat hi - unat a" arbitrary: s fl a rule: less_induct)
  case less
  note step = allocuvm_loop.simps [of pd oldsz hi s a]
  have inv: "uvm_inv s fl pd" and k: "kept s0 fl0 pd lo a s" using less.prems(1) by (simp_all add: grown_def)
  show ?case
  proof (cases "a < hi")
    case False
    have "grown s0 fl0 pd lo hi s fl"
      using less.prems(1,6) False by (intro grown_range [OF less.prems(1)]) auto
    with False show ?thesis by (subst step) auto
  next
    case True
    have above': "even (pt_lookup (mem s0) pd p)" if "page_aligned p" "a \<le> p" "p < hi" for p
      using that above less.prems(3) by auto
    have old: "oldsz < hi" using less.prems(3,5) True by simp
    have shm': "no_shm_in s1 (PGROUNDUP oldsz) hi" if "same_but_mem s s1" for s1
      using shm less.prems(4) same_but_mem_fields(2) [OF keptD(4) [OF k]] same_but_mem_fields(2) [OF that]
      by (auto simp: no_shm_in_def)
    have km: "kmem_inv s fl" using uvm_invD(1) [OF inv] by (simp add: vm_inv_def)
    show ?thesis
    proof (cases fl)
      case Nil
      obtain s' fl' where d: "deallocuvm s pd hi oldsz = Some (oldsz, s')" "released s fl pd lo hi s' fl'"
        using deallocuvm_released [OF inv old hi shm' [OF same_but_mem_refl]] less.prems(4) by metis
      then have "restored s0 fl0 pd lo hi s' fl'"
        by (intro grown_undone [OF less.prems(1) above' hi True]) (auto simp: released_def)
      with d(1) True Nil km show ?thesis by (subst step) (auto simp: kalloc_Nil)
    next
      case (Cons v vs)
      have a: "page_aligned a" "a < KERNBASE" using less.prems(2) True hi by auto
      have ev: "even (pt_lookup (mem s) pd a)"
        using above' [OF a(1)] True keptD(2) [OF k, of a] a(1) by auto
      have v0: "v \<noteq> 0" using km Cons by (auto simp: kmem_inv_def)
      let ?s1 = "s\<lparr>freelist := load32 (mem s) v, mem := fill (mem s) v 0 PGSIZE\<rparr>"
      have ka: "kalloc s = (v, s\<lparr>freelist := load32 (mem s) v\<rparr>)" using kalloc_Cons(1) km Cons by blast
      note g = less.prems(1) [unfolded Cons]
      from inv Cons have "uvm_inv s (v # vs) pd" by simp
      then show ?thesis
        using a ev
      proof (cases rule: alloc_page)
        case fail
        have "same_but_mem s ?s1" unfolding same_but_mem_def by blast
        then obtain s2 fl2 where d: "deallocuvm ?s1 pd hi oldsz = Some (oldsz, s2)" "released ?s1 vs pd lo hi s2 fl2"
          using deallocuvm_released [OF uvm_inv_take old hi shm'] inv Cons less.prems(4) by metis
        with grown_undone_held [OF g above' hi True d(2)] fail(1) ka v0 True show ?thesis
          by (subst step) (auto simp: memset_fill)
      next
        case (mapped s' fl')
        note nx = page_next [OF a(1) True hi]
        have "grown s0 fl0 pd lo (a + PGSIZE) s' fl'"
          using mapped(2-10) by (intro grown_page [OF g a(1) True hi less.prems(3)]) auto
        moreover have "unat hi - unat (a + PGSIZE) < unat hi - unat a"
          using nx(1) True by (simp add: word_less_nat_alt)
        moreover have "p < hi" if "page_aligned p" "lo \<le> p" "p < a + PGSIZE" for p
          using that less.prems(6) True nx(4) by (metis not_le)
        ultimately show ?thesis
          using less.hyps [of "a + PGSIZE" s' fl'] nx(2,3) less.prems(3-5) mapped(1) ka v0 True
          by (subst step) (auto simp: memset_fill)
      qed
    qed
  qed
qed

lemma PGROUNDUP_le:
  assumes "sz < KERNBASE"
  shows "sz \<le> PGROUNDUP sz"
proof -
  have "unat sz < 2147483648" using assms by (simp add: word_less_nat_alt)
  then have "unat (PGROUNDUP sz) = (unat sz + 4095) div 4096 * 4096" by (simp add: unat_PGROUNDUP)
  then show ?thesis unfolding word_le_nat_alt by linarith
qed

section \<open>\<open>freevm\<close>\<close>

lemma freevm_tables:
  fixes e :: "nat \<Rightarrow> u32"
  defines "tab \<equiv> \<lambda>i. P2V (PTE_ADDR (e i))"
  assumes "kmem_inv s fl" "page_aligned pd" "distinct is" "\<forall>i \<in> set is. i < 1024"
    and "\<forall>i < 1024. load32 (mem s) (pd + 4 * word_of_nat i) = e i"
    and "\<forall>i \<in> set is. odd (e i) \<longrightarrow> kpage (kend s) (tab i) \<and> tab i \<noteq> pd \<and> tab i \<notin> set fl"
    and "inj_on tab {i \<in> set is. odd (e i)}"
  shows "\<exists>s'. for_each (freevm_pde pd) is s = Some s' \<and> same_but_mem s s'
    \<and> kmem_inv s' (rev (map tab (filter (\<lambda>i. odd (e i)) is)) @ fl)
    \<and> (\<forall>x. PGROUNDDOWN x \<notin> tab ` {i \<in> set is. odd (e i)} \<longrightarrow> mem s' x = mem s x)"
  using assms(2-)
proof (induction "is" arbitrary: s fl)
  case Nil
  then show ?case by simp
next
  case (Cons i js)
  have ei: "load32 (mem s) (pd + 4 * word_of_nat i) = e i" using Cons.prems by auto
  show ?case
  proof (cases "odd (e i)")
    case False
    have "\<exists>s'. for_each (freevm_pde pd) js s = Some s' \<and> same_but_mem s s'
        \<and> kmem_inv s' (rev (map tab (filter (\<lambda>i. odd (e i)) js)) @ fl)
        \<and> (\<forall>x. PGROUNDDOWN x \<notin> tab ` {i \<in> set js. odd (e i)} \<longrightarrow> mem s' x = mem s x)"
      using Cons.prems by (intro Cons.IH) (auto simp: inj_on_def)
    moreover have "{j \<in> set (i # js). odd (e j)} = {j \<in> set js. odd (e j)}" using False by auto
    moreover have "freevm_pde pd i s = Some s" using False ei by (simp add: freevm_pde_def)
    ultimately show ?thesis using False by simp
  next
    case True
    then have ti: "kpage (kend s) (tab i)" "tab i \<noteq> pd" "tab i \<notin> set fl" using Cons.prems(6) by auto
    from kfree_inv [OF Cons.prems(1) ti(1,3)] obtain s1
      where s1: "kfree s (tab i) = Some s1" "kmem_inv s1 (tab i # fl)" "kend s1 = kend s" by blast
    have out: "mem s1 x = mem s x" if "PGROUNDDOWN x \<noteq> tab i" for x
      by (rule kfree_other_page [OF s1(1) that])
    have ent: "load32 (mem s1) (pd + 4 * word_of_nat j) = e j" if "j < 1024" for j
    proof -
      have j: "unat (word_of_nat j :: u32) < 1024" using that by (simp add: unat_of_nat)
      have "load32 (mem s1) (pd + 4 * word_of_nat j) = load32 (mem s) (pd + 4 * word_of_nat j)"
        using Cons.prems(2) j ti(2) out by (intro load32_page_cong) auto
      with that Cons.prems(5) show ?thesis by simp
    qed
    have fresh: "tab j \<noteq> tab i" if "j \<in> set js" "odd (e j)" for j
      using that True Cons.prems(3,7) by (auto simp: inj_on_def)
    have "\<exists>s'. for_each (freevm_pde pd) js s1 = Some s' \<and> same_but_mem s1 s'
        \<and> kmem_inv s' (rev (map tab (filter (\<lambda>i. odd (e i)) js)) @ tab i # fl)
        \<and> (\<forall>x. PGROUNDDOWN x \<notin> tab ` {i \<in> set js. odd (e i)} \<longrightarrow> mem s' x = mem s1 x)"
      using Cons.prems s1 ent fresh by (intro Cons.IH) (auto simp: inj_on_def)
    then obtain s' where s': "for_each (freevm_pde pd) js s1 = Some s'" "same_but_mem s1 s'"
      "kmem_inv s' (rev (map tab (filter (\<lambda>i. odd (e i)) js)) @ tab i # fl)"
      "\<forall>x. PGROUNDDOWN x \<notin> tab ` {i \<in> set js. odd (e i)} \<longrightarrow> mem s' x = mem s1 x" by blast
    have "mem s' x = mem s x" if "PGROUNDDOWN x \<notin> tab ` {j \<in> set (i # js). odd (e j)}" for x
    proof -
      have "{j \<in> set (i # js). odd (e j)} = insert i {j \<in> set js. odd (e j)}" using True by auto
      with that have "PGROUNDDOWN x \<noteq> tab i" "PGROUNDDOWN x \<notin> tab ` {j \<in> set js. odd (e j)}" by auto
      with s'(4) out [of x] show ?thesis by simp
    qed
    moreover have "freevm_pde pd i s = Some s1"
      using True ei s1(1) by (simp add: freevm_pde_def tab_def)
    ultimately show ?thesis
      using s' True same_but_mem_trans [OF same_but_mem_kfree [OF s1(1)] s'(2)] by auto
  qed
qed

lemma pt_pages_nat:
  "pt_pages m pd = insert pd ((\<lambda>i. pd_table m pd (word_of_nat i)) ` {i. i < 1024 \<and> pd_present m pd (word_of_nat i)})"
proof -
  have "{i :: u32. unat i < 1024 \<and> pd_present m pd i} = word_of_nat ` {i. i < 1024 \<and> pd_present m pd (word_of_nat i)}"
  proof (intro set_eqI iffI)
    fix i :: u32 assume "i \<in> {i. unat i < 1024 \<and> pd_present m pd i}"
    then show "i \<in> word_of_nat ` {i. i < 1024 \<and> pd_present m pd (word_of_nat i)}"
      by (intro image_eqI [of _ _ "unat i"]) simp_all
  qed (auto simp: unat_of_nat)
  then show ?thesis by (simp add: pt_pages_image image_image)
qed

lemma freevm_gives_back:
  assumes inv: "uvm_inv s fl pd" and shm: "no_shm_in s 0 KERNBASE"
  obtains s' fl' where "freevm s pd = Some s'" "kmem_inv s' fl'" "same_but_mem s s'"
    "set fl' = set fl \<union> pt_pages (mem s) pd \<union> range_frames (mem s) pd 0 KERNBASE"
    "\<And>x. PGROUNDDOWN x \<notin> pt_pages (mem s) pd \<union> range_frames (mem s) pd 0 KERNBASE \<Longrightarrow> mem s' x = mem s x"
proof -
  have r0: "PGROUNDUP 0 = 0" by (simp add: PGROUNDUP_def)
  obtain s1 fl1 where d: "deallocuvm s pd KERNBASE 0 = Some (0, s1)" "released s fl pd 0 KERNBASE s1 fl1"
    using deallocuvm_released [OF inv, of 0 KERNBASE] shm by (auto simp: r0)
  have r: "vm_inv s1 fl1 pd" "pt_pages (mem s1) pd = pt_pages (mem s) pd" "same_but_mem s s1"
    "set fl1 = set fl \<union> range_frames (mem s) pd 0 KERNBASE"
    "\<And>x. PGROUNDDOWN x \<notin> pt_pages (mem s) pd \<union> range_frames (mem s) pd 0 KERNBASE \<Longrightarrow> mem s1 x = mem s x"
    using d(2) unfolding released_def by (auto dest: uvm_invD(1))
  let ?tab = "\<lambda>i. pd_table (mem s1) pd (word_of_nat i)" and ?on = "\<lambda>i. pd_present (mem s1) pd (word_of_nat i)"
  have km: "kmem_inv s1 fl1" and wf: "wf_pgdir (mem s1) (kend s1) pd" and dj: "pt_pages (mem s1) pd \<inter> set fl1 = {}"
    using r(1) by (simp_all add: vm_inv_def)
  have small: "unat (word_of_nat i :: u32) < 1024" if "i < 1024" for i using that by (simp add: unat_of_nat)
  have tabs: "kpage (kend s1) (?tab i) \<and> ?tab i \<noteq> pd \<and> ?tab i \<notin> set fl1" if "i < 1024" "?on i" for i
    using wf_pgdir_table [OF wf small that(2)] pt_pages_table [OF small that(2)] that(1) dj by auto
  have inj: "inj_on ?tab {i. i < 1024 \<and> ?on i}"
  proof (rule inj_onI)
    fix i j assume ij: "i \<in> {i. i < 1024 \<and> ?on i}" "j \<in> {i. i < 1024 \<and> ?on i}" "?tab i = ?tab j"
    then have "word_of_nat i = (word_of_nat j :: u32)"
      using wf small by (auto simp: wf_pgdir_def)
    with ij show "i = j" by (auto simp: word_unat_eq_iff unat_of_nat)
  qed
  have pd: "kpage (kend s1) pd" "page_aligned pd" "pd \<noteq> 0" "pd \<notin> set fl1"
    using wf dj kpage_nonzero pt_pages_pd [of pd "mem s1"] by (auto simp: wf_pgdir_def simp del: pt_pages_pd)
  have "\<exists>s2. for_each (freevm_pde pd) [0..<1024] s1 = Some s2 \<and> same_but_mem s1 s2
      \<and> kmem_inv s2 (rev (map ?tab (filter ?on [0..<1024])) @ fl1)
      \<and> (\<forall>x. PGROUNDDOWN x \<notin> ?tab ` {i \<in> set [0..<1024]. ?on i} \<longrightarrow> mem s2 x = mem s1 x)"
    unfolding pd_present_def pd_table_def
    by (rule freevm_tables [OF km pd(2)])
      (use tabs inj in \<open>auto simp: pd_present_def pd_table_def\<close>)
  then obtain s2 where s2: "for_each (freevm_pde pd) [0..<1024] s1 = Some s2" "same_but_mem s1 s2"
    "kmem_inv s2 (rev (map ?tab (filter ?on [0..<1024])) @ fl1)"
    "\<forall>x. PGROUNDDOWN x \<notin> ?tab ` {i. i < 1024 \<and> ?on i} \<longrightarrow> mem s2 x = mem s1 x" by auto
  let ?fl = "pd # rev (map ?tab (filter ?on [0..<1024])) @ fl1"
  have "pd \<notin> set (rev (map ?tab (filter ?on [0..<1024])) @ fl1)"
  proof
    assume "pd \<in> set (rev (map ?tab (filter ?on [0..<1024])) @ fl1)"
    with pd(4) obtain i where "i < 1024" "?on i" "pd = ?tab i" by auto
    with tabs [of i] show False by simp
  qed
  then obtain s3 where s3: "kfree s2 pd = Some s3" "kmem_inv s3 ?fl"
    using kfree_inv [OF s2(3)] pd(1) same_but_mem_fields(1) [OF s2(2)] by auto
  have pages: "insert pd (?tab ` {i. i < 1024 \<and> ?on i}) = pt_pages (mem s) pd"
    using pt_pages_nat [of "mem s1" pd] r(2) by simp
  have "freevm s pd = Some s3"
    using d(1) s2(1) s3(1) pd(3) by (simp add: freevm_def)
  moreover have "same_but_mem s s3"
    using r(3) s2(2) same_but_mem_kfree [OF s3(1)] by (blast intro: same_but_mem_trans)
  moreover have "set ?fl = set fl \<union> pt_pages (mem s) pd \<union> range_frames (mem s) pd 0 KERNBASE"
    using r(4) by (simp add: pages [symmetric]) auto
  moreover have "mem s3 x = mem s x" if "PGROUNDDOWN x \<notin> pt_pages (mem s) pd \<union> range_frames (mem s) pd 0 KERNBASE" for x
    using that kfree_other_page [OF s3(1), of x] s2(4) r(5) [of x] by (auto simp: pages [symmetric])
  ultimately show ?thesis using s3(2) by (intro that)
qed

section \<open>A concrete address space\<close>

text \<open>An empty page directory and three free pages, for the witnesses.\<close>

definition ex_proc :: proc where
  "ex_proc = \<lparr>p_sz = 0, p_pgdir = 0x80400000, p_kstack = 0x80500000, p_state = RUNNING, p_pid = 1,
     p_parent = None, p_tf_ptr = 0, p_tf = zero_trapframe, p_context_ptr = 0,
     p_ctx = \<lparr>ctx_edi = 0, ctx_esi = 0, ctx_ebx = 0, ctx_ebp = 0, ctx_eip = 0\<rparr>, p_chan = None,
     p_killed = False, p_ofile = replicate 16 None, p_cwd = None, p_name = [], p_shm_idx = -1, p_shm_va = 0\<rparr>"

definition ex_sys :: ksys where
  "ex_sys = \<lparr>mem = store32 (store32 (\<lambda>_. 0) 0x80401000 0x80402000) 0x80402000 0x80403000,
     freelist = 0x80401000, use_lock = True, kend = 0x80200000, shared_memory = [], procs = [ex_proc],
     curproc = Some 0, initproc = None,
     cpu = ex_cpu, kpgdir = 0, kdata = 0x80108000,
     ptable_lock = \<lparr>locked = 0, lk_name = [], lk_cpu = None, pcs = replicate 10 0\<rparr>, forkret_addr = 0, trapret_addr = 0,
     ticks = 0, tickslock = \<lparr>locked = 0, lk_name = [], lk_cpu = None, pcs = replicate 10 0\<rparr>, idt = []\<rparr>"

lemma load32_zero [simp]: "load32 (\<lambda>_. 0) a = 0"
  by (simp add: load32_def)

lemma ex_sys_entry: "unat i < 1024 \<Longrightarrow> load32 (mem ex_sys) (0x80400000 + 4 * i) = 0"
proof -
  assume i: "unat i < 1024"
  have pg: "page_aligned (0x80400000 :: u32)" by (simp add: page_aligned_def)
  have "PGROUNDDOWN (0x80400000 + 4 * i) = 0x80400000" "aligned4 (0x80400000 + 4 * i)"
    using slot_page [OF pg i] slot_aligned4 [OF pg i] by simp_all
  moreover have "PGROUNDDOWN (0x80401000 :: u32) = 0x80401000" "PGROUNDDOWN (0x80402000 :: u32) = 0x80402000"
    by (simp_all add: PGROUNDDOWN_def)
  moreover have "aligned4 (0x80401000 :: u32)" "aligned4 (0x80402000 :: u32)" by (simp_all add: aligned4_def)
  ultimately show ?thesis
    unfolding ex_sys_def by (simp add: load32_store32_other_page)
qed

lemma ex_sys_absent: "unat i < 1024 \<Longrightarrow> \<not> pd_present (mem ex_sys) 0x80400000 i"
  by (simp add: pd_present_def ex_sys_entry)

lemma ex_sys_lookup [simp]: "pt_lookup (mem ex_sys) 0x80400000 va = 0"
  by (simp add: pt_lookup_def ex_sys_absent PDX_less)

lemma ex_sys_uvm_inv: "uvm_inv ex_sys [0x80401000, 0x80402000, 0x80403000] 0x80400000"
proof -
  have "pt_pages (mem ex_sys) 0x80400000 = {0x80400000}"
    by (auto simp: pt_pages_def ex_sys_absent)
  moreover have "wf_pgdir (mem ex_sys) (kend ex_sys) 0x80400000"
    by (auto simp: wf_pgdir_def ex_sys_absent kpage_def page_aligned_def V2P_def) (simp_all add: ex_sys_def)
  moreover have "kmem_inv ex_sys [0x80401000, 0x80402000, 0x80403000]"
    by (auto simp: kmem_inv_def ex_sys_def kpage_def page_aligned_def V2P_def aligned4_def)
  ultimately show ?thesis
    by (simp add: uvm_inv_def vm_inv_def user_page_def) (simp add: ex_sys_def)
qed

lemma ex_sys_no_shm: "no_shm_in ex_sys lo hi"
  by (simp add: no_shm_in_def myproc_def ex_sys_def ex_proc_def)

section \<open>Properties\<close>

text \<open>
  C15: \<open>walkpgdir\<close> with \<open>alloc\<close> set returns the address of the page-table entry
  for \<open>va\<close> and leaves every existing translation as it was, taking at most one page off the free
  list for a missing table and writing nowhere outside the page table; it returns the null pointer
  only when the table is missing and no page is free, and then it changes nothing.
\<close>

theorem walkpgdir_correct:
  assumes "vm_inv s fl pd"
  shows "(walkpgdir s pd va True = (0, s) \<and> fl = [] \<and> \<not> pd_present (mem s) pd (PDX va))
    \<or> (\<exists>s' fl'. walkpgdir s pd va True = (pte_slot (mem s') pd va, s') \<and> pte_slot (mem s') pd va \<noteq> 0
        \<and> pt_step s fl pd s' fl' \<and> length fl \<le> length fl' + 1 \<and> pt_lookup (mem s') pd = pt_lookup (mem s) pd
        \<and> load32 (mem s') (pte_slot (mem s') pd va) = pt_lookup (mem s) pd va)"
  using assms
proof (cases rule: walkpgdir_alloc [where va = va])
  case (slot s' fl')
  then show ?thesis using pt_lookup_slot by metis
qed simp

theorem walkpgdir_correct_witness:
  "(walkpgdir ex_sys 0x80400000 0x1000 True = (0, ex_sys) \<and> [0x80401000, 0x80402000, 0x80403000] = ([] :: addr list)
      \<and> \<not> pd_present (mem ex_sys) 0x80400000 (PDX 0x1000))
    \<or> (\<exists>s' fl'. walkpgdir ex_sys 0x80400000 0x1000 True = (pte_slot (mem s') 0x80400000 0x1000, s')
        \<and> pte_slot (mem s') 0x80400000 0x1000 \<noteq> 0
        \<and> pt_step ex_sys [0x80401000, 0x80402000, 0x80403000] 0x80400000 s' fl'
        \<and> length [0x80401000 :: addr, 0x80402000, 0x80403000] \<le> length fl' + 1
        \<and> pt_lookup (mem s') 0x80400000 = pt_lookup (mem ex_sys) 0x80400000
        \<and> load32 (mem s') (pte_slot (mem s') 0x80400000 0x1000) = pt_lookup (mem ex_sys) 0x80400000 0x1000)"
  by (rule walkpgdir_correct [OF uvm_invD(1) [OF ex_sys_uvm_inv]])

text \<open>
  C13: \<open>mappages\<close> on a page-aligned range of \<open>n\<close> unmapped pages does not panic. When it
  returns 0 exactly the pages of the range are mapped, in order, to the consecutive physical pages
  from \<open>pa\<close> with the given permissions and the present bit; when it returns -1 no page is free and
  a proper prefix of the range is mapped. All other translations, and memory outside the page
  table, are unchanged.
\<close>

theorem mappages_correct:
  assumes "vm_inv s fl pd" "page_aligned va" "0 < n" "unat va + 4096 * n \<le> 4294967296"
    and "\<forall>p. page_aligned p \<and> unat va \<le> unat p \<and> unat p < unat va + 4096 * n \<longrightarrow> even (pt_lookup (mem s) pd p)"
  shows "\<exists>r s' fl' k. mappages s pd va (word_of_nat (4096 * n)) pa perm = Some (r, s')
    \<and> pt_step s fl pd s' fl' \<and> (r = 0 \<and> k = n \<or> r = -1 \<and> k < n \<and> fl' = [])
    \<and> pt_lookup (mem s') pd = map_range va k pa perm (pt_lookup (mem s) pd)"
  using mappages_range [OF assms(1-4)] assms(5) by metis

theorem mappages_correct_witness:
  "\<exists>r s' fl' k. mappages ex_sys 0x80400000 0x2000 (word_of_nat (4096 * 3)) 0x500000 PTE_W = Some (r, s')
    \<and> pt_step ex_sys [0x80401000, 0x80402000, 0x80403000] 0x80400000 s' fl'
    \<and> (r = 0 \<and> k = 3 \<or> r = -1 \<and> k < 3 \<and> fl' = [])
    \<and> pt_lookup (mem s') 0x80400000 = map_range 0x2000 k 0x500000 PTE_W (pt_lookup (mem ex_sys) 0x80400000)"
  by (rule mappages_correct [OF uvm_invD(1) [OF ex_sys_uvm_inv]]) (simp_all add: page_aligned_def)

text \<open>
  C3: shrinking a process from \<open>oldsz\<close> to \<open>newsz\<close>, with no shared page in between,
  returns \<open>newsz\<close>, clears the present entries of the pages from \<open>PGROUNDUP newsz\<close> up to
  \<open>oldsz\<close>, puts exactly their frames on the free list, and changes no other translation and no
  memory outside the page table and those frames; the address space stays well formed.
\<close>

theorem deallocuvm_correct:
  assumes "uvm_inv s fl pd" "newsz < oldsz" "oldsz \<le> KERNBASE" "no_shm_in s (PGROUNDUP newsz) oldsz"
  shows "\<exists>s' fl'. deallocuvm s pd oldsz newsz = Some (newsz, s') \<and> released s fl pd (PGROUNDUP newsz) oldsz s' fl'"
  using deallocuvm_released [OF assms] by metis

theorem deallocuvm_correct_witness:
  "\<exists>s' fl'. deallocuvm ex_sys 0x80400000 0x3000 0x1000 = Some (0x1000, s')
    \<and> released ex_sys [0x80401000, 0x80402000, 0x80403000] 0x80400000 (PGROUNDUP 0x1000) 0x3000 s' fl'"
  by (rule deallocuvm_correct [OF ex_sys_uvm_inv _ _ ex_sys_no_shm]) simp_all

text \<open>
  C1: growing a process from \<open>oldsz\<close> to \<open>newsz\<close> below \<open>KERNBASE\<close>, over pages that are not
  mapped, never panics. Either it returns \<open>newsz\<close> and every page from \<open>PGROUNDUP oldsz\<close> up to
  \<open>newsz\<close> is mapped present, writable and user-accessible to a zeroed frame of its own, or it
  returns 0 with none of those pages mapped and every frame it took back on the free list. In both
  cases no page is lost, no other translation changes, and memory outside the free pages and the
  page table is untouched.
\<close>

theorem allocuvm_correct:
  assumes "uvm_inv s fl pd" "oldsz \<le> newsz" "newsz < KERNBASE" "no_shm_in s (PGROUNDUP oldsz) newsz"
    and "\<forall>p. page_aligned p \<and> PGROUNDUP oldsz \<le> p \<and> p < newsz \<longrightarrow> even (pt_lookup (mem s) pd p)"
  shows "\<exists>r s' fl'. allocuvm s pd oldsz newsz = Some (r, s')
    \<and> (r = newsz \<and> grown s fl pd (PGROUNDUP oldsz) newsz s' fl'
       \<or> r = 0 \<and> restored s fl pd (PGROUNDUP oldsz) newsz s' fl')"
proof -
  have "oldsz < KERNBASE" using assms(2,3) by simp
  moreover have "\<not> KERNBASE \<le> newsz" "\<not> newsz < oldsz" using assms(2,3) by auto
  ultimately show ?thesis
    using allocuvm_loop_result [OF grown_start [OF assms(1)] _ order_refl refl, of oldsz newsz] PGROUNDUP_le assms
    by (auto simp: allocuvm_def)
qed

theorem allocuvm_correct_witness:
  "\<exists>r s' fl'. allocuvm ex_sys 0x80400000 0x1000 0x3000 = Some (r, s')
    \<and> (r = 0x3000 \<and> grown ex_sys [0x80401000, 0x80402000, 0x80403000] 0x80400000 (PGROUNDUP 0x1000) 0x3000 s' fl'
       \<or> r = 0 \<and> restored ex_sys [0x80401000, 0x80402000, 0x80403000] 0x80400000 (PGROUNDUP 0x1000) 0x3000 s' fl')"
  by (rule allocuvm_correct [OF ex_sys_uvm_inv _ _ ex_sys_no_shm]) simp_all

text \<open>
  C5: \<open>freevm\<close> on a well-formed address space with no shared page does not panic and
  returns the directory, all its page tables and all its user frames to the free list, each
  once, and touches no other memory.
\<close>

theorem freevm_correct:
  assumes "uvm_inv s fl pd" "no_shm_in s 0 KERNBASE"
  shows "\<exists>s' fl'. freevm s pd = Some s' \<and> kmem_inv s' fl' \<and> same_but_mem s s'
    \<and> set fl' = set fl \<union> pt_pages (mem s) pd \<union> range_frames (mem s) pd 0 KERNBASE
    \<and> (\<forall>x. PGROUNDDOWN x \<notin> pt_pages (mem s) pd \<union> range_frames (mem s) pd 0 KERNBASE \<longrightarrow> mem s' x = mem s x)"
  using freevm_gives_back [OF assms] by metis

theorem freevm_correct_witness:
  "\<exists>s' fl'. freevm ex_sys 0x80400000 = Some s' \<and> kmem_inv s' fl' \<and> same_but_mem ex_sys s'
    \<and> set fl' = set [0x80401000, 0x80402000, 0x80403000] \<union> pt_pages (mem ex_sys) 0x80400000
        \<union> range_frames (mem ex_sys) 0x80400000 0 KERNBASE
    \<and> (\<forall>x. PGROUNDDOWN x \<notin> pt_pages (mem ex_sys) 0x80400000 \<union> range_frames (mem ex_sys) 0x80400000 0 KERNBASE
        \<longrightarrow> mem s' x = mem ex_sys x)"
  by (rule freevm_correct [OF ex_sys_uvm_inv ex_sys_no_shm])

end
