(* ===== verification/Vm_Kernel.thy ===== *)
theory Vm_Kernel
  imports Vm_User
begin

text \<open>
  The kernel's part of a page table: \<open>setupkvm\<close> builds the mapping that the table \<open>kmap\<close> of \<open>vm.c\<close>
  lists, row by row, or gives every page back when the pages run out.
\<close>

section \<open>\<open>setupkvm\<close>\<close>

text \<open>Rows of \<open>kmap\<close> in ascending order, from address \<open>lo\<close> on; the mapping they describe.\<close>

definition row_pages :: "kmap \<Rightarrow> nat" where
  "row_pages k = unat (phys_end k - phys_start k) div 4096"

primrec rows_ok :: "nat \<Rightarrow> kmap list \<Rightarrow> bool" where
  "rows_ok lo [] \<longleftrightarrow> True"
| "rows_ok lo (k # ks) \<longleftrightarrow> lo \<le> unat (virt k) \<and> page_aligned (virt k) \<and> page_aligned (phys_end k - phys_start k)
     \<and> 0 < row_pages k \<and> unat (virt k) + 4096 * row_pages k \<le> 4294967296
     \<and> rows_ok (unat (virt k) + 4096 * row_pages k) ks"

definition row_map :: "kmap \<Rightarrow> (addr \<Rightarrow> u32) \<Rightarrow> addr \<Rightarrow> u32" where
  "row_map k f = map_range (virt k) (row_pages k) (phys_start k) (km_perm k) f"

lemma row_size: "page_aligned (phys_end k - phys_start k) \<Longrightarrow> phys_end k - phys_start k = word_of_nat (4096 * row_pages k)"
proof -
  assume "page_aligned (phys_end k - phys_start k)"
  then have "4096 * row_pages k = unat (phys_end k - phys_start k)"
    by (simp add: row_pages_def page_aligned_def mod_eq_0_iff_dvd)
  then show ?thesis by (simp del: of_nat_mult)
qed

lemma map_range_outside: "unat (PGROUNDDOWN va) < unat a \<Longrightarrow> map_range a n pa perm f va = f va"
  by (simp add: map_range_def)

lemma setupkvm_rows:
  assumes "vm_inv s fl pd" "rows_ok lo ks"
    and "\<And>p. page_aligned p \<Longrightarrow> lo \<le> unat p \<Longrightarrow> even (pt_lookup (mem s) pd p)"
  shows "\<exists>ok s' fl'. for_while (setupkvm_row pd) ks s = Some (ok, s') \<and> pt_step s fl pd s' fl'
    \<and> (\<forall>va. unat (PGROUNDDOWN va) < lo \<longrightarrow> pt_lookup (mem s') pd va = pt_lookup (mem s) pd va)
    \<and> (ok \<longrightarrow> pt_lookup (mem s') pd = fold row_map ks (pt_lookup (mem s) pd)) \<and> (\<not> ok \<longrightarrow> fl' = [])"
  using assms
proof (induction ks arbitrary: s fl lo)
  case Nil
  then show ?case by (auto intro: pt_step_refl)
next
  case (Cons k ks)
  have k: "lo \<le> unat (virt k)" "page_aligned (virt k)" "page_aligned (phys_end k - phys_start k)"
    "0 < row_pages k" "unat (virt k) + 4096 * row_pages k \<le> 4294967296"
    "rows_ok (unat (virt k) + 4096 * row_pages k) ks" using Cons.prems(2) by simp_all
  obtain r s1 fl1 n where r: "mappages s pd (virt k) (phys_end k - phys_start k) (phys_start k) (km_perm k) = Some (r, s1)"
    "pt_step s fl pd s1 fl1" "r = 0 \<and> n = row_pages k \<or> r = -1 \<and> n < row_pages k \<and> fl1 = []"
    "pt_lookup (mem s1) pd = map_range (virt k) n (phys_start k) (km_perm k) (pt_lookup (mem s) pd)"
  proof (rule mappages_range [OF Cons.prems(1) k(2,4,5), folded row_size [OF k(3)]])
    show "even (pt_lookup (mem s) pd p)" if "page_aligned p" "unat (virt k) \<le> unat p" for p
      using that k(1) by (intro Cons.prems(3)) simp_all
  qed
  have below: "pt_lookup (mem s1) pd va = pt_lookup (mem s) pd va" if "unat (PGROUNDDOWN va) < lo" for va
    using that k(1) by (simp add: r(4) map_range_outside)
  show ?case
  proof (cases "r = 0")
    case False
    with r(1-3) show ?thesis
      by (intro exI [of _ False] exI [of _ s1] exI [of _ fl1]) (auto simp: setupkvm_row_def below)
  next
    case True
    with r(3) have n: "n = row_pages k" by simp
    have "\<exists>ok s' fl'. for_while (setupkvm_row pd) ks s1 = Some (ok, s') \<and> pt_step s1 fl1 pd s' fl'
        \<and> (\<forall>va. unat (PGROUNDDOWN va) < unat (virt k) + 4096 * row_pages k \<longrightarrow> pt_lookup (mem s') pd va = pt_lookup (mem s1) pd va)
        \<and> (ok \<longrightarrow> pt_lookup (mem s') pd = fold row_map ks (pt_lookup (mem s1) pd)) \<and> (\<not> ok \<longrightarrow> fl' = [])"
    proof (rule Cons.IH [OF pt_stepD(1) [OF r(2)] k(6)])
      show "even (pt_lookup (mem s1) pd p)" if "page_aligned p" "unat (virt k) + 4096 * row_pages k \<le> unat p" for p
        using that k(1) Cons.prems(3) [of p] by (simp add: r(4) map_range_def n)
    qed
    then obtain ok s' fl' where s': "for_while (setupkvm_row pd) ks s1 = Some (ok, s')" "pt_step s1 fl1 pd s' fl'"
      "\<forall>va. unat (PGROUNDDOWN va) < unat (virt k) + 4096 * row_pages k \<longrightarrow> pt_lookup (mem s') pd va = pt_lookup (mem s1) pd va"
      "ok \<longrightarrow> pt_lookup (mem s') pd = fold row_map ks (pt_lookup (mem s1) pd)" "\<not> ok \<longrightarrow> fl' = []" by blast
    have "pt_lookup (mem s1) pd = row_map k (pt_lookup (mem s) pd)" by (simp add: r(4) row_map_def n)
    moreover have "pt_lookup (mem s') pd va = pt_lookup (mem s) pd va" if "unat (PGROUNDDOWN va) < lo" for va
      using that s'(3) below [OF that] k(1) by simp
    moreover have "setupkvm_row pd k s = Some (True, s1)" using r(1) True by (simp add: setupkvm_row_def)
    ultimately show ?thesis
      using s'(1,4,5) pt_step_trans [OF r(2) s'(2)]
      by (intro exI [of _ ok] exI [of _ s'] exI [of _ fl']) simp
  qed
qed

text \<open>The kernel's part of every page table, as the comment before \<open>kmap\<close> in \<open>vm.c\<close> lays it out.\<close>

definition kernel_map :: "addr \<Rightarrow> addr \<Rightarrow> u32" where
  "kernel_map dat va =
     (let p = PGROUNDDOWN va in
      if KERNBASE \<le> p \<and> p < KERNLINK then V2P p OR PTE_W OR PTE_P
      else if KERNLINK \<le> p \<and> p < dat then V2P p OR PTE_P
      else if dat \<le> p \<and> p < P2V PHYSTOP then V2P p OR PTE_W OR PTE_P
      else if DEVSPACE \<le> p then p OR PTE_W OR PTE_P
      else 0)"

definition kdata_ok :: "addr \<Rightarrow> bool" where
  "kdata_ok dat \<longleftrightarrow> page_aligned dat \<and> KERNLINK < dat \<and> dat < P2V PHYSTOP"

lemma kdata_ok_unat: "kdata_ok d \<Longrightarrow> 2148532224 < unat d \<and> unat d < 2382364672 \<and> unat d mod 4096 = 0"
  by (simp add: kdata_ok_def word_less_nat_alt page_aligned_def P2V_def)

lemma kmap_sizes:
  assumes "kdata_ok d"
  shows "unat (V2P d - V2P KERNLINK) = unat d - 2148532224" "unat (PHYSTOP - V2P d) = 2382364672 - unat d"
    "V2P KERNLINK = 0x100000"
proof -
  have d: "KERNLINK \<le> d" "d \<le> P2V PHYSTOP" using assms by (auto simp: kdata_ok_def)
  have "V2P d - V2P KERNLINK = d - KERNLINK" "PHYSTOP - V2P d = 0x8E000000 - d"
    by (simp_all add: V2P_def)
  note eq = this
  show "unat (V2P d - V2P KERNLINK) = unat d - 2148532224"
    unfolding eq(1) using word_le_and_sub [OF d(1)] by simp
  show "unat (PHYSTOP - V2P d) = 2382364672 - unat d"
    unfolding eq(2) using word_le_and_sub [OF d(2)] by (simp add: P2V_def)
  show "V2P KERNLINK = 0x100000" by (simp add: V2P_def)
qed

lemma kmap_row_pages:
  assumes "kdata_ok (kdata s)"
  obtains a b where "unat (kdata s) = 2148532224 + 4096 * a" "0 < a" "0 < b" "a + b = 57088"
    "unat (V2P (kdata s) - V2P KERNLINK) = 4096 * a" "unat (PHYSTOP - V2P (kdata s)) = 4096 * b"
    "map row_pages (kmap_table s) = [256, a, b, 8192]"
proof -
  obtain q where q: "unat (kdata s) = 4096 * q"
    using kdata_ok_unat [OF assms] by (auto simp: mod_eq_0_iff_dvd elim: dvdE)
  have lim: "524544 < q" "q < 581632" using kdata_ok_unat [OF assms] q by linarith+
  obtain a where a: "q = 524544 + a" using lim(1) nat_le_iff_add less_imp_le by metis
  obtain b where b: "581632 = q + b" using lim(2) nat_le_iff_add less_imp_le by metis
  have kd: "unat (kdata s) = 2148532224 + 4096 * a" using q a by simp
  have sizes: "unat (V2P (kdata s) - V2P KERNLINK) = 4096 * a" "unat (PHYSTOP - V2P (kdata s)) = 4096 * b"
    using kmap_sizes [OF assms] kd a b by simp_all
  have rows: "map row_pages (kmap_table s) = [256, a, b, 8192]"
    using sizes by (simp add: kmap_table_def row_pages_def)
  have "0 < a" "0 < b" "a + b = 57088" using lim a b by linarith+
  from that [OF kd this sizes rows] show ?thesis .
qed

lemma kmap_rows_ok:
  assumes "kdata_ok (kdata s)"
  shows "rows_ok 2147483648 (kmap_table s)"
proof -
  obtain a b where q: "unat (kdata s) = 2148532224 + 4096 * a" "0 < a" "0 < b" "a + b = 57088"
    "unat (V2P (kdata s) - V2P KERNLINK) = 4096 * a" "unat (PHYSTOP - V2P (kdata s)) = 4096 * b"
    "map row_pages (kmap_table s) = [256, a, b, 8192]"
    using kmap_row_pages [OF assms] .
  then have "page_aligned (V2P (kdata s) - V2P KERNLINK)" "page_aligned (PHYSTOP - V2P (kdata s))"
    by (simp_all add: page_aligned_def)
  moreover have "page_aligned (kdata s)" using assms by (simp add: kdata_ok_def)
  moreover have "a \<le> 57088" "2148532224 + 4096 * a + 4096 * b = 2382364672" using q(4) by linarith+
  ultimately show ?thesis
    using q(1-3,7) by (simp add: kmap_table_def) (simp add: page_aligned_def)
qed

lemma map_range_at:
  "map_range a n pa perm f va = (if unat a \<le> unat (PGROUNDDOWN va) \<and> unat (PGROUNDDOWN va) < unat a + 4096 * n
     then PGROUNDDOWN va + (pa - a) OR perm OR PTE_P else f va)"
  by (simp add: map_range_def algebra_simps)

lemma kmap_rows_map:
  assumes "kdata_ok (kdata s)"
  shows "fold row_map (kmap_table s) (\<lambda>_. 0) = kernel_map (kdata s)"
proof
  fix va
  let ?u = "unat (PGROUNDDOWN va)"
  obtain a b where q: "unat (kdata s) = 2148532224 + 4096 * a" "a + b = 57088"
    "map row_pages (kmap_table s) = [256, a, b, 8192]"
    using kmap_row_pages [OF assms] by metis
  have off: "V2P (kdata s) - kdata s = - KERNBASE" "V2P KERNLINK - KERNLINK = - KERNBASE" "0 - KERNBASE = - KERNBASE"
    by (simp_all add: V2P_def)
  note pgs = q(3) [unfolded kmap_table_def list.map, simplified list.inject]
  have "fold row_map (kmap_table s) (\<lambda>_. 0) va =
     (if 4261412864 \<le> ?u \<and> ?u < 4294967296 then PGROUNDDOWN va OR PTE_W OR PTE_P
      else if unat (kdata s) \<le> ?u \<and> ?u < unat (kdata s) + 4096 * b then V2P (PGROUNDDOWN va) OR PTE_W OR PTE_P
      else if 2148532224 \<le> ?u \<and> ?u < 2148532224 + 4096 * a then V2P (PGROUNDDOWN va) OR PTE_P
      else if 2147483648 \<le> ?u \<and> ?u < 2148532224 then V2P (PGROUNDDOWN va) OR PTE_W OR PTE_P else 0)"
    unfolding kmap_table_def
    by (simp only: fold_simps comp_apply row_map_def map_range_at kmap.simps pgs off V2P_def [of "PGROUNDDOWN va"]) auto
  also have "\<dots> = kernel_map (kdata s) va"
  proof -
    have e: "unat (kdata s) + 4096 * b = 2382364672" "2148532224 + 4096 * a = unat (kdata s)"
      using q(1,2) by linarith+
    have k: "kernel_map (kdata s) va =
      (if 2147483648 \<le> ?u \<and> ?u < 2148532224 then V2P (PGROUNDDOWN va) OR PTE_W OR PTE_P
       else if 2148532224 \<le> ?u \<and> ?u < unat (kdata s) then V2P (PGROUNDDOWN va) OR PTE_P
       else if unat (kdata s) \<le> ?u \<and> ?u < 2382364672 then V2P (PGROUNDDOWN va) OR PTE_W OR PTE_P
       else if 4261412864 \<le> ?u then PGROUNDDOWN va OR PTE_W OR PTE_P else 0)"
      by (simp add: kernel_map_def Let_def word_le_nat_alt word_less_nat_alt P2V_def)
    have d: "2148532224 \<le> unat (kdata s)" "unat (kdata s) \<le> 2382364672" using q(1,2) by linarith+
    have top: "?u < 4294967296" by (rule unat_less_4G)
    consider "?u < 2147483648" | "2147483648 \<le> ?u" "?u < 2148532224" | "2148532224 \<le> ?u" "?u < unat (kdata s)"
      | "unat (kdata s) \<le> ?u" "?u < 2382364672" | "2382364672 \<le> ?u" "?u < 4261412864" | "4261412864 \<le> ?u" by linarith
    then show ?thesis
      unfolding e k using d top by cases simp_all
  qed
  finally show "fold row_map (kmap_table s) (\<lambda>_. 0) va = kernel_map (kdata s) va" .
qed

text \<open>A zeroed page is an empty directory.\<close>

lemma empty_pgdir:
  assumes km: "kmem_inv s (v # fl)"
  defines "s' \<equiv> s\<lparr>freelist := load32 (mem s) v, mem := fill (mem s) v 0 PGSIZE\<rparr>"
  shows "vm_inv s' fl v" "pt_pages (mem s') v = {v}" "pt_lookup (mem s') v = (\<lambda>_. 0)" "same_but_mem s s'"
    "PGROUNDDOWN x \<noteq> v \<Longrightarrow> mem s' x = mem s x"
proof -
  have v: "kpage (kend s) v" "page_aligned v" "v \<notin> set fl" using km by (auto simp: kmem_inv_def)
  have "load32 (mem s') (v + 4 * i) = 0" if "unat i < 1024" for i
    using that v by (simp add: s'_def load32_fill_zero)
  then have absent: "\<not> pd_present (mem s') v i" if "unat i < 1024" for i
    using that by (simp add: pd_present_def)
  show pages: "pt_pages (mem s') v = {v}" by (auto simp: pt_pages_def absent)
  show "pt_lookup (mem s') v = (\<lambda>_. 0)" by (rule ext) (simp add: pt_lookup_def absent PDX_less)
  have wf: "wf_pgdir (mem s') (kend s') v"
    using v(1) absent by (auto simp: wf_pgdir_def s'_def)
  show out: "mem s' x = mem s x" if "PGROUNDDOWN x \<noteq> v" for x
    using that v(2) by (simp add: s'_def fill_def in_page_iff)
  have "kmem_inv s' fl"
  proof (rule kmem_inv_frame [OF kalloc_Cons(2) [OF km]])
    fix x assume "PGROUNDDOWN x \<in> set fl"
    with v(3) out [of x] show "mem s' x = mem (s\<lparr>freelist := load32 (mem s) v\<rparr>) x" by auto
  qed (simp_all add: s'_def)
  with wf pages v(3) show "vm_inv s' fl v" by (simp add: vm_inv_def)
  show "same_but_mem s s'" unfolding s'_def same_but_mem_def by blast
qed

lemma uvm_inv_no_user:
  "vm_inv s fl pd \<Longrightarrow> KERNBASE < kend s \<Longrightarrow> (\<And>va. va < KERNBASE \<Longrightarrow> even (pt_lookup (mem s) pd va)) \<Longrightarrow>
   uvm_inv s fl pd \<and> range_frames (mem s) pd lo hi = {}"
  by (auto simp: uvm_inv_def user_page_def range_frames_def)

lemma setupkvm_result:
  assumes km: "kmem_inv s fl" and ke: "KERNBASE < kend s" and kd: "kdata_ok (kdata s)" and shm: "no_shm_in s 0 KERNBASE"
  obtains (fail) s' fl' where "setupkvm s = Some (0, s')" "kmem_inv s' fl'" "set fl' = set fl" "same_but_mem s s'"
    "\<And>x. PGROUNDDOWN x \<notin> set fl \<Longrightarrow> mem s' x = mem s x"
  | (table) pd s' fl' where "setupkvm s = Some (pd, s')" "pd \<noteq> 0" "uvm_inv s' fl' pd"
    "pt_lookup (mem s') pd = kernel_map (kdata s)" "set fl = set fl' \<union> pt_pages (mem s') pd" "same_but_mem s s'"
    "\<And>x. PGROUNDDOWN x \<notin> set fl \<Longrightarrow> mem s' x = mem s x"
proof (cases fl)
  case Nil
  with km show ?thesis by (intro fail [of s fl]) (simp_all add: setupkvm_def kalloc_Nil)
next
  case (Cons v vs)
  with km have km': "kmem_inv s (v # vs)" by simp
  then have v0: "v \<noteq> 0" by (auto simp: kmem_inv_def)
  let ?s1 = "s\<lparr>freelist := load32 (mem s) v, mem := fill (mem s) v 0 PGSIZE\<rparr>"
  note e = empty_pgdir [OF km']
  have tbl: "kmap_table ?s1 = kmap_table s" by (simp add: kmap_table_def)
  have "\<exists>ok s2 fl2. for_while (setupkvm_row v) (kmap_table s) ?s1 = Some (ok, s2) \<and> pt_step ?s1 vs v s2 fl2
    \<and> (\<forall>va. unat (PGROUNDDOWN va) < 2147483648 \<longrightarrow> pt_lookup (mem s2) v va = pt_lookup (mem ?s1) v va)
    \<and> (ok \<longrightarrow> pt_lookup (mem s2) v = fold row_map (kmap_table s) (pt_lookup (mem ?s1) v)) \<and> (\<not> ok \<longrightarrow> fl2 = [])"
    by (rule setupkvm_rows [OF e(1) kmap_rows_ok [OF kd]]) (simp only: e(3), simp)
  then obtain ok s2 fl2 where run: "for_while (setupkvm_row v) (kmap_table s) ?s1 = Some (ok, s2)"
    "pt_step ?s1 vs v s2 fl2" "\<And>va. unat (PGROUNDDOWN va) < 2147483648 \<Longrightarrow> pt_lookup (mem s2) v va = 0"
    "ok \<Longrightarrow> pt_lookup (mem s2) v = kernel_map (kdata s)"
    unfolding e(3) kmap_rows_map [OF kd] by blast
  note st = pt_stepD [OF run(2)]
  have same: "same_but_mem s s2" using e(4) st(6) by (rule same_but_mem_trans)
  have low: "even (pt_lookup (mem s2) v va)" if "va < KERNBASE" for va
  proof -
    have "unat (PGROUNDDOWN va) \<le> unat va" by (simp add: unat_PGROUNDDOWN)
    with that have "unat (PGROUNDDOWN va) < 2147483648" by (simp add: word_less_nat_alt)
    then show ?thesis by (simp add: run(3))
  qed
  have uvm: "uvm_inv s2 fl2 v" "range_frames (mem s2) v lo hi = {}" for lo hi
    using uvm_inv_no_user [OF st(1) _ low] ke same_but_mem_fields(1) [OF same] by auto
  have pages: "set fl = set fl2 \<union> pt_pages (mem s2) v"
    using st(3,4) e(2) Cons by auto
  have out: "mem s2 x = mem s x" if "PGROUNDDOWN x \<notin> set fl" for x
    using that st(5) [of x] e(5) [of x] pages Cons by auto
  have unf: "setupkvm s = (if ok then Some (v, s2) else do { s \<leftarrow> freevm s2 v; Some (0, s) })"
    using run(1) v0 by (simp add: setupkvm_def kalloc_Cons(1) [OF km'] memset_fill tbl P2V_def)
  show ?thesis
  proof (cases ok)
    case True
    with unf v0 uvm run(4) pages same out show ?thesis by (intro table [of v s2 fl2]) auto
  next
    case False
    have "no_shm_in s2 0 KERNBASE" using shm same_but_mem_fields(2) [OF same] by (simp add: no_shm_in_def)
    from freevm_gives_back [OF uvm(1) this, unfolded uvm(2)] obtain s3 fl3
      where f: "freevm s2 v = Some s3" "kmem_inv s3 fl3" "same_but_mem s2 s3"
        "set fl3 = set fl2 \<union> pt_pages (mem s2) v"
        "\<And>x. PGROUNDDOWN x \<notin> pt_pages (mem s2) v \<Longrightarrow> mem s3 x = mem s2 x" by auto
    show ?thesis
    proof (rule fail)
      show "setupkvm s = Some (0, s3)" using unf False f(1) by simp
      show "same_but_mem s s3" using same f(3) by (rule same_but_mem_trans)
      show "mem s3 x = mem s x" if "PGROUNDDOWN x \<notin> set fl" for x
        using that f(5) [of x] out [of x] pages by auto
    qed (use f(2,4) pages in auto)
  qed
qed

section \<open>Properties\<close>

text \<open>
  C4: \<open>setupkvm\<close>, with the kernel's data segment page-aligned between \<open>KERNLINK\<close> and
  the top of physical memory, does not panic. Either it returns a directory whose mapping is the
  documented kernel layout and nothing else, with no user page, built from pages of the free list;
  or it returns 0 and the free list holds the same pages as before.
\<close>

theorem setupkvm_correct:
  assumes "kmem_inv s fl" "KERNBASE < kend s" "kdata_ok (kdata s)" "no_shm_in s 0 KERNBASE"
  shows "\<exists>pd s' fl'. setupkvm s = Some (pd, s') \<and> same_but_mem s s'
    \<and> (\<forall>x. PGROUNDDOWN x \<notin> set fl \<longrightarrow> mem s' x = mem s x)
    \<and> (if pd = 0 then kmem_inv s' fl' \<and> set fl' = set fl
       else uvm_inv s' fl' pd \<and> pt_lookup (mem s') pd = kernel_map (kdata s)
         \<and> set fl = set fl' \<union> pt_pages (mem s') pd)"
  using assms by (cases rule: setupkvm_result) auto

theorem setupkvm_correct_witness:
  "\<exists>pd s' fl'. setupkvm ex_sys = Some (pd, s') \<and> same_but_mem ex_sys s'
    \<and> (\<forall>x. PGROUNDDOWN x \<notin> set [0x80401000, 0x80402000, 0x80403000] \<longrightarrow> mem s' x = mem ex_sys x)
    \<and> (if pd = 0 then kmem_inv s' fl' \<and> set fl' = set [0x80401000, 0x80402000, 0x80403000]
       else uvm_inv s' fl' pd \<and> pt_lookup (mem s') pd = kernel_map (kdata ex_sys)
         \<and> set [0x80401000, 0x80402000, 0x80403000] = set fl' \<union> pt_pages (mem s') pd)"
proof (rule setupkvm_correct)
  show "kmem_inv ex_sys [0x80401000, 0x80402000, 0x80403000]"
    using uvm_invD(1) [OF ex_sys_uvm_inv] by (simp add: vm_inv_def)
qed (simp_all add: ex_sys_no_shm, simp_all add: ex_sys_def kdata_ok_def page_aligned_def P2V_def)

end
