(* ===== verification/Proc.thy ===== *)
theory Proc
  imports Vm
begin

text \<open>
  Processes, \<open>proc.c\<close>, apart from the operations that reach into the file system (\<open>Exec\<close>).
  Process pointers are indices into \<open>procs\<close>. A context switch ends an operation: \<open>sched\<close> leaves the
  state as the scheduler finds it after its \<open>swtch\<close> returns, together with the local variable
  \<open>intena\<close> of the suspended kernel thread. \<open>wait\<close> and \<open>sys_sleep\<close> therefore have the result \<open>None\<close>
  when the process goes to sleep; their loops start over when it is woken. The call stack
  that \<open>acquire\<close> records for debugging is left empty.
\<close>

section \<open>The lock of the process table\<close>

definition ptable_acquire :: "'a ksys_scheme \<Rightarrow> 'a ksys_scheme option" where
  "ptable_acquire s = do {
     (c, lk) \<leftarrow> acquire [] 0 (cpu s) (ptable_lock s);
     Some (s\<lparr>cpu := c, ptable_lock := lk\<rparr>) }"

definition ptable_release :: "'a ksys_scheme \<Rightarrow> 'a ksys_scheme option" where
  "ptable_release s = do {
     (c, lk) \<leftarrow> release 0 (cpu s) (ptable_lock s);
     Some (s\<lparr>cpu := c, ptable_lock := lk\<rparr>) }"

definition pinit :: "'a ksys_scheme \<Rightarrow> 'a ksys_scheme" where
  "pinit s = s\<lparr>ptable_lock := initlock ''ptable'' (ptable_lock s)\<rparr>"

text \<open>\<open>mycpu\<close> looks up the number of the CPU by its APIC identifier.\<close>

fun find_apicid :: "u8 list \<Rightarrow> u8 \<Rightarrow> nat \<Rightarrow> nat option" where
  "find_apicid [] apicid i = panic ''unknown apicid''"
| "find_apicid (a # cpus) apicid i = (if a = apicid then Some i else find_apicid cpus apicid (Suc i))"

definition mycpu :: "'a cpu_scheme \<Rightarrow> u8 list \<Rightarrow> u8 \<Rightarrow> nat option" where
  "mycpu c cpus apicid =
     (if if_flag c then panic ''mycpu called with interrupts enabled'' else find_apicid cpus apicid 0)"

section \<open>Creating processes\<close>

text \<open>The array \<open>pids\<close> has \<open>NPROC\<close> elements; a process identifier outside it is a write out of bounds.\<close>

fun mark_pids :: "proc list \<Rightarrow> bool list \<Rightarrow> bool list option" where
  "mark_pids [] pids = Some pids"
| "mark_pids (p # ps) pids =
     (if p_state p = UNUSED then mark_pids ps pids
      else if 0 \<le> p_pid p \<and> p_pid p < int (length pids) then mark_pids ps (pids[nat (p_pid p) := True])
      else ub)"

fun first_free :: "bool list \<Rightarrow> int \<Rightarrow> int" where
  "first_free [] i = -1"
| "first_free (b # bs) i = (if \<not> b then i else first_free bs (i + 1))"

definition get_smallest_pid :: "'a ksys_scheme \<Rightarrow> int option" where
  "get_smallest_pid s = do {
     pids \<leftarrow> mark_pids (procs s) (replicate NPROC False);
     Some (first_free pids 0) }"

fun find_unused :: "proc list \<Rightarrow> nat \<Rightarrow> nat option" where
  "find_unused [] i = None"
| "find_unused (p # ps) i = (if p_state p = UNUSED then Some i else find_unused ps (Suc i))"

definition allocproc :: "'a ksys_scheme \<Rightarrow> (nat option \<times> 'a ksys_scheme) option" where
  "allocproc s = do {
     s \<leftarrow> ptable_acquire s;
     case find_unused (procs s) 0 of
       None \<Rightarrow> do { s \<leftarrow> ptable_release s; Some (None, s) }
     | Some i \<Rightarrow> do {
         let s = upd_proc i (\<lambda>p. p\<lparr>p_state := EMBRYO\<rparr>) s;
         pid \<leftarrow> get_smallest_pid s;
         let s = upd_proc i (\<lambda>p. p\<lparr>p_pid := pid\<rparr>) s;
         s \<leftarrow> ptable_release s;
         let (pg, s) = kalloc s;
         let s = upd_proc i (\<lambda>p. p\<lparr>p_kstack := pg\<rparr>) s;
         if pg = 0 then Some (None, upd_proc i (\<lambda>p. p\<lparr>p_state := UNUSED\<rparr>) s)
         else do {
           let sp = pg + KSTACKSIZE - 76;
           let s = upd_proc i (\<lambda>p. p\<lparr>p_tf_ptr := sp\<rparr>) s;
           let sp = sp - 4;
           let s = s\<lparr>mem := store32 (mem s) sp (trapret_addr s)\<rparr>;
           let sp = sp - 20;
           let s = upd_proc i (\<lambda>p. p\<lparr>p_context_ptr := sp,
             p_ctx := \<lparr>ctx_edi = 0, ctx_esi = 0, ctx_ebx = 0, ctx_ebp = 0, ctx_eip = forkret_addr s\<rparr>\<rparr>) s;
           Some (Some i, upd_proc i (\<lambda>p. p\<lparr>p_shm_idx := -1, p_shm_va := 0\<rparr>) s) } } }"

section \<open>Size of a process\<close>

definition set_size :: "u32 \<Rightarrow> 'a ksys_scheme \<Rightarrow> (int \<times> 'a ksys_scheme) option" where
  "set_size sz s = (case curproc s of None \<Rightarrow> ub | Some i \<Rightarrow> do {
     s \<leftarrow> switchuvm (upd_proc i (\<lambda>p. p\<lparr>p_sz := sz\<rparr>) s) (Some i);
     Some (0, s) })"

definition growproc :: "'a ksys_scheme \<Rightarrow> u32 \<Rightarrow> (int \<times> 'a ksys_scheme) option" where
  "growproc s n = do {
     p \<leftarrow> myproc s;
     if 0 < sint n then do {
       (sz, s) \<leftarrow> allocuvm s (p_pgdir p) (p_sz p) (p_sz p + n);
       if sz = 0 then Some (-1, s) else set_size sz s }
     else if sint n < 0 then do {
       (sz, s) \<leftarrow> deallocuvm s (p_pgdir p) (p_sz p) (p_sz p + n);
       if sz = 0 then Some (-1, s) else set_size sz s }
     else set_size (p_sz p) s }"

definition growproc_lazy :: "'a ksys_scheme \<Rightarrow> u32 \<Rightarrow> (int \<times> 'a ksys_scheme) option" where
  "growproc_lazy s n = do {
     p \<leftarrow> myproc s;
     if 0 < sint n then do {
       (sz, s) \<leftarrow> allocuvm_lazy s (p_pgdir p) (p_sz p) (p_sz p + n);
       if sz = 0 then Some (-1, s) else set_size sz s }
     else if sint n < 0 then do {
       (sz, s) \<leftarrow> deallocuvm s (p_pgdir p) (p_sz p) (p_sz p + n);
       if sz = 0 then Some (-1, s) else set_size sz s }
     else set_size (p_sz p) s }"

section \<open>Scheduling\<close>

text \<open>The scan of the scheduler from position \<open>k\<close>: the next process to run, or the end of the table.\<close>

definition scheduler_scan :: "proc list \<Rightarrow> nat \<Rightarrow> nat option" where
  "scheduler_scan ps k = find (\<lambda>i. p_state (ps ! i) = RUNNABLE) [k..<length ps]"

definition scheduler_begin :: "'a ksys_scheme \<Rightarrow> 'a ksys_scheme option" where
  "scheduler_begin s = ptable_acquire (s\<lparr>cpu := (cpu s)\<lparr>if_flag := True\<rparr>\<rparr>)"

definition scheduler_start :: "'a ksys_scheme \<Rightarrow> 'a ksys_scheme option" where
  "scheduler_start s = scheduler_begin (s\<lparr>curproc := None\<rparr>)"

definition scheduler_run :: "nat \<Rightarrow> 'a ksys_scheme \<Rightarrow> 'a ksys_scheme option" where
  "scheduler_run i s = do {
     s \<leftarrow> switchuvm (s\<lparr>curproc := Some i\<rparr>) (Some i);
     Some (upd_proc i (\<lambda>p. p\<lparr>p_state := RUNNING\<rparr>) s) }"

definition scheduler_back :: "'a ksys_scheme \<Rightarrow> 'a ksys_scheme" where
  "scheduler_back s = (switchkvm s)\<lparr>curproc := None\<rparr>"

text \<open>
  One turn of the inner loop of \<open>scheduler\<close>, at position \<open>k\<close> with \<open>ptable.lock\<close> held: either a
  process is run (the result is the state in which it starts and the position after it) or the end
  of the table is reached and the lock released; then \<open>scheduler_begin\<close> starts the next pass.
\<close>

definition scheduler_round :: "nat \<Rightarrow> 'a ksys_scheme \<Rightarrow> ((nat option \<times> nat) \<times> 'a ksys_scheme) option" where
  "scheduler_round k s =
     (case scheduler_scan (procs s) k of
        Some i \<Rightarrow> do { s \<leftarrow> scheduler_run i s; Some ((Some i, Suc i), s) }
      | None \<Rightarrow> do { s \<leftarrow> ptable_release s; Some ((None, 0), s) })"

definition sched :: "'a ksys_scheme \<Rightarrow> (bool \<times> 'a ksys_scheme) option" where
  "sched s = do {
     p \<leftarrow> myproc s;
     (h, c) \<leftarrow> holding 0 (cpu s) (ptable_lock s);
     if \<not> h then panic ''sched ptable.lock''
     else if ncli c \<noteq> 1 then panic ''sched locks''
     else if p_state p = RUNNING then panic ''sched running''
     else if if_flag c then panic ''sched interruptible''
     else Some (intena c, scheduler_back (s\<lparr>cpu := c\<rparr>)) }"

definition sched_return :: "bool \<Rightarrow> 'a ksys_scheme \<Rightarrow> 'a ksys_scheme" where
  "sched_return saved s = s\<lparr>cpu := (cpu s)\<lparr>intena := saved\<rparr>\<rparr>"

definition yield :: "'a ksys_scheme \<Rightarrow> (bool \<times> 'a ksys_scheme) option" where
  "yield s = do {
     s \<leftarrow> ptable_acquire s;
     (case curproc s of None \<Rightarrow> ub | Some i \<Rightarrow> sched (upd_proc i (\<lambda>p. p\<lparr>p_state := RUNNABLE\<rparr>) s)) }"

text \<open>The lock argument of \<open>sleep\<close> is \<open>None\<close> for \<open>ptable.lock\<close> itself.\<close>

definition sleep_enter :: "'a ksys_scheme \<Rightarrow> channel \<Rightarrow> spinlock option \<Rightarrow> ('a ksys_scheme \<times> spinlock option) option" where
  "sleep_enter s ch lk =
     (case lk of None \<Rightarrow> Some (s, None)
      | Some l \<Rightarrow> do {
          s \<leftarrow> ptable_acquire s;
          (c, l) \<leftarrow> release 0 (cpu s) l;
          Some (s\<lparr>cpu := c\<rparr>, Some l) })"

definition sleep :: "'a ksys_scheme \<Rightarrow> channel \<Rightarrow> spinlock option \<Rightarrow> (bool \<times> 'a ksys_scheme \<times> spinlock option) option" where
  "sleep s ch lk =
     (case curproc s of None \<Rightarrow> panic ''sleep''
      | Some i \<Rightarrow> do {
          (s, lk) \<leftarrow> sleep_enter s ch lk;
          (saved, s) \<leftarrow> sched (upd_proc i (\<lambda>p. p\<lparr>p_chan := Some ch, p_state := SLEEPING\<rparr>) s);
          Some (saved, s, lk) })"

text \<open>What \<open>sleep\<close> does after \<open>sched\<close> returns.\<close>

definition sleep_return :: "bool \<Rightarrow> 'a ksys_scheme \<Rightarrow> spinlock option \<Rightarrow> ('a ksys_scheme \<times> spinlock option) option" where
  "sleep_return saved s lk =
     (case curproc s of None \<Rightarrow> ub
      | Some i \<Rightarrow>
          let s = upd_proc i (\<lambda>p. p\<lparr>p_chan := None\<rparr>) (sched_return saved s) in
          (case lk of None \<Rightarrow> Some (s, None)
           | Some l \<Rightarrow> do {
               s \<leftarrow> ptable_release s;
               (c, l) \<leftarrow> acquire [] 0 (cpu s) l;
               Some (s\<lparr>cpu := c\<rparr>, Some l) }))"

definition wakeup1 :: "channel option \<Rightarrow> 'a ksys_scheme \<Rightarrow> 'a ksys_scheme" where
  "wakeup1 ch s = s\<lparr>procs := map (\<lambda>p. if p_state p = SLEEPING \<and> p_chan p = ch then p\<lparr>p_state := RUNNABLE\<rparr> else p) (procs s)\<rparr>"

definition wakeup :: "channel option \<Rightarrow> 'a ksys_scheme \<Rightarrow> 'a ksys_scheme option" where
  "wakeup ch s = do { s \<leftarrow> ptable_acquire s; ptable_release (wakeup1 ch s) }"

fun find_pid :: "proc list \<Rightarrow> int \<Rightarrow> nat \<Rightarrow> nat option" where
  "find_pid [] pid i = None"
| "find_pid (p # ps) pid i = (if p_pid p = pid then Some i else find_pid ps pid (Suc i))"

definition kill :: "'a ksys_scheme \<Rightarrow> int \<Rightarrow> (int \<times> 'a ksys_scheme) option" where
  "kill s pid = do {
     s \<leftarrow> ptable_acquire s;
     case find_pid (procs s) pid 0 of
       None \<Rightarrow> do { s \<leftarrow> ptable_release s; Some (-1, s) }
     | Some i \<Rightarrow> do {
         s \<leftarrow> ptable_release (upd_proc i (\<lambda>p. p\<lparr>p_killed := True,
           p_state := (if p_state p = SLEEPING then RUNNABLE else p_state p)\<rparr>) s);
         Some (0, s) } }"

section \<open>Waiting for children\<close>

definition reap :: "nat \<Rightarrow> 'a ksys_scheme \<Rightarrow> (int \<times> 'a ksys_scheme) option" where
  "reap i s = do {
     let p = procs s ! i;
     s \<leftarrow> kfree s (p_kstack p);
     let s = upd_proc i (\<lambda>p. p\<lparr>p_kstack := 0\<rparr>) s;
     s \<leftarrow> freevm s (p_pgdir p);
     Some (p_pid p, upd_proc i (\<lambda>p. p\<lparr>p_pid := 0, p_parent := None, p_name := (p_name p)[0 := 0],
       p_killed := False, p_state := UNUSED\<rparr>) s) }"

fun wait_scan :: "nat list \<Rightarrow> nat \<Rightarrow> bool \<Rightarrow> 'a ksys_scheme \<Rightarrow> (bool \<times> int option \<times> 'a ksys_scheme) option" where
  "wait_scan [] cur havekids s = Some (havekids, None, s)"
| "wait_scan (i # is) cur havekids s =
     (if p_parent (procs s ! i) \<noteq> Some cur then wait_scan is cur havekids s
      else if p_state (procs s ! i) = ZOMBIE then do {
        (pid, s) \<leftarrow> reap i s;
        Some (True, Some pid, s) }
      else wait_scan is cur True s)"

definition wait :: "'a ksys_scheme \<Rightarrow> (int option \<times> 'a ksys_scheme) option" where
  "wait s =
     (case curproc s of None \<Rightarrow> ub
      | Some cur \<Rightarrow> do {
          s \<leftarrow> ptable_acquire s;
          (havekids, r, s) \<leftarrow> wait_scan [0..<length (procs s)] cur False s;
          case r of
            Some pid \<Rightarrow> do { s \<leftarrow> ptable_release s; Some (Some pid, s) }
          | None \<Rightarrow>
              if \<not> havekids \<or> p_killed (procs s ! cur) then do { s \<leftarrow> ptable_release s; Some (Some (-1), s) }
              else do { (_, s, _) \<leftarrow> sleep s (ProcChan cur) None; Some (None, s) } })"

section \<open>Shared memory\<close>

text \<open>The last entry, scanning down, that is not present.\<close>

definition last_free_pte :: "memory \<Rightarrow> addr \<Rightarrow> nat option" where
  "last_free_pte m pgtable =
     find (\<lambda>j. load32 m (pgtable + 4 * word_of_nat j) AND PTE_P = 0) (rev [0..<NPTENTRIES])"

fun map_last_loop :: "nat list \<Rightarrow> addr \<Rightarrow> u32 \<Rightarrow> u32 \<Rightarrow> 'a ksys_scheme \<Rightarrow> (addr \<times> 'a ksys_scheme) option" where
  "map_last_loop [] pd pa perm s = Some (0, s)"
| "map_last_loop (i # is) pd pa perm s =
     (let pde = pd + 4 * word_of_nat i;
          missing = (load32 (mem s) pde AND PTE_P = 0);
          (pg, s) = (if missing then kalloc s else (0, s)) in
      if missing \<and> pg = 0 then Some (0, s)
      else
        let s = (if missing then s\<lparr>mem := memset (mem s) pg 0 PGSIZE\<rparr> else s);
            s = (if missing then s\<lparr>mem := store32 (mem s) pde (V2P pg OR PTE_P OR PTE_W OR PTE_U)\<rparr> else s);
            pgtable = P2V (PTE_ADDR (load32 (mem s) pde)) in
        (case last_free_pte (mem s) pgtable of
           Some j \<Rightarrow> do {
             s \<leftarrow> switchuvm (s\<lparr>mem := store32 (mem s) (pgtable + 4 * word_of_nat j) (pa OR PTE_P OR perm)\<rparr>) (curproc s);
             Some (PGADDR (word_of_nat i) (word_of_nat j) 0, s) }
         | None \<Rightarrow> map_last_loop is pd pa perm s))"

definition map_last_page :: "'a ksys_scheme \<Rightarrow> u32 \<Rightarrow> u32 \<Rightarrow> (addr \<times> 'a ksys_scheme) option" where
  "map_last_page s pa perm = do {
     p \<leftarrow> myproc s;
     map_last_loop (rev [0..<512]) (p_pgdir p) pa perm s }"

definition sys_shm_open :: "'a ksys_scheme \<Rightarrow> (u32 \<times> 'a ksys_scheme) option" where
  "sys_shm_open s =
     (case curproc s of None \<Rightarrow> ub
      | Some cur \<Rightarrow>
          if p_shm_va (procs s ! cur) \<noteq> 0 then Some (p_shm_va (procs s ! cur), s)
          else
            let (va, s) = kalloc s in
            if va = 0 then Some (0, s)
            else do {
              let pa = V2P va;
              (uva, s) \<leftarrow> map_last_page s pa (PTE_U OR PTE_W);
              if uva = 0 then Some (0, s)
              else
                let (idx, s) = shm_add s pa in
                if idx < 0 then Some (0, s)
                else Some (uva, upd_proc cur (\<lambda>p. p\<lparr>p_shm_va := uva, p_shm_idx := idx\<rparr>) s) })"

definition sys_shm_get :: "'a ksys_scheme \<Rightarrow> u32 option" where
  "sys_shm_get s = do { p \<leftarrow> myproc s; Some (p_shm_va p) }"

text \<open>The second \<open>walkpgdir\<close> of the kernel, local to \<open>proc.c\<close>.\<close>

definition proc_walkpgdir :: "memory \<Rightarrow> addr \<Rightarrow> addr \<Rightarrow> addr" where
  "proc_walkpgdir m pd uva =
     (let pde = load32 m (pd + 4 * PDX uva) in
      if pde AND PTE_P = 0 then 0 else P2V (PTE_ADDR pde) + 4 * PTX uva)"

text \<open>On success \<open>sys_shm_close\<close> ends without a \<open>return\<close>: the result is \<open>None\<close>.\<close>

definition sys_shm_close :: "'a ksys_scheme \<Rightarrow> (int option \<times> 'a ksys_scheme) option" where
  "sys_shm_close s =
     (case curproc s of None \<Rightarrow> ub
      | Some cur \<Rightarrow>
          let p = procs s ! cur in
          if p_shm_va p = 0 then Some (Some (-1), s)
          else
            let pte = proc_walkpgdir (mem s) (p_pgdir p) (p_shm_va p) in
            if pte = 0 then ub
            else do {
              (r, s) \<leftarrow> shm_remove s (PTE_ADDR (load32 (mem s) pte));
              if r < 0 then Some (Some (-1), s)
              else
                let s = s\<lparr>mem := store32 (mem s) pte 0\<rparr>
                in Some (None, upd_proc cur (\<lambda>p. p\<lparr>p_shm_idx := -1, p_shm_va := 0\<rparr>) s) })"

section \<open>System calls\<close>

text \<open>\<open>sys_greet\<close> only prints; without a valid string it prints an uninitialised pointer.\<close>

definition sys_greet :: "'a ksys_scheme \<Rightarrow> 'a ksys_scheme option" where
  "sys_greet s = do {
     (r, s) \<leftarrow> argstr s 0;
     case r of None \<Rightarrow> ub | Some _ \<Rightarrow> Some s }"

definition sys_wait :: "'a ksys_scheme \<Rightarrow> (int option \<times> 'a ksys_scheme) option" where
  "sys_wait s = wait s"

definition sys_kill :: "'a ksys_scheme \<Rightarrow> (int \<times> 'a ksys_scheme) option" where
  "sys_kill s = do {
     (r, s) \<leftarrow> argint s 0;
     case r of None \<Rightarrow> Some (-1, s) | Some pid \<Rightarrow> kill s (sint pid) }"

definition sys_getpid :: "'a ksys_scheme \<Rightarrow> int option" where
  "sys_getpid s = do { p \<leftarrow> myproc s; Some (p_pid p) }"

text \<open>\<open>sys_sbrk\<close> after its argument is read.\<close>

definition sbrk_by :: "'a ksys_scheme \<Rightarrow> u32 \<Rightarrow> (int \<times> 'a ksys_scheme) option" where
  "sbrk_by s n = do {
     p \<leftarrow> myproc s;
     (r, s) \<leftarrow> growproc s n;
     if r < 0 then Some (-1, s) else Some (sint (p_sz p), s) }"

definition sys_sbrk :: "'a ksys_scheme \<Rightarrow> (int \<times> 'a ksys_scheme) option" where
  "sys_sbrk s = do {
     (r, s) \<leftarrow> argint s 0;
     case r of None \<Rightarrow> Some (-1, s) | Some n \<Rightarrow> sbrk_by s n }"

text \<open>\<open>sys_sleep\<close> from the test of its loop on; it starts over here when the process is woken.\<close>

definition ticks_acquire :: "'a ksys_scheme \<Rightarrow> 'a ksys_scheme option" where
  "ticks_acquire s = do {
     (c, lk) \<leftarrow> acquire [] 0 (cpu s) (tickslock s);
     Some (s\<lparr>cpu := c, tickslock := lk\<rparr>) }"

definition ticks_release :: "'a ksys_scheme \<Rightarrow> 'a ksys_scheme option" where
  "ticks_release s = do {
     (c, lk) \<leftarrow> release 0 (cpu s) (tickslock s);
     Some (s\<lparr>cpu := c, tickslock := lk\<rparr>) }"

definition sys_sleep_loop :: "u32 \<Rightarrow> u32 \<Rightarrow> 'a ksys_scheme \<Rightarrow> (int option \<times> 'a ksys_scheme) option" where
  "sys_sleep_loop ticks0 n s =
     (if ticks s - ticks0 < n then do {
        p \<leftarrow> myproc s;
        if p_killed p then do { s \<leftarrow> ticks_release s; Some (Some (-1), s) }
        else do {
          (_, s, lk) \<leftarrow> sleep s TicksChan (Some (tickslock s));
          Some (None, s\<lparr>tickslock := the lk\<rparr>) } }
      else do { s \<leftarrow> ticks_release s; Some (Some 0, s) })"

definition sys_sleep :: "'a ksys_scheme \<Rightarrow> (int option \<times> 'a ksys_scheme) option" where
  "sys_sleep s = do {
     (r, s) \<leftarrow> argint s 0;
     case r of None \<Rightarrow> Some (Some (-1), s)
     | Some n \<Rightarrow> do {
         s \<leftarrow> ticks_acquire s;
         sys_sleep_loop (ticks s) n s } }"

definition sys_uptime :: "'a ksys_scheme \<Rightarrow> (u32 \<times> 'a ksys_scheme) option" where
  "sys_uptime s = do {
     s \<leftarrow> ticks_acquire s;
     let xticks = ticks s;
     s \<leftarrow> ticks_release s;
     Some (xticks, s) }"

end
