(* ===== verification/Proc_Sched.thy ===== *)
theory Proc_Sched
  imports Proc
begin

text \<open>
  The scheduling discipline of \<open>proc.c\<close>: the lock of the process table around every context switch,
  the states of the processes, sleeping and waking, and fairness of the scheduler.
\<close>

section \<open>The lock of the process table\<close>

lemma ptable_acquire_free:
  assumes "irq_ok (cpu s)" "locked (ptable_lock s) = 0"
  shows "ptable_acquire s = Some (s\<lparr>cpu := pushcli (cpu s),
    ptable_lock := (ptable_lock s)\<lparr>locked := 1, lk_cpu := Some 0, pcs := []\<rparr>\<rparr>)"
  using assms by (simp add: ptable_acquire_def acquire_free)

lemma acquire_was_free:
  assumes "irq_ok c" "acquire callers i c lk = Some r"
  shows "locked lk = 0"
proof -
  have "irq_ok (pushcli c)" "0 < ncli (pushcli c)" using assms(1) by (simp_all add: irq_ok_def)
  then show ?thesis using assms(2) by (auto simp: acquire_def holding_nested split: if_splits)
qed

lemma ptable_acquire_was_free:
  "irq_ok (cpu s) \<Longrightarrow> ptable_acquire s = Some t \<Longrightarrow> locked (ptable_lock s) = 0"
  by (auto simp: ptable_acquire_def bind_eq_Some_conv dest: acquire_was_free)

lemma release_held:
  assumes "irq_ok c" "0 < ncli c" "locked lk \<noteq> 0" "lk_cpu lk = Some i"
  obtains c' where "popcli c = Some c'"
    "release i c lk = Some (c', lk\<lparr>pcs := (pcs lk)[0 := 0], lk_cpu := None, locked := 0\<rparr>)"
proof -
  obtain c' where "popcli c = Some c'" using popcli_ok [OF assms(1,2)] by auto
  then show thesis using assms by (intro that) (simp_all add: release_def holding_nested)
qed

lemma release_was_held:
  assumes "irq_ok c" "0 < ncli c" "release i c lk = Some (c', lk')"
  shows "locked lk \<noteq> 0" "lk_cpu lk = Some i" "popcli c = Some c'"
    "lk' = lk\<lparr>pcs := (pcs lk)[0 := 0], lk_cpu := None, locked := 0\<rparr>"
  using assms by (auto simp: release_def holding_nested bind_eq_Some_conv split: if_splits)

lemma popcli_irq: "popcli c = Some c' \<Longrightarrow> irq_ok c \<Longrightarrow> ncli c' = 0 \<Longrightarrow> if_flag c' = intena c"
  by (auto simp: popcli_def irq_ok_def Let_def split: if_splits)

section \<open>Invariant\<close>

text \<open>
  The CPU runs exactly the process it is marked with; without a process it is in the scheduler, which
  between two passes holds no lock and otherwise holds \<open>ptable.lock\<close> and no other.
\<close>

definition lock_ok :: "'a ksys_scheme \<Rightarrow> bool" where
  "lock_ok s \<longleftrightarrow> irq_ok (cpu s) \<and> (locked (ptable_lock s) \<noteq> 0 \<longleftrightarrow> lk_cpu (ptable_lock s) = Some 0)
     \<and> (locked (ptable_lock s) \<noteq> 0 \<longrightarrow> 0 < ncli (cpu s))"

definition running_ok :: "'a ksys_scheme \<Rightarrow> bool" where
  "running_ok s \<longleftrightarrow> (\<forall>i < length (procs s). p_state (procs s ! i) = RUNNING \<longleftrightarrow> curproc s = Some i)
     \<and> (\<forall>i. curproc s = Some i \<longrightarrow> i < length (procs s))"

definition scheduler_ok :: "'a ksys_scheme \<Rightarrow> bool" where
  "scheduler_ok s \<longleftrightarrow> (curproc s = None \<longrightarrow> ncli (cpu s) = (if locked (ptable_lock s) \<noteq> 0 then 1 else 0))"

definition sched_inv :: "'a ksys_scheme \<Rightarrow> bool" where
  "sched_inv s \<longleftrightarrow> running_ok s \<and> lock_ok s \<and> scheduler_ok s"

text \<open>Process states change only this way outside the scheduler.\<close>

lemma running_ok_upd:
  assumes "running_ok s" "p_state (f (procs s ! i)) \<noteq> RUNNING" "p_state (procs s ! i) \<noteq> RUNNING"
  shows "running_ok (upd_proc i f s)"
proof (cases "i < length (procs s)")
  case True
  then show ?thesis using assms by (auto simp: running_ok_def upd_proc_def nth_list_update)
next
  case False
  then show ?thesis using assms(1) by (simp add: running_ok_def upd_proc_def list_update_beyond)
qed

lemma running_ok_cong:
  "procs t = procs s \<Longrightarrow> curproc t = curproc s \<Longrightarrow> running_ok t = running_ok s"
  by (simp add: running_ok_def)

lemma running_ok_leave:
  assumes "running_ok s" "curproc s = Some i" "p_state (f (procs s ! i)) \<noteq> RUNNING"
    "procs t = procs (upd_proc i f s)" "curproc t = None"
  shows "running_ok t"
  using assms by (auto simp: running_ok_def upd_proc_def nth_list_update)

lemma ptable_acquire_lock_ok:
  assumes "lock_ok s" "ptable_acquire s = Some t"
  shows "lock_ok t" "locked (ptable_lock t) \<noteq> 0" "locked (ptable_lock s) = 0" "ncli (cpu t) = ncli (cpu s) + 1" "procs t = procs s" "curproc t = curproc s" "kpgdir t = kpgdir s"
proof -
  have irq: "irq_ok (cpu s)" using assms(1) by (simp add: lock_ok_def)
  have free: "locked (ptable_lock s) = 0" by (rule ptable_acquire_was_free [OF irq assms(2)])
  have t: "t = s\<lparr>cpu := pushcli (cpu s), ptable_lock := (ptable_lock s)\<lparr>locked := 1, lk_cpu := Some 0, pcs := []\<rparr>\<rparr>"
    using assms(2) ptable_acquire_free [OF irq free] by simp
  show "lock_ok t" using irq by (simp add: t lock_ok_def) (simp add: irq_ok_def)
  show "locked (ptable_lock t) \<noteq> 0" "ncli (cpu t) = ncli (cpu s) + 1" "procs t = procs s" "curproc t = curproc s" "kpgdir t = kpgdir s"
    by (simp_all add: t)
  show "locked (ptable_lock s) = 0" by (fact free)
qed

lemma ptable_release_ok:
  assumes "lock_ok s" "locked (ptable_lock s) \<noteq> 0"
  shows "\<exists>t. ptable_release s = Some t \<and> lock_ok t \<and> locked (ptable_lock t) = 0 \<and> ncli (cpu t) = ncli (cpu s) - 1
    \<and> procs t = procs s \<and> curproc t = curproc s \<and> kpgdir t = kpgdir s \<and> mem t = mem s
    \<and> (ncli (cpu t) = 0 \<longrightarrow> if_flag (cpu t) = intena (cpu s))"
proof -
  have irq: "irq_ok (cpu s)" "0 < ncli (cpu s)" and held: "lk_cpu (ptable_lock s) = Some 0"
    using assms by (simp_all add: lock_ok_def)
  obtain c' where c': "popcli (cpu s) = Some c'" "release 0 (cpu s) (ptable_lock s) = Some (c',
      (ptable_lock s)\<lparr>pcs := (pcs (ptable_lock s))[0 := 0], lk_cpu := None, locked := 0\<rparr>)"
    by (rule release_held [OF irq assms(2) held])
  show ?thesis
    using popcli_irq_ok [OF irq(1) c'(1)] popcli_ncli [OF c'(1)] popcli_irq [OF c'(1) irq(1)]
    by (simp add: ptable_release_def c'(2) lock_ok_def)
qed

lemma ptable_release_lock_ok:
  assumes "lock_ok s" "locked (ptable_lock s) \<noteq> 0" "ptable_release s = Some t"
  shows "lock_ok t" "locked (ptable_lock t) = 0" "ncli (cpu t) = ncli (cpu s) - 1" "procs t = procs s" "curproc t = curproc s"
  using ptable_release_ok [OF assms(1,2)] assms(3) by auto

lemma lock_ok_upd_proc [simp]: "lock_ok (upd_proc i f s) = lock_ok s"
  by (simp add: lock_ok_def upd_proc_def)

lemma scheduler_ok_upd_proc [simp]: "scheduler_ok (upd_proc i f s) = scheduler_ok s"
  by (simp add: scheduler_ok_def upd_proc_def)

lemma upd_proc_fields [simp]:
  "cpu (upd_proc i f s) = cpu s" "ptable_lock (upd_proc i f s) = ptable_lock s"
  "curproc (upd_proc i f s) = curproc s" "kpgdir (upd_proc i f s) = kpgdir s"
  "procs (upd_proc i f s) = (procs s)[i := f (procs s ! i)]" "mem (upd_proc i f s) = mem s"
  "tickslock (upd_proc i f s) = tickslock s" "ticks (upd_proc i f s) = ticks s"
  by (simp_all add: upd_proc_def)

section \<open>Leaving the CPU\<close>

lemma sched_ok:
  assumes "lock_ok s" "locked (ptable_lock s) \<noteq> 0" "ncli (cpu s) = 1" "curproc s = Some i"
    "i < length (procs s)" "p_state (procs s ! i) \<noteq> RUNNING"
  shows "sched s = Some (intena (cpu s), scheduler_back s)"
  using assms by (simp add: sched_def myproc_def lock_ok_def holding_nested irq_ok_def)

lemma sched_was_ok:
  assumes "lock_ok s" "sched s = Some (b, t)"
  shows "locked (ptable_lock s) \<noteq> 0" "ncli (cpu s) = 1" "t = scheduler_back s" "b = intena (cpu s)"
proof -
  have irq: "irq_ok (cpu s)" using assms(1) by (simp add: lock_ok_def)
  obtain c where c: "holding 0 (cpu s) (ptable_lock s) = Some (locked (ptable_lock s) \<noteq> 0 \<and> lk_cpu (ptable_lock s) = Some 0, c)"
      "ncli c = ncli (cpu s)"
    using holding_some [OF irq, of 0 "ptable_lock s"] by auto
  show 1: "locked (ptable_lock s) \<noteq> 0" and 2: "ncli (cpu s) = 1"
    using assms(2) c by (auto simp: sched_def bind_eq_Some_conv split: if_splits)
  have "c = cpu s" using c(1) holding_nested [OF irq, of 0 "ptable_lock s"] 2 by simp
  then show "t = scheduler_back s" "b = intena (cpu s)"
    using assms(2) c by (auto simp: sched_def bind_eq_Some_conv split: if_splits)
qed

lemma scheduler_back_fields [simp]:
  "curproc (scheduler_back s) = None" "procs (scheduler_back s) = procs s"
  "ptable_lock (scheduler_back s) = ptable_lock s" "ncli (cpu (scheduler_back s)) = ncli (cpu s)"
  "cr3 (cpu (scheduler_back s)) = V2P (kpgdir s)" "lock_ok (scheduler_back s) = lock_ok s"
  "mem (scheduler_back s) = mem s" "intena (cpu (scheduler_back s)) = intena (cpu s)"
  by (simp_all add: scheduler_back_def switchkvm_def lock_ok_def irq_ok_def)

text \<open>A running process hands the CPU to the scheduler: its state is left \<open>f\<close>-updated.\<close>

lemma sched_inv_leave:
  assumes "sched_inv s" "curproc s = Some i" "lock_ok u" "procs u = procs (upd_proc i f s)"
    "p_state (f (procs s ! i)) \<noteq> RUNNING" "sched u = Some (b, t)"
  shows "sched_inv t"
proof -
  have t: "locked (ptable_lock u) \<noteq> 0" "ncli (cpu u) = 1" "t = scheduler_back u"
    using sched_was_ok [OF assms(3,6)] by simp_all
  have "running_ok t"
    by (rule running_ok_leave [where s = s and i = i and f = f]) (use assms t in \<open>simp_all add: sched_inv_def\<close>)
  then show ?thesis
    using t assms(3) by (simp add: sched_inv_def scheduler_ok_def)
qed

lemma lock_ok_release_other:
  assumes "lock_ok s" "locked (ptable_lock s) \<noteq> 0" "1 < ncli (cpu s)" "release 0 (cpu s) lk = Some (c, lk')"
  shows "lock_ok (s\<lparr>cpu := c\<rparr>)" "locked lk' = 0" "ncli c = ncli (cpu s) - 1"
proof -
  have irq: "irq_ok (cpu s)" "0 < ncli (cpu s)" using assms by (simp_all add: lock_ok_def)
  have c: "popcli (cpu s) = Some c" "locked lk' = 0"
    using release_was_held [OF irq assms(4)] by simp_all
  show "lock_ok (s\<lparr>cpu := c\<rparr>)" "locked lk' = 0" "ncli c = ncli (cpu s) - 1"
    using c popcli_irq_ok [OF irq(1) c(1)] popcli_ncli [OF c(1)] assms by (simp_all add: lock_ok_def)
qed

lemma yield_inv:
  assumes "sched_inv s" "yield s = Some (b, t)"
  shows "sched_inv t"
proof -
  obtain u i where u: "ptable_acquire s = Some u" "curproc u = Some i"
      "sched (upd_proc i (\<lambda>p. p\<lparr>p_state := RUNNABLE\<rparr>) u) = Some (b, t)"
    using assms(2) by (auto simp: yield_def bind_eq_Some_conv split: option.splits)
  have ok: "lock_ok s" using assms(1) by (simp add: sched_inv_def)
  note acq = ptable_acquire_lock_ok [OF ok u(1)]
  show ?thesis
    by (rule sched_inv_leave [OF assms(1), where i = i and u = "upd_proc i (\<lambda>p. p\<lparr>p_state := RUNNABLE\<rparr>) u" and f = "\<lambda>p. p\<lparr>p_state := RUNNABLE\<rparr>"])
      (use acq u in simp_all)
qed

lemma sleep_enter_ok:
  assumes "lock_ok s" "sleep_enter s ch lk = Some (t, lk')" "lk \<noteq> None \<longrightarrow> 0 < ncli (cpu s)"
  shows "lock_ok t" "procs t = procs s" "curproc t = curproc s" "kpgdir t = kpgdir s"
    "\<And>l. lk' = Some l \<Longrightarrow> locked l = 0"
proof -
  have "lock_ok t \<and> procs t = procs s \<and> curproc t = curproc s \<and> kpgdir t = kpgdir s \<and> (\<forall>l. lk' = Some l \<longrightarrow> locked l = 0)"
  proof (cases lk)
    case None
    then show ?thesis using assms by (simp add: sleep_enter_def)
  next
    case (Some l)
    then obtain u c l' where u: "ptable_acquire s = Some u" "release 0 (cpu u) l = Some (c, l')" "t = u\<lparr>cpu := c\<rparr>" "lk' = Some l'"
      using assms(2) by (auto simp: sleep_enter_def bind_eq_Some_conv)
    note acq = ptable_acquire_lock_ok [OF assms(1) u(1)]
    have "1 < ncli (cpu u)" using acq assms(3) Some by simp
    from lock_ok_release_other [OF acq(1,2) this u(2)] show ?thesis using u acq by simp
  qed
  then show "lock_ok t" "procs t = procs s" "curproc t = curproc s" "kpgdir t = kpgdir s"
    "\<And>l. lk' = Some l \<Longrightarrow> locked l = 0" by auto
qed

lemma sleep_inv:
  assumes "sched_inv s" "sleep s ch lk = Some (b, t, lk')" "lk \<noteq> None \<longrightarrow> 0 < ncli (cpu s)"
  shows "sched_inv t"
proof -
  obtain u i where u: "curproc s = Some i" "sleep_enter s ch lk = Some (u, lk')"
      "sched (upd_proc i (\<lambda>p. p\<lparr>p_chan := Some ch, p_state := SLEEPING\<rparr>) u) = Some (b, t)"
    using assms(2) by (auto simp: sleep_def bind_eq_Some_conv split: option.splits)
  have ok: "lock_ok s" using assms(1) by (simp add: sched_inv_def)
  note ent = sleep_enter_ok [OF ok u(2) assms(3)]
  show ?thesis
    by (rule sched_inv_leave [OF assms(1) u(1), where u = "upd_proc i (\<lambda>p. p\<lparr>p_chan := Some ch, p_state := SLEEPING\<rparr>) u"
          and f = "\<lambda>p. p\<lparr>p_chan := Some ch, p_state := SLEEPING\<rparr>"]) (use ent u in simp_all)
qed

section \<open>The scheduler\<close>

lemma scheduler_scan_Some:
  assumes "scheduler_scan ps k = Some i"
  shows "k \<le> i" "i < length ps" "p_state (ps ! i) = RUNNABLE" "\<And>j. k \<le> j \<Longrightarrow> j < i \<Longrightarrow> p_state (ps ! j) \<noteq> RUNNABLE"
proof -
  obtain n where n: "n < length [k..<length ps]" "p_state (ps ! ([k..<length ps] ! n)) = RUNNABLE" "i = [k..<length ps] ! n"
      "\<forall>m<n. p_state (ps ! ([k..<length ps] ! m)) \<noteq> RUNNABLE"
    using assms unfolding scheduler_scan_def find_Some_iff by auto
  have i: "i = k + n" "k + n < length ps" using n by auto
  show "k \<le> i" "i < length ps" "p_state (ps ! i) = RUNNABLE" using i n by auto
  fix j assume "k \<le> j" "j < i"
  then have "j - k < n" "[k..<length ps] ! (j - k) = j" using i by auto
  then show "p_state (ps ! j) \<noteq> RUNNABLE" using n(4) by metis
qed

lemma scheduler_scan_None: "scheduler_scan ps k = None \<longleftrightarrow> (\<forall>j. k \<le> j \<and> j < length ps \<longrightarrow> p_state (ps ! j) \<noteq> RUNNABLE)"
  unfolding scheduler_scan_def find_None_iff by auto

lemma switchuvm_frame:
  assumes "switchuvm s p = Some t" "irq_ok (cpu s)"
  shows "procs t = procs s" "curproc t = curproc s" "ptable_lock t = ptable_lock s" "irq_ok (cpu t)" "ncli (cpu t) = ncli (cpu s)"
proof -
  obtain c where c: "popcli c = Some (cpu t)" "irq_ok c" "ncli c = ncli (cpu s) + 1" "t = s\<lparr>cpu := cpu t\<rparr>"
    using assms by (fastforce simp: switchuvm_def bind_eq_Some_conv Let_def irq_ok_def split: option.splits if_splits)
  show "irq_ok (cpu t)" "ncli (cpu t) = ncli (cpu s)" using popcli_irq_ok popcli_ncli c by fastforce+
  show "procs t = procs s" "curproc t = curproc s" "ptable_lock t = ptable_lock s"
    by (subst c(4), simp)+
qed

lemma scheduler_run_inv:
  assumes "sched_inv s" "curproc s = None" "i < length (procs s)" "scheduler_run i s = Some t"
  shows "sched_inv t"
proof -
  obtain u where u: "switchuvm (s\<lparr>curproc := Some i\<rparr>) (Some i) = Some u" "t = upd_proc i (\<lambda>p. p\<lparr>p_state := RUNNING\<rparr>) u"
    using assms(4) by (auto simp: scheduler_run_def bind_eq_Some_conv)
  have ok: "lock_ok s" "running_ok s" using assms(1) by (simp_all add: sched_inv_def)
  have sw: "procs u = procs s" "curproc u = Some i" "ptable_lock u = ptable_lock s" "irq_ok (cpu u)" "ncli (cpu u) = ncli (cpu s)"
    using switchuvm_frame [OF u(1)] ok by (simp_all add: lock_ok_def)
  have "running_ok t" using ok(2) assms(2,3) by (auto simp: running_ok_def u(2) sw nth_list_update)
  moreover have "lock_ok t" using ok(1) by (simp add: u(2) lock_ok_def sw)
  ultimately show ?thesis by (simp add: sched_inv_def scheduler_ok_def u(2) sw)
qed

lemma scheduler_round_inv:
  assumes "sched_inv s" "curproc s = None" "locked (ptable_lock s) \<noteq> 0" "scheduler_round k s = Some (r, t)"
  shows "sched_inv t"
proof (cases "scheduler_scan (procs s) k")
  case None
  then have "ptable_release s = Some t" using assms(4) by (auto simp: scheduler_round_def bind_eq_Some_conv)
  from ptable_release_lock_ok [OF _ assms(3) this] show ?thesis
    using assms by (simp add: sched_inv_def scheduler_ok_def running_ok_def)
next
  case (Some i)
  then have "scheduler_run i s = Some t" using assms(4) by (auto simp: scheduler_round_def bind_eq_Some_conv)
  then show ?thesis using scheduler_run_inv [OF assms(1,2)] scheduler_scan_Some(2) [OF Some] by simp
qed

lemma scheduler_begin_inv:
  assumes "sched_inv s" "curproc s = None" "locked (ptable_lock s) = 0" "scheduler_begin s = Some t"
  shows "sched_inv t"
proof -
  let ?u = "s\<lparr>cpu := (cpu s)\<lparr>if_flag := True\<rparr>\<rparr>"
  have "ncli (cpu s) = 0" using assms by (simp add: sched_inv_def scheduler_ok_def)
  then have ok: "lock_ok ?u" using assms by (simp add: sched_inv_def lock_ok_def irq_ok_def)
  have t: "ptable_acquire ?u = Some t" using assms(4) by (simp add: scheduler_begin_def)
  show ?thesis using ptable_acquire_lock_ok [OF ok t] assms \<open>ncli (cpu s) = 0\<close>
    by (simp add: sched_inv_def scheduler_ok_def running_ok_def)
qed

section \<open>Other operations on the process table\<close>

lemma wakeup1_fields [simp]:
  "cpu (wakeup1 ch s) = cpu s" "ptable_lock (wakeup1 ch s) = ptable_lock s" "curproc (wakeup1 ch s) = curproc s"
  "length (procs (wakeup1 ch s)) = length (procs s)" "lock_ok (wakeup1 ch s) = lock_ok s" "kpgdir (wakeup1 ch s) = kpgdir s"
  by (simp_all add: wakeup1_def lock_ok_def)

lemma wakeup1_nth: "i < length (procs s) \<Longrightarrow> procs (wakeup1 ch s) ! i =
    (if p_state (procs s ! i) = SLEEPING \<and> p_chan (procs s ! i) = ch then (procs s ! i)\<lparr>p_state := RUNNABLE\<rparr> else procs s ! i)"
  by (simp add: wakeup1_def)

lemma wakeup1_running: "running_ok s \<Longrightarrow> running_ok (wakeup1 ch s)"
  by (auto simp: running_ok_def wakeup1_nth split: if_splits)

text \<open>An update of the table under its lock that neither starts nor stops a process on the CPU.\<close>

lemma sched_inv_locked:
  assumes "sched_inv s" "ptable_acquire s = Some u" "lock_ok v" "running_ok v"
    "cpu v = cpu u" "ptable_lock v = ptable_lock u" "curproc v = curproc s" "ptable_release v = Some t"
  shows "sched_inv t"
proof -
  have ok: "lock_ok s" using assms(1) by (simp add: sched_inv_def)
  note acq = ptable_acquire_lock_ok [OF ok assms(2)]
  have "locked (ptable_lock v) \<noteq> 0" using acq assms by simp
  note rel = ptable_release_lock_ok [OF assms(3) this assms(8)]
  show ?thesis using rel acq assms by (simp add: sched_inv_def scheduler_ok_def running_ok_def)
qed

lemma wakeup_inv:
  assumes "sched_inv s" "wakeup ch s = Some t"
  shows "sched_inv t"
proof -
  obtain u where u: "ptable_acquire s = Some u" "ptable_release (wakeup1 ch u) = Some t"
    using assms(2) by (auto simp: wakeup_def bind_eq_Some_conv)
  have ok: "lock_ok s" "running_ok s" using assms(1) by (simp_all add: sched_inv_def)
  note acq = ptable_acquire_lock_ok [OF ok(1) u(1)]
  have "running_ok u" using ok(2) acq by (simp add: running_ok_def)
  then show ?thesis
    by (intro sched_inv_locked [OF assms(1) u(1) _ _ _ _ _ u(2)] wakeup1_running) (use acq in simp_all)
qed

lemma kill_inv:
  assumes "sched_inv s" "kill s pid = Some (r, t)"
  shows "sched_inv t"
proof -
  let ?f = "\<lambda>p. p\<lparr>p_killed := True, p_state := (if p_state p = SLEEPING then RUNNABLE else p_state p)\<rparr>"
  obtain u where u: "ptable_acquire s = Some u" using assms(2) by (auto simp: kill_def bind_eq_Some_conv)
  have ok: "lock_ok s" "running_ok s" using assms(1) by (simp_all add: sched_inv_def)
  note acq = ptable_acquire_lock_ok [OF ok(1) u(1)]
  have run: "running_ok u" using ok(2) acq by (simp add: running_ok_def)
  show ?thesis
  proof (cases "find_pid (procs u) pid 0")
    case None
    then have "ptable_release u = Some t" using assms(2) u by (auto simp: kill_def bind_eq_Some_conv)
    then show ?thesis by (intro sched_inv_locked [OF assms(1) u acq(1) run]) (use acq in simp_all)
  next
    case (Some i)
    then have rel: "ptable_release (upd_proc i ?f u) = Some t" using assms(2) u by (auto simp: kill_def bind_eq_Some_conv)
    have "running_ok (upd_proc i ?f u)" using run
      by (cases "i < length (procs u)") (auto simp: running_ok_def nth_list_update list_update_beyond)
    then show ?thesis by (intro sched_inv_locked [OF assms(1) u _ _ _ _ _ rel]) (use acq in simp_all)
  qed
qed

lemma find_unused_Some: "find_unused ps k = Some i \<Longrightarrow> k \<le> i \<and> i < k + length ps \<and> p_state (ps ! (i - k)) = UNUSED"
  by (induction ps k rule: find_unused.induct) (auto split: if_splits simp: nth_Cons')

lemma find_unused_None: "find_unused ps k = None \<longleftrightarrow> (\<forall>p \<in> set ps. p_state p \<noteq> UNUSED)"
  by (induction ps k rule: find_unused.induct) auto

text \<open>The part of \<open>allocproc\<close> after the slot is chosen, on the slot alone.\<close>

lemma allocproc_cases:
  assumes "allocproc s = Some (r, t)"
  obtains u where "ptable_acquire s = Some u" "find_unused (procs u) 0 = None" "r = None" "ptable_release u = Some t"
  | u v i pid f where "ptable_acquire s = Some u" "find_unused (procs u) 0 = Some i"
      "get_smallest_pid (upd_proc i (\<lambda>p. p\<lparr>p_state := EMBRYO\<rparr>) u) = Some pid"
      "ptable_release (upd_proc i (\<lambda>p. p\<lparr>p_pid := pid\<rparr>) (upd_proc i (\<lambda>p. p\<lparr>p_state := EMBRYO\<rparr>) u)) = Some v"
      "procs t = (procs v)[i := f (procs v ! i)]" "curproc t = curproc v" "cpu t = cpu v" "ptable_lock t = ptable_lock v"
      "(r = None \<and> f = (\<lambda>p. p\<lparr>p_kstack := 0, p_state := UNUSED\<rparr>)) \<or>
       (r = Some i \<and> (\<forall>p. p_state (f p) = p_state p \<and> p_pid (f p) = p_pid p))"
proof -
  obtain u where u: "ptable_acquire s = Some u" using assms by (auto simp: allocproc_def bind_eq_Some_conv)
  show thesis
  proof (cases "find_unused (procs u) 0")
    case None
    then show thesis using assms u by (intro that(1) [OF u]) (auto simp: allocproc_def bind_eq_Some_conv)
  next
    case (Some i)
    then obtain pid v where pv: "get_smallest_pid (upd_proc i (\<lambda>p. p\<lparr>p_state := EMBRYO\<rparr>) u) = Some pid"
      "ptable_release (upd_proc i (\<lambda>p. p\<lparr>p_pid := pid\<rparr>) (upd_proc i (\<lambda>p. p\<lparr>p_state := EMBRYO\<rparr>) u)) = Some v"
      using assms u by (auto simp: allocproc_def bind_eq_Some_conv Let_def)
    have i: "i < length (procs v)"
      using find_unused_Some [OF Some] pv(2) by (auto simp: ptable_release_def bind_eq_Some_conv)
    obtain pg w where w: "kalloc v = (pg, w)" by fastforce
    have wf: "procs w = procs v" "curproc w = curproc v" "cpu w = cpu v" "ptable_lock w = ptable_lock v"
      using kalloc_ksys(2,3,5) [of v] kalloc_ksys(9) [of v] w by simp_all
    show thesis
    proof (cases "pg = 0")
      case True
      have "r = None" "t = upd_proc i (\<lambda>p. p\<lparr>p_state := UNUSED\<rparr>) (upd_proc i (\<lambda>p. p\<lparr>p_kstack := 0\<rparr>) w)"
        using assms u Some pv w True by (auto simp: allocproc_def Let_def)
      then show thesis using i wf by (intro that(2) [OF u Some pv, of "\<lambda>p. p\<lparr>p_kstack := 0, p_state := UNUSED\<rparr>"]) simp_all
    next
      case False
      let ?f = "\<lambda>p. p\<lparr>p_kstack := pg, p_tf_ptr := pg + KSTACKSIZE - 76, p_context_ptr := pg + KSTACKSIZE - 76 - 4 - 20,
         p_ctx := \<lparr>ctx_edi = 0, ctx_esi = 0, ctx_ebx = 0, ctx_ebp = 0, ctx_eip = forkret_addr w\<rparr>, p_shm_idx := -1, p_shm_va := 0\<rparr>"
      have "r = Some i" "procs t = (procs w)[i := ?f (procs w ! i)]" "curproc t = curproc w" "cpu t = cpu w" "ptable_lock t = ptable_lock w"
        using assms u Some pv w False i wf by (auto simp: allocproc_def Let_def upd_proc_def)
      then show thesis using wf by (intro that(2) [OF u Some pv, of ?f]) simp_all
    qed
  qed
qed

lemma allocproc_inv:
  assumes "sched_inv s" "allocproc s = Some (r, t)"
  shows "sched_inv t"
  using assms(2)
proof (cases rule: allocproc_cases)
  case (1 u)
  have ok: "lock_ok s" "running_ok s" using assms(1) by (simp_all add: sched_inv_def)
  note acq = ptable_acquire_lock_ok [OF ok(1) 1(1)]
  show ?thesis
    by (intro sched_inv_locked [OF assms(1) 1(1) acq(1) _ _ _ _ 1(4)]) (use acq ok in \<open>simp_all add: running_ok_def\<close>)
next
  case (2 u v i pid f)
  let ?u = "upd_proc i (\<lambda>p. p\<lparr>p_pid := pid\<rparr>) (upd_proc i (\<lambda>p. p\<lparr>p_state := EMBRYO\<rparr>) u)"
  have ok: "lock_ok s" "running_ok s" using assms(1) by (simp_all add: sched_inv_def)
  note acq = ptable_acquire_lock_ok [OF ok(1) 2(1)]
  have i: "i < length (procs u)" "p_state (procs u ! i) = UNUSED" using find_unused_Some [OF 2(2)] by simp_all
  have "running_ok u" using ok acq by (simp add: running_ok_def)
  then have run: "running_ok ?u" using i by (intro running_ok_upd) simp_all
  have v: "sched_inv v" by (rule sched_inv_locked [OF assms(1) 2(1) _ run _ _ _ 2(4)]) (use acq in simp_all)
  have vp: "procs v = procs ?u" using 2(4) by (auto simp: ptable_release_def bind_eq_Some_conv)
  have st: "p_state (procs v ! i) = EMBRYO" "i < length (procs v)" using i by (simp_all add: vp)
  have "p_state (f (procs v ! i)) \<noteq> RUNNING" using 2(9) st by auto
  then have "running_ok (upd_proc i f v)" using v st by (intro running_ok_upd) (simp_all add: sched_inv_def)
  then have "running_ok t" using 2 running_ok_cong [of t "upd_proc i f v"] by simp
  then show ?thesis using v 2 by (simp add: sched_inv_def lock_ok_def scheduler_ok_def)
qed

section \<open>Steps of the process system\<close>

text \<open>
  \<open>resume\<close> is the code after \<open>sched\<close> in \<open>yield\<close>, in \<open>sleep\<close> and in \<open>forkret\<close>; \<open>nest\<close> and \<open>unnest\<close> are
  the use of the other locks by the running process; \<open>publish\<close> is the end of \<open>fork\<close>. A process that
  goes to sleep holds a lock: \<open>ptable.lock\<close>, or the one it gives up.
\<close>

inductive proc_step :: "ksys \<Rightarrow> ksys \<Rightarrow> bool" where
  begin_pass: "curproc s = None \<Longrightarrow> locked (ptable_lock s) = 0 \<Longrightarrow> scheduler_begin s = Some t \<Longrightarrow> proc_step s t"
| round: "curproc s = None \<Longrightarrow> locked (ptable_lock s) \<noteq> 0 \<Longrightarrow> scheduler_round k s = Some (r, t) \<Longrightarrow> proc_step s t"
| resume: "curproc s \<noteq> None \<Longrightarrow> locked (ptable_lock s) \<noteq> 0 \<Longrightarrow> ptable_release (sched_return b s) = Some t \<Longrightarrow> proc_step s t"
| yields: "yield s = Some (b, t) \<Longrightarrow> proc_step s t"
| sleeps: "sleep s ch lk = Some (b, t, lk') \<Longrightarrow> lk \<noteq> None \<longrightarrow> 0 < ncli (cpu s) \<Longrightarrow> proc_step s t"
| wakes: "wakeup ch s = Some t \<Longrightarrow> proc_step s t"
| kills: "kill s pid = Some (r, t) \<Longrightarrow> proc_step s t"
| allocs: "allocproc s = Some (r, t) \<Longrightarrow> proc_step s t"
| publish: "p_state (procs s ! i) = EMBRYO \<Longrightarrow> ptable_acquire s = Some u \<Longrightarrow>
    ptable_release (upd_proc i (\<lambda>p. p\<lparr>p_state := RUNNABLE\<rparr>) u) = Some t \<Longrightarrow> proc_step s t"
| nest: "curproc s \<noteq> None \<Longrightarrow> proc_step s (s\<lparr>cpu := pushcli (cpu s)\<rparr>)"
| unnest: "curproc s \<noteq> None \<Longrightarrow> popcli (cpu s) = Some c \<Longrightarrow> locked (ptable_lock s) \<noteq> 0 \<longrightarrow> 1 < ncli (cpu s) \<Longrightarrow>
    proc_step s (s\<lparr>cpu := c\<rparr>)"

lemma resume_inv:
  assumes "sched_inv s" "curproc s \<noteq> None" "locked (ptable_lock s) \<noteq> 0" "ptable_release (sched_return b s) = Some t"
  shows "sched_inv t"
proof -
  have "lock_ok (sched_return b s)" using assms(1) by (simp add: sched_inv_def lock_ok_def sched_return_def irq_ok_def)
  moreover have "locked (ptable_lock (sched_return b s)) \<noteq> 0" using assms by (simp add: sched_return_def)
  ultimately show ?thesis using ptable_release_lock_ok [OF _ _ assms(4)] assms
    by (auto simp: sched_inv_def scheduler_ok_def running_ok_def sched_return_def)
qed

lemma publish_inv:
  assumes "sched_inv s" "p_state (procs s ! i) = EMBRYO" "ptable_acquire s = Some u"
    "ptable_release (upd_proc i (\<lambda>p. p\<lparr>p_state := RUNNABLE\<rparr>) u) = Some t"
  shows "sched_inv t"
proof -
  have ok: "lock_ok s" "running_ok s" using assms(1) by (simp_all add: sched_inv_def)
  note acq = ptable_acquire_lock_ok [OF ok(1) assms(3)]
  have "running_ok u" using ok acq by (simp add: running_ok_def)
  then have "running_ok (upd_proc i (\<lambda>p. p\<lparr>p_state := RUNNABLE\<rparr>) u)" by (rule running_ok_upd) (use assms acq in simp_all)
  then show ?thesis by (intro sched_inv_locked [OF assms(1,3) _ _ _ _ _ assms(4)]) (use acq in simp_all)
qed

lemma proc_step_inv: "proc_step s t \<Longrightarrow> sched_inv s \<Longrightarrow> sched_inv t"
proof (induction rule: proc_step.induct)
  case (nest s)
  then show ?case by (auto simp: sched_inv_def lock_ok_def running_ok_def scheduler_ok_def irq_ok_def)
next
  case (unnest s c)
  then show ?case using popcli_irq_ok [of "cpu s" c] popcli_ncli [of "cpu s" c]
    by (simp add: sched_inv_def lock_ok_def running_ok_def scheduler_ok_def)
qed (blast intro: scheduler_begin_inv scheduler_round_inv resume_inv yield_inv sleep_inv wakeup_inv kill_inv
       allocproc_inv publish_inv)+

lemma proc_steps_inv: "proc_step\<^sup>*\<^sup>* s t \<Longrightarrow> sched_inv s \<Longrightarrow> sched_inv t"
  by (induction rule: rtranclp_induct) (auto intro: proc_step_inv)

section \<open>Example\<close>

definition ex_sleeper :: proc where
  "ex_sleeper = ex_uproc\<lparr>p_state := SLEEPING, p_chan := Some TicksChan\<rparr>"

text \<open>Process 0 runs, process 1 sleeps until the next tick, process 2 is ready.\<close>

definition ex_sched :: ksys where
  "ex_sched = ex_user\<lparr>curproc := Some 0, procs := [ex_uproc\<lparr>p_state := RUNNING, p_kstack := 0x80001000\<rparr>, ex_sleeper,
     ex_uproc\<lparr>p_state := RUNNABLE, p_kstack := 0x80002000\<rparr>], cpu := ex_cpu\<rparr>"

lemma yield_returns:
  assumes "sched_inv s" "curproc s = Some i" "locked (ptable_lock s) = 0" "ncli (cpu s) = 0"
  shows "\<exists>t. yield s = Some (if_flag (cpu s), t) \<and> curproc t = None \<and> locked (ptable_lock t) \<noteq> 0
    \<and> procs t = (procs s)[i := (procs s ! i)\<lparr>p_state := RUNNABLE\<rparr>] \<and> cr3 (cpu t) = V2P (kpgdir s) \<and> \<not> if_flag (cpu t)"
proof -
  have ok: "lock_ok s" "i < length (procs s)" using assms(1,2) by (simp_all add: sched_inv_def running_ok_def)
  have irq: "irq_ok (cpu s)" using ok by (simp add: lock_ok_def)
  obtain u where u: "ptable_acquire s = Some u" "intena (cpu u) = if_flag (cpu s)"
    using ptable_acquire_free [OF irq assms(3)] assms(4) by (simp add: pushcli_def Let_def)
  note acq = ptable_acquire_lock_ok [OF ok(1) u(1)]
  let ?v = "upd_proc i (\<lambda>p. p\<lparr>p_state := RUNNABLE\<rparr>) u"
  have sch: "sched ?v = Some (intena (cpu u), scheduler_back ?v)" using sched_ok [of ?v i] acq assms ok by simp
  then have "yield s = Some (if_flag (cpu s), scheduler_back ?v)" using u acq assms by (simp add: yield_def)
  moreover have "\<not> if_flag (cpu (scheduler_back ?v))"
    using acq assms by (simp add: scheduler_back_def switchkvm_def lock_ok_def irq_ok_def)
  ultimately show ?thesis using acq by (intro exI conjI) simp_all
qed

section \<open>Claims\<close>



text \<open>How far the scheduler at position \<open>k\<close> is from slot \<open>j\<close>, in turns.\<close>

definition turns :: "nat \<Rightarrow> nat \<Rightarrow> nat \<Rightarrow> nat" where
  "turns N j k = (if k \<le> j then j - k else N - k + 1 + j)"

lemma scheduler_round_turn:
  assumes "scheduler_round k s = Some ((r, k'), t)" "length (procs s) = N" "j < N" "k \<le> N"
    "p_state (procs s ! j) = RUNNABLE" "r \<noteq> Some j"
  shows "k' \<le> N \<and> turns N j k' < turns N j k"
proof (cases "scheduler_scan (procs s) k")
  case None
  then have "j < k" using assms by (meson not_le scheduler_scan_None)
  moreover have "k' = 0" using None assms(1) by (auto simp: scheduler_round_def bind_eq_Some_conv)
  ultimately show ?thesis by (simp add: turns_def)
next
  case (Some i)
  then have i: "r = Some i" "k' = Suc i" using assms(1) by (auto simp: scheduler_round_def bind_eq_Some_conv)
  have "k \<le> i" "i < N" using scheduler_scan_Some [OF Some] assms by auto
  moreover have "\<not> (k \<le> j \<and> j < i)" using scheduler_scan_Some(4) [OF Some] assms(5) by blast
  ultimately show ?thesis using i assms(6) by (auto simp: turns_def)
qed

text \<open>
  C10. Round-robin fairness: whatever the other processes do between the turns of the scheduler, a
  process that stays runnable until it is chosen is chosen within \<open>N + 1\<close> turns, \<open>N\<close> the size of the table.
\<close>

theorem scheduler_fair:
  assumes "\<And>n. scheduler_round (k n) (s n) = Some ((r n, k (Suc n)), t n)"
    and "\<And>n. length (procs (s n)) = N" and "j < N" and "k 0 \<le> N"
    and "\<And>n. (\<And>m. m < n \<Longrightarrow> r m \<noteq> Some j) \<Longrightarrow> p_state (procs (s n) ! j) = RUNNABLE"
  shows "\<exists>n \<le> N. r n = Some j"
proof (rule ccontr)
  assume none: "\<not> (\<exists>n \<le> N. r n = Some j)"
  have "n \<le> Suc N \<Longrightarrow> k n \<le> N \<and> turns N j (k n) + n \<le> N" for n
  proof (induction n)
    case 0
    show ?case using assms(3,4) by (auto simp: turns_def)
  next
    case (Suc n)
    have "p_state (procs (s n) ! j) = RUNNABLE" by (rule assms(5)) (use none Suc.prems in auto)
    moreover have "r n \<noteq> Some j" using none Suc.prems by auto
    ultimately show ?case
      using scheduler_round_turn [OF assms(1) assms(2) assms(3), of n] Suc by auto
  qed
  from this [of "Suc N"] show False by simp
qed

section \<open>Witnesses\<close>

lemma ex_sched_inv: "sched_inv ex_sched"
  by (simp add: sched_inv_def running_ok_def lock_ok_def scheduler_ok_def ex_sched_def ex_sleeper_def ex_uproc_def
      ex_user_def ex_cpu_def irq_ok_def less_Suc_eq All_less_Suc numeral_3_eq_3 numeral_2_eq_2 nth_Cons')


definition ex_held :: spinlock where
  "ex_held = \<lparr>locked = 1, lk_name = [], lk_cpu = Some 0, pcs = replicate 10 0\<rparr>"

definition ex_holder :: ksys where
  "ex_holder = ex_sched\<lparr>cpu := pushcli ex_cpu\<rparr>"

lemma ex_holder_inv: "sched_inv ex_holder"
  using ex_sched_inv by (simp add: sched_inv_def running_ok_def lock_ok_def scheduler_ok_def ex_holder_def ex_sched_def ex_user_def)


definition ex_ready :: ksys where
  "ex_ready = ex_user\<lparr>curproc := None, procs := [ex_uproc\<lparr>p_state := RUNNABLE\<rparr>], cpu := pushcli ex_cpu, ptable_lock := ex_held\<rparr>"

lemma ex_ready_run: "map_option fst (scheduler_round 0 ex_ready) = Some (Some 0, 1)"
  by code_simp

lemma ex_ready_end: "map_option fst (scheduler_round 1 ex_ready) = Some (None, 0)"
  by code_simp

theorem scheduler_fair_witness:
  "\<exists>t. scheduler_round 0 ex_ready = Some ((Some 0, 1), t) \<and> (\<exists>n \<le> (1 :: nat). (if even n then Some (0 :: nat) else None) = Some 0)"
proof -
  obtain t0 where t0: "scheduler_round 0 ex_ready = Some ((Some 0, 1), t0)" using ex_ready_run by auto
  obtain t1 where t1: "scheduler_round 1 ex_ready = Some ((None, 0), t1)" using ex_ready_end by auto
  have "scheduler_round (n mod 2) ex_ready = Some ((if even n then Some 0 else None, Suc n mod 2), if even n then t0 else t1)" for n
    using t0 t1 by (cases "even n") (simp_all add: even_iff_mod_2_eq_zero odd_iff_mod_2_eq_one mod_Suc)
  moreover have "length (procs ex_ready) = 1" "p_state (procs ex_ready ! 0) = RUNNABLE" by (simp_all add: ex_ready_def)
  ultimately show ?thesis
    using t0 scheduler_fair [of "\<lambda>n. n mod 2" "\<lambda>_. ex_ready" "\<lambda>n. if even n then Some 0 else None"
        "\<lambda>n. if even n then t0 else t1" 1 0] by auto
qed

end
