(* ===== verification/Proc_Pid.thy ===== *)
theory Proc_Pid
  imports Proc_Sched
begin

text \<open>
  Process identifiers: what \<open>get_smallest_pid\<close> and \<open>allocproc\<close> choose. The slot that \<open>allocproc\<close> takes is
  already marked \<open>EMBRYO\<close> when the identifiers are collected, so the identifier it had before counts as taken.
\<close>

definition live_pids :: "proc list \<Rightarrow> int set" where
  "live_pids ps = {p_pid p | p. p \<in> set ps \<and> p_state p \<noteq> UNUSED}"

definition pids_in_range :: "proc list \<Rightarrow> bool" where
  "pids_in_range ps \<longleftrightarrow> live_pids ps \<subseteq> {0..<64}"

lemma live_pids_filter: "live_pids ps = p_pid ` set (filter (\<lambda>p. p_state p \<noteq> UNUSED) ps)"
  by (auto simp: live_pids_def)

lemma live_pids_Cons: "live_pids (p # ps) = (if p_state p = UNUSED then {} else {p_pid p}) \<union> live_pids ps"
  by (auto simp: live_pids_def)

lemma mark_pids_range:
  "live_pids ps \<subseteq> {0..<int (length pids)} \<Longrightarrow> \<exists>pids'. mark_pids ps pids = Some pids' \<and> length pids' = length pids
     \<and> (\<forall>n < length pids. pids' ! n \<longleftrightarrow> pids ! n \<or> int n \<in> live_pids ps)"
proof (induction ps arbitrary: pids)
  case Nil
  then show ?case by (simp add: live_pids_def)
next
  case (Cons p ps)
  show ?case
  proof (cases "p_state p = UNUSED")
    case True
    with Cons show ?thesis by (simp add: live_pids_Cons)
  next
    case False
    with Cons.prems have r: "0 \<le> p_pid p" "p_pid p < int (length pids)" "live_pids ps \<subseteq> {0..<int (length pids)}"
      by (auto simp: live_pids_Cons)
    let ?q = "pids[nat (p_pid p) := True]"
    obtain q where q: "mark_pids ps ?q = Some q" "length q = length pids"
        "\<forall>n < length pids. q ! n \<longleftrightarrow> ?q ! n \<or> int n \<in> live_pids ps"
      using Cons.IH [of ?q] r by auto
    have "\<forall>n < length pids. q ! n \<longleftrightarrow> pids ! n \<or> int n \<in> live_pids (p # ps)"
      using q(3) r False by (auto simp: live_pids_Cons nth_list_update)
    then show ?thesis using q r False by auto
  qed
qed

lemma mark_pids_out:
  "p \<in> set ps \<Longrightarrow> p_state p \<noteq> UNUSED \<Longrightarrow> p_pid p < 0 \<Longrightarrow> mark_pids ps pids = None"
  by (induction ps pids rule: mark_pids.induct) (auto simp: ub_def)

lemma first_free_spec:
  "first_free bs k = (if \<exists>n < length bs. \<not> bs ! n then k + int (LEAST n. n < length bs \<and> \<not> bs ! n) else -1)"
proof (induction bs k rule: first_free.induct)
  case (2 b bs i)
  show ?case
  proof (cases b)
    case False
    then have "(LEAST n. n < length (b # bs) \<and> \<not> (b # bs) ! n) = 0" by (intro Least_equality) auto
    then show ?thesis using False by force
  next
    case True
    have ex: "(\<exists>n < length (b # bs). \<not> (b # bs) ! n) \<longleftrightarrow> (\<exists>n < length bs. \<not> bs ! n)"
      using True by (auto simp: nth_Cons' gr0_conv_Suc)
    show ?thesis
    proof (cases "\<exists>n < length bs. \<not> bs ! n")
      case True
      then obtain n where "n < length bs \<and> \<not> bs ! n" by blast
      then have "(LEAST m. m < length (b # bs) \<and> \<not> (b # bs) ! m) = Suc (LEAST m. Suc m < length (b # bs) \<and> \<not> (b # bs) ! Suc m)"
        by (intro Least_Suc [of _ "Suc n"]) (use \<open>b\<close> in auto)
      then show ?thesis using True 2 \<open>b\<close> ex by simp
    next
      case False
      then show ?thesis using 2 True ex by auto
    qed
  qed
qed simp

text \<open>The smallest identifier that no process of the table holds, or \<open>-1\<close>.\<close>

lemma get_smallest_pid_spec:
  assumes "pids_in_range (procs s)"
  shows "\<exists>pid. get_smallest_pid s = Some pid \<and> pid \<notin> live_pids (procs s) \<and> -1 \<le> pid \<and> pid < 64
    \<and> (pid = -1 \<longleftrightarrow> {0..<64} \<subseteq> live_pids (procs s)) \<and> (\<forall>q. 0 \<le> q \<and> q < pid \<longrightarrow> q \<in> live_pids (procs s))"
proof -
  obtain b where b: "mark_pids (procs s) (replicate 64 False) = Some b" "length b = 64"
      "\<forall>n < 64. b ! n \<longleftrightarrow> int n \<in> live_pids (procs s)"
    using mark_pids_range [of "procs s" "replicate 64 False"] assms by (auto simp: pids_in_range_def)
  have pid: "get_smallest_pid s = Some (first_free b 0)" using b(1) by (simp add: get_smallest_pid_def)
  show ?thesis
  proof (cases "\<exists>n < 64. \<not> b ! n")
    case False
    then have "first_free b 0 = -1" using b(2) by (simp add: first_free_spec)
    moreover have "{0..<64} \<subseteq> live_pids (procs s)"
    proof
      fix q :: int assume "q \<in> {0..<64}"
      then have "nat q < 64" "int (nat q) = q" by auto
      then show "q \<in> live_pids (procs s)" using b(3) False by metis
    qed
    moreover have "-1 \<notin> live_pids (procs s)" using assms by (auto simp: pids_in_range_def)
    ultimately show ?thesis using pid by auto
  next
    case True
    define n where "n = (LEAST n. n < 64 \<and> \<not> b ! n)"
    have n: "n < 64" "\<not> b ! n" using LeastI_ex [of "\<lambda>n. n < 64 \<and> \<not> b ! n"] True by (auto simp: n_def)
    have below: "int m \<in> live_pids (procs s)" if "m < n" for m
      using not_less_Least [of m "\<lambda>n. n < 64 \<and> \<not> b ! n"] that n b(3) by (auto simp: n_def [symmetric])
    have "first_free b 0 = int n" using True b(2) by (simp add: first_free_spec n_def)
    moreover have "int n \<notin> live_pids (procs s)" using n b(3) by simp
    moreover have "q \<in> live_pids (procs s)" if "0 \<le> q \<and> q < int n" for q
      using below [of "nat q"] that by (simp add: nat_less_iff)
    moreover have "\<not> {0..<64} \<subseteq> live_pids (procs s)"
      using \<open>int n \<notin> live_pids (procs s)\<close> n(1) by (metis atLeastLessThan_iff in_mono of_nat_0_le_iff of_nat_less_iff of_nat_numeral)
    ultimately show ?thesis using pid n(1) by auto
  qed
qed

lemma live_pids_upd:
  assumes "i < length ps"
  shows "live_pids (ps[i := p]) = live_pids (take i ps @ drop (Suc i) ps) \<union> (if p_state p = UNUSED then {} else {p_pid p})"
  using assms by (auto simp: live_pids_def upd_conv_take_nth_drop)

lemma live_pids_taken:
  assumes "i < length ps" "p_state (ps ! i) = UNUSED"
  shows "live_pids (ps[i := (ps ! i)\<lparr>p_state := EMBRYO\<rparr>]) = insert (p_pid (ps ! i)) (live_pids ps)"
proof -
  have "live_pids ps = live_pids (ps[i := ps ! i])" by simp
  also have "\<dots> = live_pids (take i ps @ drop (Suc i) ps)" using assms by (simp only: live_pids_upd) simp
  finally show ?thesis using assms(1) by (simp add: live_pids_upd)
qed

text \<open>What \<open>allocproc\<close> does when the table has a free slot: it never panics.\<close>

lemma allocproc_slot:
  assumes "lock_ok s" "locked (ptable_lock s) = 0" "find_unused (procs s) 0 = Some i" "pids_in_range (procs s)"
    "0 \<le> p_pid (procs s ! i)" "p_pid (procs s ! i) < 64"
  shows "\<exists>r t pid. allocproc s = Some (r, t) \<and> (r = Some i \<longleftrightarrow> fst (kalloc s) \<noteq> 0) \<and> (r = None \<longleftrightarrow> fst (kalloc s) = 0)
    \<and> length (procs t) = length (procs s) \<and> (\<forall>j. j \<noteq> i \<longrightarrow> procs t ! j = procs s ! j) \<and> p_pid (procs t ! i) = pid
    \<and> p_state (procs t ! i) = (if r = None then UNUSED else EMBRYO)
    \<and> get_smallest_pid (upd_proc i (\<lambda>p. p\<lparr>p_state := EMBRYO\<rparr>) s) = Some pid"
proof -
  obtain u where u: "ptable_acquire s = Some u" using ptable_acquire_free assms(1,2) by (metis lock_ok_def)
  note acq = ptable_acquire_lock_ok [OF assms(1) u]
  have i: "i < length (procs s)" "p_state (procs s ! i) = UNUSED" using find_unused_Some [OF assms(3)] by auto
  let ?e = "\<lambda>s. upd_proc i (\<lambda>p. p\<lparr>p_state := EMBRYO\<rparr>) s"
  have "pids_in_range (procs (?e s))" using live_pids_taken [OF i] assms by (simp add: pids_in_range_def)
  then obtain pid where pid: "get_smallest_pid (?e s) = Some pid" using get_smallest_pid_spec by blast
  have pid_u: "get_smallest_pid (?e u) = Some pid" using pid acq by (simp add: get_smallest_pid_def)
  let ?v = "upd_proc i (\<lambda>p. p\<lparr>p_pid := pid\<rparr>) (?e u)"
  obtain v where v: "ptable_release ?v = Some v" "procs v = procs ?v"
    using ptable_release_ok [of ?v] acq by auto
  have "fst (kalloc v) = fst (kalloc s)"
    using u v(1) by (auto simp: ptable_acquire_def ptable_release_def bind_eq_Some_conv kalloc_def Let_def upd_proc_def split: if_splits)
  moreover obtain pg w where w: "kalloc v = (pg, w)" by fastforce
  moreover have "procs w = procs v" using kalloc_ksys(2) [of v] w by simp
  ultimately show ?thesis
    using u assms(3) acq pid pid_u v i by (auto simp: allocproc_def Let_def)
qed

section \<open>Claims\<close>

text \<open>
  C23. While every live process has an identifier in \<open>0..63\<close> and a slot is free, \<open>allocproc\<close> returns:
  with memory for the kernel stack the new process is in the first free slot, every other slot is as
  before, and its identifier is held by no live process; without memory the slot is unused again. The
  identifier is \<open>-1\<close> exactly when \<open>0..63\<close> are all taken, counting the one the slot had before.
\<close>

theorem allocproc_pid:
  assumes "lock_ok s" "locked (ptable_lock s) = 0" "find_unused (procs s) 0 = Some i" "pids_in_range (procs s)"
    "0 \<le> p_pid (procs s ! i)" "p_pid (procs s ! i) < 64"
  shows "\<exists>r t. allocproc s = Some (r, t) \<and> r = (if fst (kalloc s) = 0 then None else Some i)
    \<and> (\<forall>j. j \<noteq> i \<longrightarrow> procs t ! j = procs s ! j)
    \<and> p_state (procs t ! i) = (if fst (kalloc s) = 0 then UNUSED else EMBRYO)
    \<and> p_pid (procs t ! i) \<notin> live_pids (procs s)
    \<and> (p_pid (procs t ! i) = -1 \<longleftrightarrow> {0..<64} \<subseteq> insert (p_pid (procs s ! i)) (live_pids (procs s)))"
proof -
  have i: "i < length (procs s)" "p_state (procs s ! i) = UNUSED" using find_unused_Some [OF assms(3)] by auto
  obtain r t pid where t: "allocproc s = Some (r, t)" "r = Some i \<longleftrightarrow> fst (kalloc s) \<noteq> 0" "r = None \<longleftrightarrow> fst (kalloc s) = 0"
     "\<forall>j. j \<noteq> i \<longrightarrow> procs t ! j = procs s ! j" "p_pid (procs t ! i) = pid" "p_state (procs t ! i) = (if r = None then UNUSED else EMBRYO)"
     "get_smallest_pid (upd_proc i (\<lambda>p. p\<lparr>p_state := EMBRYO\<rparr>) s) = Some pid"
    using allocproc_slot [OF assms] by blast
  have live: "live_pids (procs (upd_proc i (\<lambda>p. p\<lparr>p_state := EMBRYO\<rparr>) s)) = insert (p_pid (procs s ! i)) (live_pids (procs s))"
    using live_pids_taken [OF i] by simp
  have "pids_in_range (procs (upd_proc i (\<lambda>p. p\<lparr>p_state := EMBRYO\<rparr>) s))"
    using live assms(4-6) by (simp add: pids_in_range_def)
  from get_smallest_pid_spec [OF this] t(5,7) live
  have "p_pid (procs t ! i) \<notin> live_pids (procs s)"
      "p_pid (procs t ! i) = -1 \<longleftrightarrow> {0..<64} \<subseteq> insert (p_pid (procs s ! i)) (live_pids (procs s))" by auto
  then show ?thesis using t by (intro exI [of _ r] exI [of _ t]) (auto split: if_splits)
qed

text \<open>
  C35. The process table outlasts its identifiers: when 63 processes hold \<open>1..63\<close> and the last slot
  had identifier 0, \<open>allocproc\<close> succeeds with identifier \<open>-1\<close>, the value with which \<open>fork\<close> reports a failure,
  and the next search for an identifier writes outside the array \<open>pids\<close>.
\<close>

theorem pid_exhaustion:
  assumes "lock_ok s" "locked (ptable_lock s) = 0" "find_unused (procs s) 0 = Some i" "live_pids (procs s) = {1..<64}"
    "p_pid (procs s ! i) = 0" "fst (kalloc s) \<noteq> 0"
  shows "\<exists>t. allocproc s = Some (Some i, t) \<and> p_pid (procs t ! i) = -1 \<and> get_smallest_pid t = None"
proof -
  have i: "i < length (procs s)" "p_state (procs s ! i) = UNUSED" using find_unused_Some [OF assms(3)] by auto
  have range: "pids_in_range (procs s)" using assms(4) by (simp add: pids_in_range_def)
  obtain r t pid where t: "allocproc s = Some (r, t)" "r = Some i" "length (procs t) = length (procs s)"
     "p_pid (procs t ! i) = pid" "p_state (procs t ! i) = EMBRYO"
     "get_smallest_pid (upd_proc i (\<lambda>p. p\<lparr>p_state := EMBRYO\<rparr>) s) = Some pid"
    using allocproc_slot [OF assms(1-3) range] assms(5,6) by auto
  have live: "live_pids (procs (upd_proc i (\<lambda>p. p\<lparr>p_state := EMBRYO\<rparr>) s)) = {0..<64}"
    using live_pids_taken [OF i] assms(4,5) by auto
  then have "pid = -1" using get_smallest_pid_spec [of "upd_proc i (\<lambda>p. p\<lparr>p_state := EMBRYO\<rparr>) s"] t(6)
    by (auto simp: pids_in_range_def)
  moreover have "procs t ! i \<in> set (procs t)" using i t(3) by simp
  then have "mark_pids (procs t) (replicate 64 False) = None"
    using mark_pids_out t(4,5) \<open>pid = -1\<close> by simp
  ultimately show ?thesis using t by (simp add: get_smallest_pid_def)
qed

section \<open>Witnesses\<close>

definition ex_full :: ksys where
  "ex_full = ex_user\<lparr>freelist := 0x80600000, cpu := ex_cpu,
     procs := map (\<lambda>n. ex_uproc\<lparr>p_pid := int n + 1\<rparr>) [0..<63] @ [ex_uproc\<lparr>p_state := UNUSED, p_pid := 0\<rparr>]\<rparr>"

lemma ex_full_lock: "lock_ok ex_full" "locked (ptable_lock ex_full) = 0"
  by (simp_all add: lock_ok_def ex_full_def ex_user_def ex_cpu_def irq_ok_def)

lemma ex_full_find: "find_unused (procs ex_full) 0 = Some 63"
  by code_simp

lemma ex_full_kalloc: "fst (kalloc ex_full) \<noteq> 0"
  by code_simp

lemma ex_full_live: "live_pids (procs ex_full) = {1..<64}"
proof -
  have "live_pids (procs ex_full) = (\<lambda>n. int n + 1) ` {0..<63}"
    by (simp add: live_pids_filter ex_full_def ex_uproc_def filter_map o_def image_image)
  also have "\<dots> = {1..<64}"
  proof
    show "{1..<64} \<subseteq> (\<lambda>n. int n + 1) ` {0..<63}"
    proof
      fix q :: int assume "q \<in> {1..<64}"
      then have "q = int (nat (q - 1)) + 1" "nat (q - 1) \<in> {0..<63}" by auto
      then show "q \<in> (\<lambda>n. int n + 1) ` {0..<63}" by (rule image_eqI)
    qed
  qed auto
  finally show ?thesis .
qed

lemma ex_full_slot: "p_pid (procs ex_full ! 63) = 0"
  by (simp add: ex_full_def nth_append)

theorem allocproc_pid_witness:
  "\<exists>t. allocproc ex_full = Some (Some 63, t) \<and> p_pid (procs t ! 63) \<notin> live_pids (procs ex_full)"
  using allocproc_pid [OF ex_full_lock ex_full_find] ex_full_live ex_full_slot ex_full_kalloc
  by (auto simp: pids_in_range_def)

theorem pid_exhaustion_witness:
  "\<exists>t. allocproc ex_full = Some (Some 63, t) \<and> p_pid (procs t ! 63) = -1"
  using pid_exhaustion [OF ex_full_lock ex_full_find ex_full_live ex_full_slot ex_full_kalloc] by auto

end
