(* ===== verification/Ring.thy ===== *)
theory Ring
  imports Xv6_Prelude
begin

text \<open>
  Ring buffers indexed by free-running 32-bit counters, the scheme of \<open>pipe.c\<close> and \<open>console.c\<close>: the element
  number \<open>i\<close> is at position \<open>i\<close> modulo the size, and the counters wrap at \<open>2 ^ 32\<close>. The size divides \<open>2 ^ 32\<close>.
\<close>

definition ring_nth :: "'b list \<Rightarrow> u32 \<Rightarrow> 'b" where
  "ring_nth d i = d ! (unat i mod length d)"

definition ring_set :: "'b list \<Rightarrow> u32 \<Rightarrow> 'b \<Rightarrow> 'b list" where
  "ring_set d i x = d[unat i mod length d := x]"

text \<open>The elements from counter \<open>r\<close> up to counter \<open>w\<close>.\<close>

definition ring_list :: "'b list \<Rightarrow> u32 \<Rightarrow> u32 \<Rightarrow> 'b list" where
  "ring_list d r w = map (\<lambda>k. ring_nth d (r + word_of_nat k)) [0..<unat (w - r)]"

lemma length_ring_set [simp]: "length (ring_set d i x) = length d"
  by (simp add: ring_set_def)

lemma length_ring_list [simp]: "length (ring_list d r w) = unat (w - r)"
  by (simp add: ring_list_def)

lemma ring_list_empty [simp]: "ring_list d r r = []"
  by (simp add: ring_list_def)

lemma unat_inc: "Suc (unat x) < 4294967296 \<Longrightarrow> unat (x + 1 :: u32) = Suc (unat x)"
  by (simp add: unat_word_ariths)

lemma unat_dec: "x \<noteq> 0 \<Longrightarrow> unat (x - 1 :: u32) = unat x - 1"
  by (subst unat_sub) (simp_all add: word_le_nat_alt Suc_le_eq unat_gt_0)

text \<open>Two counters less than a buffer apart are at different positions.\<close>

lemma mod_dvd_cancel: "N dvd M \<Longrightarrow> (x mod M) mod N = x mod (N :: nat)"
  by (rule mod_mod_cancel)

locale ring =
  fixes N :: nat
  assumes size_pos: "0 < N" and size_dvd: "N dvd 4294967296"
begin

lemma size_le: "N \<le> 4294967296"
  using size_dvd by (intro dvd_imp_le) simp_all

lemma pos_add: "unat (r + word_of_nat k :: u32) mod N = (unat r + k) mod N"
  using size_dvd by (simp add: unat_word_ariths unat_of_nat mod_mod_cancel mod_add_right_eq)

lemma pos_apart:
  assumes "j < k" "k < j + N"
  shows "unat (r + word_of_nat j :: u32) mod N \<noteq> unat (r + word_of_nat k) mod N"
proof
  assume "unat (r + word_of_nat j :: u32) mod N = unat (r + word_of_nat k) mod N"
  then have "(unat r + j) mod N = (unat r + k) mod N" by (simp only: pos_add)
  then have "N dvd (unat r + k) - (unat r + j)" using assms(1) mod_eq_dvd_iff_nat [of "unat r + j" "unat r + k" N] by simp
  then have "N \<le> k - j" using assms by (auto dest: dvd_imp_le)
  then show False using assms by simp
qed

lemma nth_set_same: "length d = N \<Longrightarrow> ring_nth (ring_set d i x) i = x"
  using size_pos by (simp add: ring_nth_def ring_set_def)

lemma nth_set_apart:
  assumes "length d = N" "j < k" "k < j + N"
  shows "ring_nth (ring_set d (r + word_of_nat k) x) (r + word_of_nat j) = ring_nth d (r + word_of_nat j)"
  using pos_apart [OF assms(2,3), of r] assms(1) size_pos by (simp add: ring_nth_def ring_set_def)

text \<open>Appending at the write counter and removing at the read counter.\<close>

lemma append:
  assumes "length d = N" "unat (w - r) < N" "N < 4294967296"
  shows "ring_list (ring_set d w x) r (w + 1) = ring_list d r w @ [x]" "unat (w + 1 - r) = Suc (unat (w - r))"
proof -
  let ?n = "unat (w - r)"
  have w: "w = r + word_of_nat ?n" by simp
  have eq: "w + 1 - r = (w - r) + 1" by simp
  show len: "unat (w + 1 - r) = Suc ?n" unfolding eq using assms by (intro unat_inc) simp
  have "ring_nth (ring_set d w x) (r + word_of_nat k) = ring_nth d (r + word_of_nat k)" if "k < ?n" for k
    using nth_set_apart [OF assms(1) that, of r x] assms(2) w by simp
  then have "map (\<lambda>k. ring_nth (ring_set d w x) (r + word_of_nat k)) [0..<?n] = ring_list d r w"
    by (simp add: ring_list_def)
  then show "ring_list (ring_set d w x) r (w + 1) = ring_list d r w @ [x]"
    using len nth_set_same [OF assms(1), of w x] by (simp add: ring_list_def)
qed

lemma remove:
  assumes "r \<noteq> w"
  shows "ring_list d r w = ring_nth d r # ring_list d (r + 1) w" "unat (w - (r + 1)) = unat (w - r) - 1"
proof -
  have eq: "w - (r + 1) = (w - r) - 1" by simp
  have "w - r \<noteq> 0" using assms by auto
  then show len: "unat (w - (r + 1)) = unat (w - r) - 1" unfolding eq by (rule unat_dec)
  obtain n where n: "unat (w - r) = Suc n" using \<open>w - r \<noteq> 0\<close> by (metis not0_implies_Suc unat_eq_zero)
  have len': "unat (w - (r + 1)) = n" using len n by linarith
  have up: "[0..<Suc n] = 0 # map Suc [0..<n]" by (simp add: upt_conv_Cons map_Suc_upt del: upt_Suc)
  have "r + word_of_nat (Suc k) = r + 1 + word_of_nat k" for k :: nat by simp
  then show "ring_list d r w = ring_nth d r # ring_list d (r + 1) w"
    unfolding ring_list_def n len' up list.map map_map o_def by (simp add: add.assoc)
qed

text \<open>Taking back the latest element.\<close>

lemma unappend:
  assumes "r \<noteq> w"
  shows "ring_list d r (w - 1) = butlast (ring_list d r w)" "last (ring_list d r w) = ring_nth d (w - 1)"
proof -
  have eq: "w - 1 - r = (w - r) - 1" by simp
  have nz: "w - r \<noteq> 0" using assms by auto
  then obtain n where n: "unat (w - r) = Suc n" by (metis not0_implies_Suc unat_eq_zero)
  have len: "unat (w - 1 - r) = n" unfolding eq using unat_dec [OF nz] n by linarith
  have "w - r = word_of_nat (Suc n)" unfolding n [symmetric] by simp
  then have "w - 1 = r + word_of_nat n" by (simp add: algebra_simps)
  then show "ring_list d r (w - 1) = butlast (ring_list d r w)" "last (ring_list d r w) = ring_nth d (w - 1)"
    unfolding ring_list_def n len by simp_all
qed

end

end
