(* ===== verification/Console.thy ===== *)
theory Console
  imports Ring
begin

text \<open>
  The console, \<open>console.c\<close>: formatted output, the CGA screen and the line discipline of the input. The screen is the
  video memory \<open>cons_crt\<close> of 25 rows and the cursor registers of the display, which return what was last
  written to them. Characters sent to the serial port are collected in \<open>cons_uart\<close>. Sections under \<open>cons.lock\<close> are
  atomic. An input device is the list of the values its \<open>getc\<close> returns before the first negative one.
\<close>

abbreviation (input) BACKSPACE :: u32 where "BACKSPACE \<equiv> 0x100"
abbreviation (input) INPUT_BUF :: u32 where "INPUT_BUF \<equiv> 128"

record console =
  cons_locking :: bool
  cons_uart :: "u32 list"
  cons_crt :: "u16 list"
  cons_pos :: int
  cons_buf :: "u8 list"
  cons_r :: u32
  cons_w :: u32
  cons_e :: u32

section \<open>Output\<close>

definition uartputc :: "u32 \<Rightarrow> console \<Rightarrow> console" where
  "uartputc c s = s\<lparr>cons_uart := cons_uart s @ [c]\<rparr>"

text \<open>\<open>crt[pos] = v\<close>\<close>

definition crt_put :: "int \<Rightarrow> u16 \<Rightarrow> console \<Rightarrow> console option" where
  "crt_put pos v s =
     (if 0 \<le> pos \<and> pos < int (length (cons_crt s)) then Some (s\<lparr>cons_crt := (cons_crt s)[nat pos := v]\<rparr>) else ub)"

definition crt_scroll :: "u16 list \<Rightarrow> int \<Rightarrow> u16 list" where
  "crt_scroll crt pos =
     (let crt = take 1840 (drop 80 crt) @ drop 1840 crt
      in take (nat pos) crt @ replicate (nat (1920 - pos)) 0 @ drop 1920 crt)"

definition cgaputc :: "u32 \<Rightarrow> console \<Rightarrow> console option" where
  "cgaputc c s = do {
     let pos = cons_pos s;
     (pos, s) \<leftarrow>
       (if c = 10 then Some (pos + (80 - pos mod 80), s)
        else if c = BACKSPACE then Some (if 0 < pos then pos - 1 else pos, s)
        else do { s \<leftarrow> crt_put pos (ucast (c AND 0xff) OR 0x0700) s; Some (pos + 1, s) });
     if pos < 0 \<or> 2000 < pos then panic ''pos under/overflow''
     else do {
       let (pos, s) = (if 24 \<le> pos div 80 then (pos - 80, s\<lparr>cons_crt := crt_scroll (cons_crt s) (pos - 80)\<rparr>) else (pos, s));
       crt_put pos 0x0720 (s\<lparr>cons_pos := pos\<rparr>) } }"

definition consputc :: "u32 \<Rightarrow> console \<Rightarrow> console option" where
  "consputc c s =
     cgaputc c (if c = BACKSPACE then uartputc 8 (uartputc 32 (uartputc 8 s)) else uartputc c s)"

section \<open>Formatted output\<close>

definition digit :: "u32 \<Rightarrow> u32" where
  "digit d = (if d < 10 then d + 48 else d + 87)"

text \<open>The digits in the order in which the loop of \<open>printint\<close> produces them, the lowest first.\<close>

function (sequential) print_digits :: "u32 \<Rightarrow> u32 \<Rightarrow> u32 list" where
  "print_digits base x =
     (if base < 2 then [] else if x div base = 0 then [digit (x mod base)] else digit (x mod base) # print_digits base (x div base))"
  by pat_completeness auto

termination print_digits
proof (relation "measure (\<lambda>(base, x). unat x)")
  fix base x :: u32
  assume "\<not> base < 2" "x div base \<noteq> 0"
  then have "2 \<le> unat base" "0 < unat x" by (cases "x = 0"; auto simp: word_less_nat_alt unat_gt_0)+
  then have "unat x div unat base < unat x" by (intro div_less_dividend) simp_all
  then show "((base, x div base), base, x) \<in> measure (\<lambda>(base, x). unat x)" by (simp add: unat_div)
qed simp

definition printint :: "u32 \<Rightarrow> u32 \<Rightarrow> bool \<Rightarrow> u32 list" where
  "printint xx base sg =
     (let neg = (sg \<and> sint xx < 0);
          x = (if neg then - xx else xx)
      in rev (print_digits base x @ (if neg then [45] else [])))"

datatype cprintf_arg = IntArg u32 | StrArg "u32 list option"

text \<open>
  The characters that \<open>cprintf\<close> passes to \<open>consputc\<close>. A conversion takes the next argument word, as a number or as the
  string it points at; an argument that is missing or of the other kind has no defined result.
\<close>

fun cprintf_chars :: "u32 list \<Rightarrow> cprintf_arg list \<Rightarrow> u32 list option" where
  "cprintf_chars [] args = Some []"
| "cprintf_chars (c # fmt) args =
     (if c \<noteq> 37 then map_option ((#) c) (cprintf_chars fmt args)
      else case fmt of
        [] \<Rightarrow> Some []
      | d # fmt' \<Rightarrow>
          if d = 100 \<or> d = 120 \<or> d = 112 then
            (case args of
               IntArg n # args' \<Rightarrow>
                 map_option ((@) (printint n (if d = 100 then 10 else 16) (d = 100))) (cprintf_chars fmt' args')
             | _ \<Rightarrow> ub)
          else if d = 115 then
            (case args of
               StrArg t # args' \<Rightarrow>
                 map_option ((@) (case t of None \<Rightarrow> [40, 110, 117, 108, 108, 41] | Some t \<Rightarrow> t)) (cprintf_chars fmt' args')
             | _ \<Rightarrow> ub)
          else if d = 37 then map_option ((#) 37) (cprintf_chars fmt' args)
          else map_option ((@) [37, d]) (cprintf_chars fmt' args))"

definition cprintf :: "u32 list \<Rightarrow> cprintf_arg list \<Rightarrow> console \<Rightarrow> console option" where
  "cprintf fmt args s = do {
     cs \<leftarrow> cprintf_chars fmt args;
     for_each consputc cs s }"

section \<open>Input\<close>

text \<open>\<open>C('U')\<close>: delete back to the last committed character or the end of the line before.\<close>

partial_function (option) kill_line :: "console \<Rightarrow> console option" where
  "kill_line s =
     (if cons_e s \<noteq> cons_w s \<and> ring_nth (cons_buf s) (cons_e s - 1) \<noteq> 10
      then do { s \<leftarrow> consputc BACKSPACE (s\<lparr>cons_e := cons_e s - 1\<rparr>); kill_line s }
      else Some s)"

text \<open>One character; the flags are whether the readers are woken and whether \<open>procdump\<close> is called at the end.\<close>

definition consoleintr_char :: "u32 \<Rightarrow> console \<Rightarrow> ((bool \<times> bool) \<times> console) option" where
  "consoleintr_char c s =
     (if c = 0x10 then Some ((False, True), s)
      else if c = 0x15 then do { s \<leftarrow> kill_line s; Some ((False, False), s) }
      else if c = 8 \<or> c = 0x7f then
        (if cons_e s \<noteq> cons_w s then do { s \<leftarrow> consputc BACKSPACE (s\<lparr>cons_e := cons_e s - 1\<rparr>); Some ((False, False), s) }
         else Some ((False, False), s))
      else if c \<noteq> 0 \<and> cons_e s - cons_r s < INPUT_BUF then do {
        let c = (if c = 13 then 10 else c);
        s \<leftarrow> consputc c (s\<lparr>cons_buf := ring_set (cons_buf s) (cons_e s) (ucast c), cons_e := cons_e s + 1\<rparr>);
        if c = 10 \<or> c = 4 \<or> cons_e s = cons_r s + INPUT_BUF then Some ((True, False), s\<lparr>cons_w := cons_e s\<rparr>)
        else Some ((False, False), s) }
      else Some ((False, False), s))"

fun consoleintr :: "u32 list \<Rightarrow> console \<Rightarrow> ((bool \<times> bool) \<times> console) option" where
  "consoleintr [] s = Some ((False, False), s)"
| "consoleintr (c # cs) s = do {
     ((w, d), s) \<leftarrow> consoleintr_char c s;
     ((ws, ds), s) \<leftarrow> consoleintr cs s;
     Some ((w \<or> ws, d \<or> ds), s) }"

text \<open>
  The loop of \<open>consoleread\<close>, with \<open>n\<close> bytes still wanted of \<open>target\<close>: the bytes delivered and how it ends; \<open>ReadWaits\<close> is a
  process gone to sleep for more input.
\<close>

datatype read_end = ReadDone | ReadKilled | ReadWaits

fun consoleread_loop :: "nat \<Rightarrow> nat \<Rightarrow> bool \<Rightarrow> console \<Rightarrow> read_end \<times> u8 list \<times> console" where
  "consoleread_loop 0 target killed s = (ReadDone, [], s)"
| "consoleread_loop (Suc n) target killed s =
     (if cons_r s = cons_w s then (if killed then (ReadKilled, [], s) else (ReadWaits, [], s))
      else
        let c = ring_nth (cons_buf s) (cons_r s);
            s' = s\<lparr>cons_r := cons_r s + 1\<rparr> in
        if c = 4 then (ReadDone, [], if Suc n < target then s else s')
        else if c = 10 then (ReadDone, [c], s')
        else
          let (r, xs, s'') = consoleread_loop n target killed s'
          in (r, c # xs, s''))"

end
