(* ===== verification/Console_Props.thy ===== *)
theory Console_Props
  imports Console
begin

text \<open>
  The properties of the console: the cursor stays on the screen, so that no output panics; and the input buffer with its three
  counters is a list of committed bytes followed by the line being edited.
\<close>

interpretation ib: ring 128
  by unfold_locales simp_all

section \<open>The screen\<close>

definition screen_ok :: "console \<Rightarrow> bool" where
  "screen_ok s \<longleftrightarrow> length (cons_crt s) = 2000 \<and> 0 \<le> cons_pos s \<and> cons_pos s < 1920"

text \<open>Output changes only the devices.\<close>

definition same_input :: "console \<Rightarrow> console \<Rightarrow> bool" where
  "same_input s t \<longleftrightarrow> cons_buf t = cons_buf s \<and> cons_r t = cons_r s \<and> cons_w t = cons_w s \<and> cons_e t = cons_e s \<and> cons_locking t = cons_locking s"

lemma same_input_trans: "same_input s t \<Longrightarrow> same_input t u \<Longrightarrow> same_input s u"
  by (simp add: same_input_def)

lemma crt_put_ok:
  assumes "0 \<le> pos" "pos < int (length (cons_crt s))"
  obtains t where "crt_put pos v s = Some t" "length (cons_crt t) = length (cons_crt s)" "cons_pos t = cons_pos s" "same_input s t"
  using assms by (simp add: crt_put_def same_input_def)

lemma length_crt_scroll: "length crt = 2000 \<Longrightarrow> 0 \<le> pos \<Longrightarrow> pos \<le> 1920 \<Longrightarrow> length (crt_scroll crt pos) = 2000"
  by (simp add: crt_scroll_def Let_def)

lemma newline_pos: "0 \<le> (pos :: int) \<Longrightarrow> pos < 1920 \<Longrightarrow> 0 \<le> pos + (80 - pos mod 80) \<and> pos + (80 - pos mod 80) \<le> 1920"
  by presburger

lemma cgaputc_end:
  assumes "length (cons_crt s) = 2000" "0 \<le> pos" "pos \<le> 1920"
  shows "\<exists>t. (let (pos, s) = (if 24 \<le> pos div 80 then (pos - 80, s\<lparr>cons_crt := crt_scroll (cons_crt s) (pos - 80)\<rparr>) else (pos, s))
      in crt_put pos 0x0720 (s\<lparr>cons_pos := pos\<rparr>)) = Some t \<and> screen_ok t \<and> same_input s t"
proof (cases "24 \<le> pos div 80")
  case True
  then have p: "pos = 1920" using assms by presburger
  then show ?thesis using length_crt_scroll [OF assms(1), of 1840] by (simp add: crt_put_def screen_ok_def same_input_def)
next
  case False
  then have "pos < 1920" using assms by presburger
  then show ?thesis using False assms by (simp add: crt_put_def screen_ok_def same_input_def)
qed

lemma cgaputc_ok:
  assumes "screen_ok s"
  shows "\<exists>t. cgaputc c s = Some t \<and> screen_ok t \<and> same_input s t"
proof -
  have s: "length (cons_crt s) = 2000" "0 \<le> cons_pos s" "cons_pos s < 1920" using assms by (simp_all add: screen_ok_def)
  have np: "0 \<le> cons_pos s + (80 - cons_pos s mod 80)" "cons_pos s + (80 - cons_pos s mod 80) \<le> 1920" using newline_pos [OF s(2,3)] by auto
  obtain u where u: "crt_put (cons_pos s) (ucast (c AND 0xff) OR 0x0700) s = Some u" "length (cons_crt u) = length (cons_crt s)" "cons_pos u = cons_pos s" "same_input s u"
    by (rule crt_put_ok [of "cons_pos s" s "ucast (c AND 0xff) OR 0x0700"]) (use s in simp_all)
  consider "c = 10" | "c \<noteq> 10" "c = 0x100" | "c \<noteq> 10" "c \<noteq> 0x100" by blast
  then show ?thesis
  proof cases
    case 1
    then show ?thesis using cgaputc_end [OF s(1) np] np by (simp add: cgaputc_def Let_def)
  next
    case 2
    then show ?thesis using cgaputc_end [OF s(1), of "if 0 < cons_pos s then cons_pos s - 1 else cons_pos s"] s by (simp add: cgaputc_def Let_def)
  next
    case 3
    have "length (cons_crt u) = 2000" "0 \<le> cons_pos s + 1" "cons_pos s + 1 \<le> 1920" using s u(2) by simp_all
    from cgaputc_end [OF this] obtain t where t: "(let (pos, s) = (if 24 \<le> (cons_pos s + 1) div 80 then (cons_pos s + 1 - 80, u\<lparr>cons_crt := crt_scroll (cons_crt u) (cons_pos s + 1 - 80)\<rparr>) else (cons_pos s + 1, u))
      in crt_put pos 0x0720 (s\<lparr>cons_pos := pos\<rparr>)) = Some t" "screen_ok t" "same_input u t" by blast
    then have "cgaputc c s = Some t" using 3 u(1) s by (simp add: cgaputc_def Let_def)
    then show ?thesis using t u(4) same_input_trans by blast
  qed
qed

lemma consputc_ok:
  assumes "screen_ok s"
  shows "\<exists>t. consputc c s = Some t \<and> screen_ok t \<and> same_input s t"
proof -
  let ?u = "if c = BACKSPACE then uartputc 8 (uartputc 32 (uartputc 8 s)) else uartputc c s"
  have "screen_ok ?u" "same_input s ?u" using assms by (simp_all add: screen_ok_def same_input_def uartputc_def)
  then show ?thesis using cgaputc_ok [of ?u c] same_input_trans unfolding consputc_def by blast
qed

lemma output_ok:
  "screen_ok s \<Longrightarrow> \<exists>t. for_each consputc cs s = Some t \<and> screen_ok t \<and> same_input s t"
proof (induction cs arbitrary: s)
  case Nil
  then show ?case by (simp add: same_input_def)
next
  case (Cons c cs)
  obtain u where u: "consputc c s = Some u" "screen_ok u" "same_input s u" using consputc_ok [OF Cons.prems] by blast
  obtain t where "for_each consputc cs u = Some t" "screen_ok t" "same_input u t" using Cons.IH [OF u(2)] by blast
  then show ?case using u same_input_trans by auto
qed

section \<open>The input\<close>

definition committed :: "console \<Rightarrow> u8 list" where
  "committed s = ring_list (cons_buf s) (cons_r s) (cons_w s)"

definition edit_line :: "console \<Rightarrow> u8 list" where
  "edit_line s = ring_list (cons_buf s) (cons_w s) (cons_e s)"

definition input_ok :: "console \<Rightarrow> bool" where
  "input_ok s \<longleftrightarrow> length (cons_buf s) = 128 \<and> unat (cons_w s - cons_r s) \<le> unat (cons_e s - cons_r s) \<and> unat (cons_e s - cons_r s) \<le> 128
     \<and> 10 \<notin> set (edit_line s)"

definition console_ok :: "console \<Rightarrow> bool" where
  "console_ok s \<longleftrightarrow> screen_ok s \<and> input_ok s"

lemma same_input_lines:
  assumes "same_input s t"
  shows "committed t = committed s" "edit_line t = edit_line s" "input_ok t = input_ok s"
  using assms by (auto simp: same_input_def committed_def edit_line_def input_ok_def)

text \<open>What the input does, on the committed bytes and the line being edited.\<close>

fun line_char :: "u32 \<Rightarrow> u8 list \<times> u8 list \<Rightarrow> u8 list \<times> u8 list" where
  "line_char c (com, ed) =
     (if c = 0x10 then (com, ed)
      else if c = 0x15 then (com, [])
      else if c = 8 \<or> c = 0x7f then (com, butlast ed)
      else if c \<noteq> 0 \<and> length com + length ed < 128 then
        let c = (if c = 13 then 10 else c); ed = ed @ [ucast c] in
        if c = 10 \<or> c = 4 \<or> length com + length ed = 128 then (com @ ed, []) else (com, ed)
      else (com, ed))"

declare line_char.simps [simp del]

lemma ring_split:
  assumes "unat (w - r) \<le> unat (e - r)"
  shows "unat (e - w) = unat (e - r) - unat (w - r)" "ring_list d r e = ring_list d r w @ ring_list d w e"
proof -
  have eq: "e - w = (e - r) - (w - r)" by simp
  show len: "unat (e - w) = unat (e - r) - unat (w - r)" unfolding eq using assms by (intro unat_sub) (simp add: word_le_nat_alt)
  let ?n = "unat (w - r)" and ?m = "unat (e - r)"
  have "[0..<?m] = [0..<?n] @ map (\<lambda>k. ?n + k) [0..<?m - ?n]" using assms by (intro nth_equalityI) (auto simp: nth_append)
  moreover have "r + word_of_nat (?n + k) = w + word_of_nat k" for k by (simp add: algebra_simps)
  ultimately show "ring_list d r e = ring_list d r w @ ring_list d w e" unfolding ring_list_def len by (simp add: o_def)
qed

lemma input_lengths:
  assumes "input_ok s"
  shows "length (committed s) + length (edit_line s) = unat (cons_e s - cons_r s)" "cons_e s \<noteq> cons_w s \<longleftrightarrow> edit_line s \<noteq> []"
proof -
  have "unat (cons_w s - cons_r s) \<le> unat (cons_e s - cons_r s)" using assms by (simp add: input_ok_def)
  from ring_split(1) [OF this] this show "length (committed s) + length (edit_line s) = unat (cons_e s - cons_r s)"
    by (simp add: committed_def edit_line_def)
  have "edit_line s = [] \<longleftrightarrow> unat (cons_e s - cons_w s) = 0" by (metis length_0_conv length_ring_list edit_line_def)
  then show "cons_e s \<noteq> cons_w s \<longleftrightarrow> edit_line s \<noteq> []" by (simp add: unat_eq_0)
qed

text \<open>Taking back one character.\<close>

lemma backspace_ok:
  assumes "console_ok s" "edit_line s \<noteq> []"
  shows "\<exists>t. consputc BACKSPACE (s\<lparr>cons_e := cons_e s - 1\<rparr>) = Some t \<and> console_ok t \<and> committed t = committed s \<and> edit_line t = butlast (edit_line s)
    \<and> cons_w t = cons_w s \<and> cons_e t = cons_e s - 1"
proof -
  let ?s = "s\<lparr>cons_e := cons_e s - 1\<rparr>"
  have i: "input_ok s" "screen_ok s" using assms(1) by (simp_all add: console_ok_def)
  have e: "cons_e s \<noteq> cons_w s" using input_lengths(2) [OF i(1)] assms(2) by simp
  have ed: "edit_line ?s = butlast (edit_line s)" using ib.unappend(1) [of "cons_w s" "cons_e s"] e by (simp add: edit_line_def)
  have n: "length (committed s) + length (edit_line s) = unat (cons_e s - cons_r s)" by (rule input_lengths [OF i(1)])
  have pos: "0 < length (edit_line s)" using assms(2) by simp
  then have "unat (cons_e s - cons_r s) \<noteq> 0" using n by linarith
  then have "cons_e s - cons_r s \<noteq> 0" by auto
  then have "unat (cons_e s - cons_r s - 1) = unat (cons_e s - cons_r s) - 1" by (rule unat_dec)
  then have u: "unat (cons_e ?s - cons_r s) = unat (cons_e s - cons_r s) - 1" by (simp add: algebra_simps)
  have "length (committed s) < unat (cons_e s - cons_r s)" using n pos by linarith
  then have "input_ok ?s" using i(1) u ed in_set_butlastD [of 10 "edit_line s"] by (auto simp: input_ok_def committed_def)
  moreover obtain t where "consputc BACKSPACE ?s = Some t" "screen_ok t" "same_input ?s t"
    using consputc_ok [of ?s BACKSPACE] i(2) by (auto simp: screen_ok_def)
  moreover have "committed ?s = committed s" by (simp add: committed_def)
  ultimately show ?thesis using same_input_lines [of ?s t] ed by (auto simp: console_ok_def same_input_def)
qed

lemma kill_line_ok:
  "console_ok s \<Longrightarrow> \<exists>t. kill_line s = Some t \<and> console_ok t \<and> committed t = committed s \<and> edit_line t = []"
proof (induction "length (edit_line s)" arbitrary: s)
  case 0
  then have "cons_e s = cons_w s" using input_lengths(2) [of s] by (auto simp: console_ok_def)
  then show ?case using 0 by (subst kill_line.simps) simp
next
  case (Suc n)
  then have ne: "edit_line s \<noteq> []" by auto
  have i: "input_ok s" using Suc.prems by (simp add: console_ok_def)
  have e: "cons_e s \<noteq> cons_w s" using input_lengths(2) [OF i] ne by simp
  have "last (edit_line s) = ring_nth (cons_buf s) (cons_e s - 1)" using ib.unappend(2) [of "cons_w s" "cons_e s"] e by (simp add: edit_line_def)
  then have nl: "ring_nth (cons_buf s) (cons_e s - 1) \<noteq> 10" using last_in_set [OF ne] i by (auto simp: input_ok_def)
  obtain t where t: "consputc BACKSPACE (s\<lparr>cons_e := cons_e s - 1\<rparr>) = Some t" "console_ok t" "committed t = committed s" "edit_line t = butlast (edit_line s)"
    using backspace_ok [OF Suc.prems ne] by blast
  have "n = length (edit_line t)" using t(4) Suc.hyps(2) by simp
  from Suc.hyps(1) [OF this t(2)] show ?case using t e nl by (subst kill_line.simps) auto
qed

text \<open>A character that is stored.\<close>

lemma store_ok:
  assumes "console_ok s" "length (committed s) + length (edit_line s) < 128"
  shows "\<exists>t. consputc c (s\<lparr>cons_buf := ring_set (cons_buf s) (cons_e s) x, cons_e := cons_e s + 1\<rparr>) = Some t \<and> screen_ok t
    \<and> length (cons_buf t) = 128 \<and> cons_r t = cons_r s \<and> cons_w t = cons_w s \<and> cons_e t = cons_e s + 1
    \<and> unat (cons_e t - cons_r t) = Suc (length (committed s) + length (edit_line s)) \<and> unat (cons_w t - cons_r t) \<le> unat (cons_e t - cons_r t)
    \<and> committed t = committed s \<and> edit_line t = edit_line s @ [x]"
proof -
  let ?s = "s\<lparr>cons_buf := ring_set (cons_buf s) (cons_e s) x, cons_e := cons_e s + 1\<rparr>"
  have i: "input_ok s" "screen_ok s" using assms(1) by (simp_all add: console_ok_def)
  have len: "length (cons_buf s) = 128" and le: "unat (cons_w s - cons_r s) \<le> unat (cons_e s - cons_r s)" using i(1) by (simp_all add: input_ok_def)
  note n = input_lengths(1) [OF i(1)]
  have lt: "unat (cons_e s - cons_r s) < 128" using assms(2) n by simp
  have we: "unat (cons_e s - cons_w s) < 128" using ring_split(1) [OF le] lt by simp
  note all = ib.append(1) [where x = x, OF len lt] ib.append(2) [OF len lt] and ed = ib.append(1) [where x = x, OF len we]
  have "edit_line ?s = edit_line s @ [x]" using ed by (simp add: edit_line_def)
  moreover have le': "unat (cons_w s - cons_r s) \<le> unat (cons_e ?s - cons_r s)" using all(2) le by simp
  moreover have "committed ?s = committed s"
  proof -
    have "committed ?s @ edit_line ?s = (committed s @ edit_line s) @ [x]"
      using ring_split(2) [OF le', of "cons_buf ?s"] ring_split(2) [OF le, of "cons_buf s"] all(1) by (simp add: committed_def edit_line_def)
    then show ?thesis using \<open>edit_line ?s = edit_line s @ [x]\<close> by simp
  qed
  moreover obtain t where "consputc c ?s = Some t" "screen_ok t" "same_input ?s t"
    using consputc_ok [of ?s c] i(2) by (auto simp: screen_ok_def)
  ultimately show ?thesis using same_input_lines [of ?s t] all(2) n len by (auto simp: same_input_def)
qed

lemma consoleintr_char_ok:
  assumes "console_ok s" "c < 256"
  shows "\<exists>f t. consoleintr_char c s = Some (f, t) \<and> console_ok t \<and> (committed t, edit_line t) = line_char c (committed s, edit_line s)"
proof -
  have i: "input_ok s" using assms(1) by (simp add: console_ok_def)
  note n = input_lengths [OF i]
  have room: "cons_e s - cons_r s < 128 \<longleftrightarrow> length (committed s) + length (edit_line s) < 128" using n(1) by (simp add: word_less_nat_alt)
  consider "c = 0x10" | "c = 0x15" | "c = 8 \<or> c = 0x7f" | "c \<notin> {0x10, 0x15, 8, 0x7f}" "c \<noteq> 0" "length (committed s) + length (edit_line s) < 128"
    | "c \<notin> {0x10, 0x15, 8, 0x7f}" "\<not> (c \<noteq> 0 \<and> length (committed s) + length (edit_line s) < 128)" by blast
  then show ?thesis
  proof cases
    case 2
    then show ?thesis using kill_line_ok [OF assms(1)] by (auto simp: consoleintr_char_def line_char.simps)
  next
    case 3
    then show ?thesis using backspace_ok [OF assms(1)] n(2) assms(1) by (cases "edit_line s = []") (auto simp: consoleintr_char_def line_char.simps)
  next
    case 4
    define k where "k = (if c = 13 then 10 else c)"
    have k: "k < 256" using assms(2) by (simp add: k_def)
    have uc: "(ucast k :: u8) = 10 \<longleftrightarrow> k = 10" using k by (simp add: word_unat_eq_iff word_less_nat_alt take_bit_eq_mod unsigned_ucast_eq)
    obtain t where t: "consputc k (s\<lparr>cons_buf := ring_set (cons_buf s) (cons_e s) (ucast k), cons_e := cons_e s + 1\<rparr>) = Some t" "screen_ok t"
      "length (cons_buf t) = 128" "cons_r t = cons_r s" "cons_w t = cons_w s" "cons_e t = cons_e s + 1"
      "unat (cons_e t - cons_r t) = Suc (length (committed s) + length (edit_line s))" "unat (cons_w t - cons_r t) \<le> unat (cons_e t - cons_r t)"
      "committed t = committed s" "edit_line t = edit_line s @ [ucast k]" using store_ok [OF assms(1) 4(3)] by blast
    have full: "cons_e t = cons_r t + 128 \<longleftrightarrow> Suc (length (committed s) + length (edit_line s)) = 128"
    proof -
      have "cons_e t = cons_r t + 128 \<longleftrightarrow> cons_e t - cons_r t = 128" by (auto simp: algebra_simps)
      also have "\<dots> \<longleftrightarrow> unat (cons_e t - cons_r t) = 128" by (simp add: word_unat_eq_iff)
      finally show ?thesis using t(7) by simp
    qed
    show ?thesis
    proof (cases "k = 10 \<or> k = 4 \<or> Suc (length (committed s) + length (edit_line s)) = 128")
      case True
      let ?t = "t\<lparr>cons_w := cons_e t\<rparr>"
      have "committed ?t = committed s @ edit_line s @ [ucast k]"
        using ring_split(2) [OF t(8), of "cons_buf t"] t(9,10) by (simp add: committed_def edit_line_def)
      moreover have "edit_line ?t = []" by (simp add: edit_line_def)
      moreover from this have "console_ok ?t" using t(2,3,7) 4(3) by (simp add: console_ok_def input_ok_def screen_ok_def)
      moreover have "consoleintr_char c s = Some ((True, False), ?t)"
        using 4 room t(1) True full by (simp add: consoleintr_char_def k_def [symmetric])
      ultimately show ?thesis using 4 True by (auto simp: line_char.simps k_def [symmetric])
    next
      case False
      have "10 \<notin> set (edit_line t)" using t(10) uc False i by (simp add: input_ok_def)
      then have "console_ok t" using t(2,3,7,8) 4(3) by (simp add: console_ok_def input_ok_def)
      moreover have "consoleintr_char c s = Some ((False, False), t)"
        using 4 room t(1) False full by (simp add: consoleintr_char_def k_def [symmetric])
      ultimately show ?thesis using 4 False t(9,10) by (auto simp: line_char.simps k_def [symmetric])
    qed
  qed (use assms(1) room in \<open>auto simp: consoleintr_char_def line_char.simps\<close>)
qed

lemma consoleintr_ok:
  "console_ok s \<Longrightarrow> \<forall>c \<in> set cs. c < 256 \<Longrightarrow>
   \<exists>f t. consoleintr cs s = Some (f, t) \<and> console_ok t \<and> (committed t, edit_line t) = fold line_char cs (committed s, edit_line s)"
proof (induction cs arbitrary: s)
  case (Cons c cs)
  have c: "c < 256" "\<forall>c \<in> set cs. c < 256" using Cons.prems(2) by simp_all
  obtain f u where u: "consoleintr_char c s = Some (f, u)" "console_ok u" "(committed u, edit_line u) = line_char c (committed s, edit_line s)"
    using consoleintr_char_ok [OF Cons.prems(1) c(1)] by blast
  obtain g t where "consoleintr cs u = Some (g, t)" "console_ok t" "(committed t, edit_line t) = fold line_char cs (committed u, edit_line u)"
    using Cons.IH [OF u(2) c(2)] by blast
  then show ?case using u by (cases f; cases g) simp
qed auto

text \<open>Reading takes committed bytes in order: up to \<open>n\<close>, or through the end of a line, or up to an end-of-file mark, which is consumed or kept.\<close>

lemma read_step:
  assumes "input_ok s" "cons_r s \<noteq> cons_w s"
  shows "committed s = ring_nth (cons_buf s) (cons_r s) # committed (s\<lparr>cons_r := cons_r s + 1\<rparr>)"
    "input_ok (s\<lparr>cons_r := cons_r s + 1\<rparr>)" "edit_line (s\<lparr>cons_r := cons_r s + 1\<rparr>) = edit_line s"
proof -
  have le: "unat (cons_w s - cons_r s) \<le> unat (cons_e s - cons_r s)" using assms(1) by (simp add: input_ok_def)
  show "committed s = ring_nth (cons_buf s) (cons_r s) # committed (s\<lparr>cons_r := cons_r s + 1\<rparr>)"
    using ib.remove(1) [OF assms(2)] by (simp add: committed_def)
  have "unat (cons_w s - cons_r s) \<noteq> 0" using assms(2) by (simp add: unat_eq_0)
  then have "cons_r s \<noteq> cons_e s" using le by auto
  then show "input_ok (s\<lparr>cons_r := cons_r s + 1\<rparr>)"
    using ib.remove(2) [OF assms(2)] ib.remove(2) [of "cons_r s" "cons_e s"] le assms(1) by (auto simp: input_ok_def edit_line_def)
qed (simp add: edit_line_def)

lemma consoleread_ok:
  "consoleread_loop n target killed s = (r, xs, t) \<Longrightarrow> input_ok s \<Longrightarrow>
   \<exists>d. committed s = xs @ d @ committed t \<and> (d = [] \<or> d = [4]) \<and> edit_line t = edit_line s \<and> input_ok t \<and> length xs \<le> n
     \<and> 4 \<notin> set xs \<and> 10 \<notin> set (butlast xs) \<and> cons_crt t = cons_crt s \<and> cons_pos t = cons_pos s"
proof (induction n arbitrary: s r xs t)
  case (Suc n)
  let ?c = "ring_nth (cons_buf s) (cons_r s)" and ?s = "s\<lparr>cons_r := cons_r s + 1\<rparr>"
  show ?case
  proof (cases "cons_r s = cons_w s \<or> ?c = 4 \<or> ?c = 10")
    case True
    then show ?thesis using Suc.prems read_step [OF Suc.prems(2)] by (auto simp: Let_def split: if_splits)
  next
    case False
    then obtain ys where ys: "consoleread_loop n target killed ?s = (r, ys, t)" "xs = ?c # ys"
      using Suc.prems(1) by (auto simp: Let_def split: prod.splits if_splits)
    have "cons_r s \<noteq> cons_w s" using False by simp
    note st = read_step [OF Suc.prems(2) this]
    from Suc.IH [OF ys(1) st(2)] show ?thesis using st ys(2) False by (auto split: if_splits)
  qed
qed simp

section \<open>Properties\<close>

text \<open>
  C30: the console stays well formed and never panics. Whatever is printed and whatever bytes arrive, the cursor stays within the
  24 rows it uses of the screen and every write to the video memory is inside it, the three counters of the input buffer stay in order with at most
  \<open>INPUT_BUF\<close> bytes between them, across the wrap-around of the counters, and no unfinished line contains a newline.
\<close>

theorem console_type:
  assumes "console_ok s"
  shows "(\<forall>fmt args cs. cprintf_chars fmt args = Some cs \<longrightarrow> (\<exists>t. cprintf fmt args s = Some t \<and> console_ok t)) \<and>
    (\<forall>cs. (\<forall>c \<in> set cs. c < 256) \<longrightarrow> (\<exists>f t. consoleintr cs s = Some (f, t) \<and> console_ok t)) \<and>
    (\<forall>n target killed. console_ok (snd (snd (consoleread_loop n target killed s))))"
proof (intro conjI allI impI)
  fix fmt args cs assume "cprintf_chars fmt args = Some cs"
  moreover obtain t where "for_each consputc cs s = Some t" "screen_ok t" "same_input s t" using output_ok [of s cs] assms by (auto simp: console_ok_def)
  ultimately show "\<exists>t. cprintf fmt args s = Some t \<and> console_ok t"
    using same_input_lines(3) [of s t] assms by (auto simp: cprintf_def console_ok_def)
next
  fix cs :: "u32 list" assume "\<forall>c \<in> set cs. c < 256"
  from consoleintr_ok [OF assms this] show "\<exists>f t. consoleintr cs s = Some (f, t) \<and> console_ok t" by blast
next
  fix n target killed
  obtain r xs t where "consoleread_loop n target killed s = (r, xs, t)" using prod_cases3 by blast
  moreover from consoleread_ok [OF this] have "console_ok t" using assms by (auto simp: console_ok_def screen_ok_def)
  ultimately show "console_ok (snd (snd (consoleread_loop n target killed s)))" by simp
qed

text \<open>
  C31: the ring buffer implements line editing on lists. The interrupt handler acts on the committed bytes and the line being edited as
  \<open>line_char\<close> says: backspace drops the last byte of the line, kill drops the line, and only a newline, an end-of-file mark or a full buffer
  commits it. A read returns committed bytes in order, none twice and none lost but an end-of-file mark it consumes.
\<close>

theorem console_line:
  assumes "console_ok s" "\<forall>c \<in> set cs. c < 256"
  shows "\<exists>f t. consoleintr cs s = Some (f, t) \<and> (committed t, edit_line t) = fold line_char cs (committed s, edit_line s) \<and>
    (\<forall>n target killed. case consoleread_loop n target killed t of (r, xs, u) \<Rightarrow>
      \<exists>d. committed t = xs @ d @ committed u \<and> (d = [] \<or> d = [4]) \<and> edit_line u = edit_line t \<and> length xs \<le> n \<and> 4 \<notin> set xs \<and> 10 \<notin> set (butlast xs))"
proof -
  obtain f t where t: "consoleintr cs s = Some (f, t)" "console_ok t" "(committed t, edit_line t) = fold line_char cs (committed s, edit_line s)"
    using consoleintr_ok [OF assms] by blast
  have "case consoleread_loop n target killed t of (r, xs, u) \<Rightarrow>
      \<exists>d. committed t = xs @ d @ committed u \<and> (d = [] \<or> d = [4]) \<and> edit_line u = edit_line t \<and> length xs \<le> n \<and> 4 \<notin> set xs \<and> 10 \<notin> set (butlast xs)"
    for n target killed
  proof -
    obtain r xs u where e: "consoleread_loop n target killed t = (r, xs, u)" using prod_cases3 by blast
    from consoleread_ok [OF this] t(2) show ?thesis unfolding e by (simp add: console_ok_def) blast
  qed
  then show ?thesis using t(1,3) by blast
qed

section \<open>An example\<close>

definition sample_console :: console where
  "sample_console = \<lparr>cons_locking = True, cons_uart = [], cons_crt = replicate 2000 0, cons_pos = 1919, cons_buf = replicate 128 0,
     cons_r = 0xffffffff, cons_w = 0xffffffff, cons_e = 0xffffffff\<rparr>"

lemma sample_console_ok: "console_ok sample_console"
  by (simp add: console_ok_def screen_ok_def input_ok_def edit_line_def sample_console_def)

theorem console_type_witness: "\<exists>t. cprintf [104, 105, 10] [] sample_console = Some t \<and> console_ok t"
  using console_type [OF sample_console_ok] by simp

text \<open>Typing \<open>ax\<close>, backspace, \<open>b\<close> and return, with counters that wrap.\<close>

theorem console_line_witness: "\<exists>f t. consoleintr [97, 120, 8, 98, 13] sample_console = Some (f, t) \<and> committed t = [97, 98, 10] \<and> edit_line t = []"
proof -
  have e: "committed sample_console = []" "edit_line sample_console = []" by (simp_all add: committed_def edit_line_def sample_console_def)
  have "\<forall>c \<in> set [97, 120, 8, 98, 13 :: u32]. c < 256" by simp
  from console_line [OF sample_console_ok this] obtain f t where "consoleintr [97, 120, 8, 98, 13] sample_console = Some (f, t)"
    "(committed t, edit_line t) = fold line_char [97, 120, 8, 98, 13] ([], [])" unfolding e by blast
  then show ?thesis by (simp add: line_char.simps)
qed

end
