(* ===== verification/Kbd.thy ===== *)
theory Kbd
  imports Console_Props
begin

text \<open>
  The keyboard driver, \<open>kbd.c\<close>, with the tables of \<open>kbd.h\<close>: the state is the set of modifier keys and locks in \<open>shift\<close>, and each byte of the controller
  gives a character or 0. Bytes the tables do not name are 0, as in C.
\<close>

section \<open>Tables\<close>

abbreviation (input) SHIFT :: u32 where "SHIFT \<equiv> 1"
abbreviation (input) CTL :: u32 where "CTL \<equiv> 2"
abbreviation (input) ALT :: u32 where "ALT \<equiv> 4"
abbreviation (input) CAPSLOCK :: u32 where "CAPSLOCK \<equiv> 8"
abbreviation (input) NUMLOCK :: u32 where "NUMLOCK \<equiv> 0x10"
abbreviation (input) SCROLLLOCK :: u32 where "SCROLLLOCK \<equiv> 0x20"
abbreviation (input) E0ESC :: u32 where "E0ESC \<equiv> 0x40"

definition shiftcode :: "nat \<Rightarrow> u32" where
  "shiftcode d =
     (if d = 0x1D \<or> d = 0x9D then CTL else if d = 0x2A \<or> d = 0x36 then SHIFT else if d = 0x38 \<or> d = 0xB8 then ALT else 0)"

definition togglecode :: "nat \<Rightarrow> u32" where
  "togglecode d = (if d = 0x3A then CAPSLOCK else if d = 0x45 then NUMLOCK else if d = 0x46 then SCROLLLOCK else 0)"

text \<open>A table of 256 entries from its first ones; the keys that send an escape byte first are the same in the three tables but for Enter and the slash of the keypad.\<close>

definition special_keys :: "(nat \<times> u8) list" where
  "special_keys = [(0xC8, 0xE2), (0xD0, 0xE3), (0xC9, 0xE6), (0xD1, 0xE7), (0xCB, 0xE4), (0xCD, 0xE5), (0x97, 0xE0), (0xCF, 0xE1), (0xD2, 0xE8), (0xD3, 0xE9)]"

definition keypad :: "(nat \<times> u8) list \<Rightarrow> u8 list \<Rightarrow> u8 list" where
  "keypad extra first = fold (\<lambda>(d, c) t. t[d := c]) (extra @ special_keys) (first @ replicate (256 - length first) 0)"

definition normalmap :: "u8 list" where
  "normalmap = keypad [(0x9C, 0x0A), (0xB5, 0x2F)]
    [0, 0x1B, 0x31, 0x32, 0x33, 0x34, 0x35, 0x36,
     0x37, 0x38, 0x39, 0x30, 0x2D, 0x3D, 0x08, 0x09,
     0x71, 0x77, 0x65, 0x72, 0x74, 0x79, 0x75, 0x69,
     0x6F, 0x70, 0x5B, 0x5D, 0x0A, 0, 0x61, 0x73,
     0x64, 0x66, 0x67, 0x68, 0x6A, 0x6B, 0x6C, 0x3B,
     0x27, 0x60, 0, 0x5C, 0x7A, 0x78, 0x63, 0x76,
     0x62, 0x6E, 0x6D, 0x2C, 0x2E, 0x2F, 0, 0x2A,
     0, 0x20, 0, 0, 0, 0, 0, 0,
     0, 0, 0, 0, 0, 0, 0, 0x37,
     0x38, 0x39, 0x2D, 0x34, 0x35, 0x36, 0x2B, 0x31,
     0x32, 0x33, 0x30, 0x2E, 0, 0, 0, 0]"

definition shiftmap :: "u8 list" where
  "shiftmap = keypad [(0x9C, 0x0A), (0xB5, 0x2F)]
    [0, 0x1B, 0x21, 0x40, 0x23, 0x24, 0x25, 0x5E,
     0x26, 0x2A, 0x28, 0x29, 0x5F, 0x2B, 0x08, 0x09,
     0x51, 0x57, 0x45, 0x52, 0x54, 0x59, 0x55, 0x49,
     0x4F, 0x50, 0x7B, 0x7D, 0x0A, 0, 0x41, 0x53,
     0x44, 0x46, 0x47, 0x48, 0x4A, 0x4B, 0x4C, 0x3A,
     0x22, 0x7E, 0, 0x7C, 0x5A, 0x58, 0x43, 0x56,
     0x42, 0x4E, 0x4D, 0x3C, 0x3E, 0x3F, 0, 0x2A,
     0, 0x20, 0, 0, 0, 0, 0, 0,
     0, 0, 0, 0, 0, 0, 0, 0x37,
     0x38, 0x39, 0x2D, 0x34, 0x35, 0x36, 0x2B, 0x31,
     0x32, 0x33, 0x30, 0x2E, 0, 0, 0, 0]"

definition ctlmap :: "u8 list" where
  "ctlmap = keypad [(0x9C, 0x0D), (0xB5, 0xEF)]
    [0, 0, 0, 0, 0, 0, 0, 0,
     0, 0, 0, 0, 0, 0, 0, 0,
     0x11, 0x17, 0x05, 0x12, 0x14, 0x19, 0x15, 0x09,
     0x0F, 0x10, 0, 0, 0x0D, 0, 0x01, 0x13,
     0x04, 0x06, 0x07, 0x08, 0x0A, 0x0B, 0x0C, 0,
     0, 0, 0, 0x1C, 0x1A, 0x18, 0x03, 0x16,
     0x02, 0x0E, 0x0D, 0, 0, 0xEF, 0, 0]"

definition charcode :: "u32 \<Rightarrow> u8 list" where
  "charcode k = (if k = 0 then normalmap else if k = SHIFT then shiftmap else ctlmap)"

section \<open>The driver\<close>

text \<open>
  One call of \<open>kbdgetc\<close>: \<open>st\<close> is the status byte of the controller and \<open>inb\<close> its data byte. The result is \<open>-1\<close> if there is no data. An index outside of a
  table would be undefined.
\<close>

definition table_at :: "u8 list \<Rightarrow> nat \<Rightarrow> u32 option" where
  "table_at t i = (if i < length t then Some (ucast (t ! i)) else ub)"

definition caps :: "u32 \<Rightarrow> u32" where
  "caps c = (if 0x61 \<le> c \<and> c \<le> 0x7A then c - 0x20 else if 0x41 \<le> c \<and> c \<le> 0x5A then c + 0x20 else c)"

definition kbdgetc :: "u8 \<Rightarrow> u8 \<Rightarrow> u32 \<Rightarrow> (u32 \<times> u32) option" where
  "kbdgetc st inb shift =
     (if st AND 1 = 0 then Some (- 1, shift)
      else
        let data = ucast inb :: u32 in
        if data = 0xE0 then Some (0, shift OR E0ESC)
        else if data AND 0x80 \<noteq> 0 then
          let data = (if shift AND E0ESC \<noteq> 0 then data else data AND 0x7F) in
          Some (0, shift AND NOT (shiftcode (unat data) OR E0ESC))
        else do {
          let (data, shift) = (if shift AND E0ESC \<noteq> 0 then (data OR 0x80, shift AND NOT E0ESC) else (data, shift));
          let shift = (shift OR shiftcode (unat data)) XOR togglecode (unat data);
          c \<leftarrow> table_at (charcode (shift AND (CTL OR SHIFT))) (unat data);
          Some (if shift AND CAPSLOCK \<noteq> 0 then caps c else c, shift) })"

text \<open>\<open>kbdintr\<close> passes \<open>kbdgetc\<close> to \<open>consoleintr\<close>, which calls it until it returns a negative number: once for each byte waiting.\<close>

fun kbd_chars :: "u8 list \<Rightarrow> u32 \<Rightarrow> (u32 list \<times> u32) option" where
  "kbd_chars [] shift = Some ([], shift)"
| "kbd_chars (d # ds) shift = do {
     (c, shift) \<leftarrow> kbdgetc 1 d shift;
     (cs, shift) \<leftarrow> kbd_chars ds shift;
     Some (c # cs, shift) }"

definition kbdintr :: "u8 list \<Rightarrow> u32 \<Rightarrow> console \<Rightarrow> (((bool \<times> bool) \<times> console) \<times> u32) option" where
  "kbdintr ds shift s = do {
     (cs, shift) \<leftarrow> kbd_chars ds shift;
     r \<leftarrow> consoleintr cs s;
     Some (r, shift) }"

section \<open>Properties\<close>

lemma length_tables [simp]: "length (keypad e f) = length f + (256 - length f)"
proof -
  have "length (fold (\<lambda>(d, c) t. t[d := c]) ps t) = length t" for ps :: "(nat \<times> u8) list" and t
    by (induction ps arbitrary: t) auto
  then show ?thesis by (simp add: keypad_def)
qed

lemma length_charcode [simp]: "length (charcode k) = 256"
  by (simp add: charcode_def normalmap_def shiftmap_def ctlmap_def)

lemma single_bits:
  "bit (0x80 :: u8) n \<longleftrightarrow> n = 7" "bit (0x80 :: u32) n \<longleftrightarrow> n = 7" "bit (0x40 :: u32) n \<longleftrightarrow> n = 6"
proof -
  have p: "(0x80 :: u8) = 2 ^ 7" "(0x80 :: u32) = 2 ^ 7" "(0x40 :: u32) = 2 ^ 6" by simp_all
  show "bit (0x80 :: u8) n \<longleftrightarrow> n = 7" unfolding p(1) bit_exp_iff by auto
  show "bit (0x80 :: u32) n \<longleftrightarrow> n = 7" unfolding p(2) bit_exp_iff by auto
  show "bit (0x40 :: u32) n \<longleftrightarrow> n = 6" unfolding p(3) bit_exp_iff by auto
qed

lemma flag_clear: "(w :: u32) AND 0x80 = 0 \<longleftrightarrow> \<not> bit w 7" "(w :: u32) AND 0x40 = 0 \<longleftrightarrow> \<not> bit w 6" "(d :: u8) AND 0x80 = 0 \<longleftrightarrow> \<not> bit d 7"
  using and_exp_eq_0_iff_not_bit [of w 7] and_exp_eq_0_iff_not_bit [of w 6] and_exp_eq_0_iff_not_bit [of d 7] by simp_all

lemma byte_bit: "bit (d :: u8) n \<Longrightarrow> n < 8"
  using bit_imp_le_length [of d n] by simp

lemma byte_bounds: "unat (ucast (d :: u8) :: u32) < 256" "unat (ucast d OR 0x80 :: u32) < 256" "(ucast d :: u32) < 256"
proof -
  have b: "unat w < 256" if "take_bit 8 w = w" for w :: u32
  proof -
    have "unat w = take_bit 8 (unat w)" using that by (metis unsigned_take_bit_eq)
    then show ?thesis using take_bit_nat_less_exp [of 8 "unat w"] by simp
  qed
  have "take_bit 8 (ucast d :: u32) = ucast d"
    by (rule bit_word_eqI) (auto simp: bit_take_bit_iff bit_ucast_iff dest: byte_bit)
  then show u: "unat (ucast d :: u32) < 256" by (rule b)
  have "take_bit 8 (ucast d OR 0x80 :: u32) = ucast d OR 0x80"
    by (rule bit_word_eqI) (auto simp: bit_take_bit_iff bit_or_iff bit_ucast_iff single_bits simp del: bit_numeral_word_iff dest: byte_bit)
  then show "unat (ucast d OR 0x80 :: u32) < 256" by (rule b)
  show "(ucast d :: u32) < 256" using u by (simp add: word_less_nat_alt)
qed

lemma caps_byte: "c < 256 \<Longrightarrow> caps c < 256"
  by (auto simp: caps_def word_less_nat_alt word_le_nat_alt unat_sub_if' unat_plus_if')

text \<open>No byte of the controller leads outside of a table, whatever keys are down, and the result is a character or the sign that there is none.\<close>

lemma kbdgetc_total: "\<exists>c shift'. kbdgetc st d shift = Some (c, shift') \<and> (c < 256 \<or> st AND 1 = 0 \<and> c = - 1)"
proof (cases "st AND 1 = 0")
  case False
  have t: "table_at (charcode k) i = Some (ucast (charcode k ! i))" if "i < 256" for k i
    using that by (simp add: table_at_def)
  show ?thesis using False by (auto simp: kbdgetc_def Let_def t byte_bounds caps_byte)
qed (simp add: kbdgetc_def)

lemma kbd_chars_total: "\<exists>cs shift'. kbd_chars ds shift = Some (cs, shift') \<and> length cs = length ds \<and> (\<forall>c \<in> set cs. c < 256)"
proof (induction ds arbitrary: shift)
  case (Cons d ds)
  obtain c t where c: "kbdgetc 1 d shift = Some (c, t)" "c < 256" using kbdgetc_total [of 1 d shift] by auto
  obtain cs u where "kbd_chars ds t = Some (cs, u)" "length cs = length ds" "\<forall>c \<in> set cs. c < 256" using Cons.IH [of t] by auto
  then show ?case using c by simp
qed simp

text \<open>Pressing and releasing a key that is no modifier and no lock leaves \<open>shift\<close> as it was, escape byte included.\<close>

lemma key_restores_shift:
  assumes "d AND 0x80 = 0" "d \<noteq> 0x60" "shiftcode (unat d) = 0" "togglecode (unat d) = 0" "shift AND E0ESC = 0"
  shows "\<exists>c. kbd_chars [d, d OR 0x80] shift = Some ([c, 0], shift)"
proof -
  have b: "\<not> bit d 7" using assms(1) by (simp only: flag_clear not_False_eq_True)
  have u: "unat (ucast d :: u32) = unat d" by (simp add: unsigned_ucast_eq take_bit_nat_eq_self unsigned_less [THEN less_trans])
  have n: "(ucast d AND 0x80 :: u32) = 0" unfolding flag_clear using b by (simp add: bit_ucast_iff)
  have n2: "(ucast d :: u32) \<noteq> 0xE0" using n by auto
  have m: "(0x7F :: u32) = mask 7" by (simp add: mask_eq_exp_minus_1)
  have r3: "(ucast (d OR 0x80) AND 0x7F :: u32) = ucast d"
    unfolding m take_bit_eq_mask [symmetric]
    by (rule bit_word_eqI) (use b in \<open>auto simp: bit_take_bit_iff bit_or_iff bit_ucast_iff single_bits less_Suc_eq numeral_eq_Suc
      simp del: bit_numeral_word_iff dest: byte_bit\<close>)
  have r1: "(ucast (d OR 0x80) :: u32) \<noteq> 0xE0"
  proof
    assume "(ucast (d OR 0x80) :: u32) = 0xE0"
    then have "(ucast d :: u32) = 0x60" using r3 by simp
    then have "unat d = 0x60" using u by simp
    then show False using assms(2) by (simp add: word_unat_eq_iff)
  qed
  have r2: "(ucast (d OR 0x80) AND 0x80 :: u32) \<noteq> 0" unfolding flag_clear by (simp add: bit_ucast_iff bit_or_iff)
  have s: "shift AND NOT E0ESC = shift"
    using assms(5) unfolding flag_clear
    by (intro bit_word_eqI) (unfold bit_and_iff bit_not_iff single_bits, auto)
  obtain c where p: "kbdgetc 1 d shift = Some (c, shift)"
    using n n2 assms byte_bounds(1) [of d] by (auto simp: kbdgetc_def Let_def u table_at_def)
  have "kbdgetc 1 (d OR 0x80) shift = Some (0, shift)"
    using r1 r2 r3 assms s by (simp add: kbdgetc_def Let_def u)
  then show ?thesis using p by simp
qed



end
