(* ===== verification/Fs_State.thy ===== *)
theory Fs_State
  imports Proc_State Console
begin

text \<open>
  The data of the file system: \<open>fs.h\<close>, \<open>buf.h\<close>, \<open>file.h\<close>, \<open>sleeplock.h\<close> and \<open>log.c\<close>. Disk blocks and
  buffer contents are lists of \<open>BSIZE\<close> bytes; buffers and in-memory inodes are indices into their tables.
  \<open>fs_pid\<close> and \<open>fs_killed\<close> are \<open>myproc()->pid\<close> and \<open>myproc()->killed\<close> of the process that runs. The sections
  under the spin locks of this part (\<open>bcache.lock\<close>, \<open>icache.lock\<close>, \<open>log.lock\<close>, the lock inside a
  sleeping lock) are atomic; a call that would have to sleep is \<open>None\<close>, and \<open>wakeups\<close> collects the channels
  passed to \<open>wakeup\<close>. \<open>disk_writes\<close> is the history of the blocks written to the disk, latest last.
\<close>

type_synonym block = "u8 list"

abbreviation (input) BSIZE :: nat where "BSIZE \<equiv> 512"
abbreviation (input) NDIRECT :: nat where "NDIRECT \<equiv> 12"
abbreviation (input) NINDIRECT :: nat where "NINDIRECT \<equiv> 128"
abbreviation (input) MAXFILE :: nat where "MAXFILE \<equiv> 140"
abbreviation (input) IPB :: u32 where "IPB \<equiv> 8"
abbreviation (input) BPB :: u32 where "BPB \<equiv> 4096"
abbreviation (input) DIRSIZ :: nat where "DIRSIZ \<equiv> 14"
abbreviation (input) ROOTINO :: u32 where "ROOTINO \<equiv> 1"
abbreviation (input) ROOTDEV :: u32 where "ROOTDEV \<equiv> 1"
abbreviation (input) NDEV :: nat where "NDEV \<equiv> 10"
abbreviation (input) B_VALID :: u32 where "B_VALID \<equiv> 2"
abbreviation (input) B_DIRTY :: u32 where "B_DIRTY \<equiv> 4"
abbreviation (input) T_DIR :: u16 where "T_DIR \<equiv> 1"
abbreviation (input) T_FILE :: u16 where "T_FILE \<equiv> 2"
abbreviation (input) T_DEV :: u16 where "T_DEV \<equiv> 3"
abbreviation (input) CONSOLE :: nat where "CONSOLE \<equiv> 1"

section \<open>Bytes of a structure\<close>

definition get8 :: "u8 list \<Rightarrow> nat \<Rightarrow> u8" where
  "get8 d i = (if i < length d then d ! i else 0)"

definition get16 :: "u8 list \<Rightarrow> nat \<Rightarrow> u16" where
  "get16 d i = ucast (get8 d i) OR push_bit 8 (ucast (get8 d (i + 1)))"

definition get32 :: "u8 list \<Rightarrow> nat \<Rightarrow> u32" where
  "get32 d i = ucast (get8 d i) OR push_bit 8 (ucast (get8 d (i + 1)))
     OR push_bit 16 (ucast (get8 d (i + 2))) OR push_bit 24 (ucast (get8 d (i + 3)))"

definition bytes16 :: "u16 \<Rightarrow> u8 list" where
  "bytes16 w = [ucast w, ucast (drop_bit 8 w)]"

definition bytes32 :: "u32 \<Rightarrow> u8 list" where
  "bytes32 w = [ucast w, ucast (drop_bit 8 w), ucast (drop_bit 16 w), ucast (drop_bit 24 w)]"

text \<open>Overwriting the bytes from position \<open>i\<close> on; the length is kept.\<close>

definition put :: "u8 list \<Rightarrow> nat \<Rightarrow> u8 list \<Rightarrow> u8 list" where
  "put d i v = take (length d) (take i d @ v @ drop (i + length v) d)"

section \<open>Structures\<close>

record sleeplock =
  sl_locked :: bool
  sl_name :: string
  sl_pid :: int

record buf =
  b_flags :: u32
  b_dev :: u32
  b_blockno :: u32
  b_lock :: sleeplock
  b_refcnt :: u32
  b_data :: block

record superblock =
  sb_size :: u32
  sb_nblocks :: u32
  sb_ninodes :: u32
  sb_nlog :: u32
  sb_logstart :: u32
  sb_inodestart :: u32
  sb_bmapstart :: u32

record dinode =
  di_type :: u16
  di_major :: u16
  di_minor :: u16
  di_nlink :: u16
  di_size :: u32
  di_addrs :: "u32 list"

record inode =
  i_dev :: u32
  i_inum :: u32
  i_ref :: int
  i_lock :: sleeplock
  i_valid :: bool
  i_type :: u16
  i_major :: u16
  i_minor :: u16
  i_nlink :: u16
  i_size :: u32
  i_addrs :: "u32 list"

record dirent =
  de_inum :: u16
  de_name :: "u8 list"

record log =
  log_start :: u32
  log_size :: int
  log_outstanding :: int
  log_committing :: bool
  log_dev :: u32
  lh_n :: int
  lh_block :: "u32 list"

text \<open>The functions of a device in \<open>devsw\<close>: only those of the console are ever entered.\<close>

datatype devops = ConsoleOps

record fsys =
  fs_pid :: int
  fs_killed :: bool
  wakeups :: "channel list"
  disk :: "u32 \<Rightarrow> block"
  disksize :: u32
  disk_writes :: "(u32 \<times> block) list"
  bufs :: "buf list"
  bprev :: "nat \<Rightarrow> nat"
  bnext :: "nat \<Rightarrow> nat"
  logs :: log
  sb :: superblock
  icache :: "inode list"
  devsw :: "devops option list"
  cons :: console

definition upd_buf :: "nat \<Rightarrow> (buf \<Rightarrow> buf) \<Rightarrow> 'a fsys_scheme \<Rightarrow> 'a fsys_scheme" where
  "upd_buf b f s = s\<lparr>bufs := (bufs s)[b := f (bufs s ! b)]\<rparr>"

definition upd_inode :: "nat \<Rightarrow> (inode \<Rightarrow> inode) \<Rightarrow> 'a fsys_scheme \<Rightarrow> 'a fsys_scheme" where
  "upd_inode i f s = s\<lparr>icache := (icache s)[i := f (icache s ! i)]\<rparr>"

definition wake :: "channel \<Rightarrow> 'a fsys_scheme \<Rightarrow> 'a fsys_scheme" where
  "wake ch s = s\<lparr>wakeups := wakeups s @ [ch]\<rparr>"

section \<open>Sleeping locks\<close>

definition initsleeplock :: "string \<Rightarrow> sleeplock \<Rightarrow> sleeplock" where
  "initsleeplock nm lk = lk\<lparr>sl_name := nm, sl_locked := False, sl_pid := 0\<rparr>"

text \<open>\<open>acquiresleep\<close> of a lock that is taken sleeps until another process releases it.\<close>

definition acquiresleep :: "int \<Rightarrow> sleeplock \<Rightarrow> sleeplock option" where
  "acquiresleep pid lk = (if sl_locked lk then None else Some (lk\<lparr>sl_locked := True, sl_pid := pid\<rparr>))"

definition releasesleep :: "sleeplock \<Rightarrow> sleeplock" where
  "releasesleep lk = lk\<lparr>sl_locked := False, sl_pid := 0\<rparr>"

definition holdingsleep :: "int \<Rightarrow> sleeplock \<Rightarrow> bool" where
  "holdingsleep pid lk \<longleftrightarrow> sl_locked lk \<and> sl_pid lk = pid"

section \<open>Lemmas on bytes\<close>

lemma length_put [simp]: "length (put d i v) = length d"
  by (simp add: put_def)

lemma nth_put:
  "i + length v \<le> length d \<Longrightarrow> j < length d \<Longrightarrow> put d i v ! j = (if i \<le> j \<and> j < i + length v then v ! (j - i) else d ! j)"
  by (auto simp: put_def nth_append min_def)

lemma get8_put:
  "i + length v \<le> length d \<Longrightarrow> get8 (put d i v) j = (if i \<le> j \<and> j < i + length v then v ! (j - i) else get8 d j)"
  by (auto simp: get8_def nth_put)

lemma length_bytes [simp]: "length (bytes16 h) = 2" "length (bytes32 w) = 4"
  by (simp_all add: bytes16_def bytes32_def)

lemma join_bytes16:
  fixes w :: u16
  shows "ucast (ucast w :: u8) OR push_bit 8 (ucast (ucast (drop_bit 8 w) :: u8)) = w"
proof (rule bit_word_eqI)
  fix n assume "n < LENGTH(16)"
  then consider "n < 8" | "8 \<le> n" "n < 16" by fastforce
  then show "bit (ucast (ucast w :: u8) OR push_bit 8 (ucast (ucast (drop_bit 8 w) :: u8)) :: u16) n = bit w n"
    by cases (auto simp: bit_simps)
qed

lemma join_bytes32:
  fixes w :: u32
  shows "ucast (ucast w :: u8) OR push_bit 8 (ucast (ucast (drop_bit 8 w) :: u8))
    OR push_bit 16 (ucast (ucast (drop_bit 16 w) :: u8)) OR push_bit 24 (ucast (ucast (drop_bit 24 w) :: u8)) = w"
proof (rule bit_word_eqI)
  fix n assume "n < LENGTH(32)"
  then consider "n < 8" | "8 \<le> n" "n < 16" | "16 \<le> n" "n < 24" | "24 \<le> n" "n < 32" by fastforce
  then show "bit (ucast (ucast w :: u8) OR push_bit 8 (ucast (ucast (drop_bit 8 w) :: u8))
      OR push_bit 16 (ucast (ucast (drop_bit 16 w) :: u8)) OR push_bit 24 (ucast (ucast (drop_bit 24 w) :: u8)) :: u32) n = bit w n"
    by cases (auto simp: bit_simps)
qed

lemma get16_put [simp]: "i + 2 \<le> length d \<Longrightarrow> get16 (put d i (bytes16 w)) i = w"
  by (simp add: get16_def get8_put) (simp add: bytes16_def join_bytes16 nth_Cons')

lemma get32_put [simp]: "i + 4 \<le> length d \<Longrightarrow> get32 (put d i (bytes32 w)) i = w"
  by (simp add: get32_def get8_put) (simp add: bytes32_def join_bytes32 nth_Cons')

lemma get16_put_other: "i + length v \<le> length d \<Longrightarrow> j + 2 \<le> i \<or> i + length v \<le> j \<Longrightarrow> get16 (put d i v) j = get16 d j"
  by (auto simp: get16_def get8_put)

lemma get32_put_other: "i + length v \<le> length d \<Longrightarrow> j + 4 \<le> i \<or> i + length v \<le> j \<Longrightarrow> get32 (put d i v) j = get32 d j"
  by (auto simp: get32_def get8_put)

end
