(* ===== verification/Bio.thy ===== *)
theory Bio
  imports Fs_State
begin

text \<open>
  The buffer cache, \<open>bio.c\<close>, on the disk driver \<open>memide.c\<close>, which keeps the blocks in memory. The buffers are
  in a doubly linked list with a head node; nodes are numbers, the head is \<open>NBUF\<close>, and \<open>bnext\<close>, \<open>bprev\<close> are the
  link fields.
\<close>

section \<open>The driver\<close>

definition has_flag :: "u32 \<Rightarrow> u32 \<Rightarrow> bool" where
  "has_flag fl m \<longleftrightarrow> fl AND m \<noteq> 0"

definition ideinit :: "(u32 \<Rightarrow> block) \<Rightarrow> u32 \<Rightarrow> 'a fsys_scheme \<Rightarrow> 'a fsys_scheme" where
  "ideinit img bytes s = s\<lparr>disk := img, disksize := bytes div 512\<rparr>"

definition iderw :: "nat \<Rightarrow> 'a fsys_scheme \<Rightarrow> 'a fsys_scheme option" where
  "iderw b s =
     (let bf = bufs s ! b in
      if \<not> holdingsleep (fs_pid s) (b_lock bf) then panic ''iderw: buf not locked''
      else if b_flags bf AND (B_VALID OR B_DIRTY) = B_VALID then panic ''iderw: nothing to do''
      else if b_dev bf \<noteq> 1 then panic ''iderw: request not for disk 1''
      else if disksize s \<le> b_blockno bf then panic ''iderw: block out of range''
      else if has_flag (b_flags bf) B_DIRTY then
        Some (upd_buf b (\<lambda>bf. bf\<lparr>b_flags := b_flags bf AND NOT B_DIRTY OR B_VALID\<rparr>)
          (s\<lparr>disk := (disk s)(b_blockno bf := b_data bf), disk_writes := disk_writes s @ [(b_blockno bf, b_data bf)]\<rparr>))
      else
        Some (upd_buf b (\<lambda>bf. bf\<lparr>b_data := disk s (b_blockno bf), b_flags := b_flags bf OR B_VALID\<rparr>) s))"

section \<open>The list of buffers\<close>

text \<open>Insertion of \<open>b\<close> behind the head, as \<open>binit\<close> and \<open>brelse\<close> do it.\<close>

definition link_first :: "nat \<Rightarrow> 'a fsys_scheme \<Rightarrow> 'a fsys_scheme" where
  "link_first b s =
     (let s = s\<lparr>bnext := (bnext s)(b := bnext s NBUF)\<rparr>;
          s = s\<lparr>bprev := (bprev s)(b := NBUF)\<rparr>;
          s = s\<lparr>bprev := (bprev s)(bnext s NBUF := b)\<rparr>
      in s\<lparr>bnext := (bnext s)(NBUF := b)\<rparr>)"

definition unlink_buf :: "nat \<Rightarrow> 'a fsys_scheme \<Rightarrow> 'a fsys_scheme" where
  "unlink_buf b s =
     (let s = s\<lparr>bprev := (bprev s)(bnext s b := bprev s b)\<rparr>
      in s\<lparr>bnext := (bnext s)(bprev s b := bnext s b)\<rparr>)"

definition binit :: "'a fsys_scheme \<Rightarrow> 'a fsys_scheme" where
  "binit s =
     (let s = s\<lparr>bprev := (bprev s)(NBUF := NBUF), bnext := (bnext s)(NBUF := NBUF)\<rparr> in
      fold (\<lambda>b s. link_first b (upd_buf b (\<lambda>bf. bf\<lparr>b_lock := initsleeplock ''buffer'' (b_lock bf)\<rparr>) s)) [0..<NBUF] s)"

partial_function (option) bget_cached :: "nat \<Rightarrow> u32 \<Rightarrow> u32 \<Rightarrow> 'a fsys_scheme \<Rightarrow> nat option option" where
  "bget_cached b dev blockno s =
     (if b = NBUF then Some None
      else if b_dev (bufs s ! b) = dev \<and> b_blockno (bufs s ! b) = blockno then Some (Some b)
      else bget_cached (bnext s b) dev blockno s)"

partial_function (option) bget_unused :: "nat \<Rightarrow> 'a fsys_scheme \<Rightarrow> nat option option" where
  "bget_unused b s =
     (if b = NBUF then Some None
      else if b_refcnt (bufs s ! b) = 0 \<and> \<not> has_flag (b_flags (bufs s ! b)) B_DIRTY then Some (Some b)
      else bget_unused (bprev s b) s)"

definition lock_buf :: "nat \<Rightarrow> 'a fsys_scheme \<Rightarrow> 'a fsys_scheme option" where
  "lock_buf b s = do {
     lk \<leftarrow> acquiresleep (fs_pid s) (b_lock (bufs s ! b));
     Some (upd_buf b (\<lambda>bf. bf\<lparr>b_lock := lk\<rparr>) s) }"

definition bget :: "u32 \<Rightarrow> u32 \<Rightarrow> 'a fsys_scheme \<Rightarrow> (nat \<times> 'a fsys_scheme) option" where
  "bget dev blockno s = do {
     r \<leftarrow> bget_cached (bnext s NBUF) dev blockno s;
     case r of
       Some b \<Rightarrow> do {
         s \<leftarrow> lock_buf b (upd_buf b (\<lambda>bf. bf\<lparr>b_refcnt := b_refcnt bf + 1\<rparr>) s);
         Some (b, s) }
     | None \<Rightarrow> do {
         r \<leftarrow> bget_unused (bprev s NBUF) s;
         case r of
           Some b \<Rightarrow> do {
             s \<leftarrow> lock_buf b (upd_buf b (\<lambda>bf. bf\<lparr>b_dev := dev, b_blockno := blockno, b_flags := 0, b_refcnt := 1\<rparr>) s);
             Some (b, s) }
         | None \<Rightarrow> panic ''bget: no buffers'' } }"

definition bread :: "u32 \<Rightarrow> u32 \<Rightarrow> 'a fsys_scheme \<Rightarrow> (nat \<times> 'a fsys_scheme) option" where
  "bread dev blockno s = do {
     (b, s) \<leftarrow> bget dev blockno s;
     s \<leftarrow> (if \<not> has_flag (b_flags (bufs s ! b)) B_VALID then iderw b s else Some s);
     Some (b, s) }"

definition bwrite :: "nat \<Rightarrow> 'a fsys_scheme \<Rightarrow> 'a fsys_scheme option" where
  "bwrite b s =
     (if \<not> holdingsleep (fs_pid s) (b_lock (bufs s ! b)) then panic ''bwrite''
      else iderw b (upd_buf b (\<lambda>bf. bf\<lparr>b_flags := b_flags bf OR B_DIRTY\<rparr>) s))"

definition brelse :: "nat \<Rightarrow> 'a fsys_scheme \<Rightarrow> 'a fsys_scheme option" where
  "brelse b s =
     (if \<not> holdingsleep (fs_pid s) (b_lock (bufs s ! b)) then panic ''brelse''
      else
        let s = wake (BufChan b) (upd_buf b (\<lambda>bf. bf\<lparr>b_lock := releasesleep (b_lock bf)\<rparr>) s);
            s = upd_buf b (\<lambda>bf. bf\<lparr>b_refcnt := b_refcnt bf - 1\<rparr>) s
        in Some (if b_refcnt (bufs s ! b) = 0 then link_first b (unlink_buf b s) else s))"

end
