(* ===== verification/Log.thy ===== *)
theory Log
  imports Bio
begin

text \<open>
  The log of the file system, \<open>log.c\<close>, and \<open>readsb\<close> of \<open>fs.c\<close>, which it calls. The header block on disk
  holds the count and then the block numbers, four bytes each. The size check at the start of \<open>initlog\<close>
  compares two constants, 124 and 512, and never panics.
\<close>

section \<open>Reading the super block\<close>

definition decode_sb :: "block \<Rightarrow> superblock" where
  "decode_sb d = \<lparr>sb_size = get32 d 0, sb_nblocks = get32 d 4, sb_ninodes = get32 d 8, sb_nlog = get32 d 12,
     sb_logstart = get32 d 16, sb_inodestart = get32 d 20, sb_bmapstart = get32 d 24\<rparr>"

definition readsb :: "u32 \<Rightarrow> 'a fsys_scheme \<Rightarrow> (superblock \<times> 'a fsys_scheme) option" where
  "readsb dev s = do {
     (b, s) \<leftarrow> bread dev 1 s;
     let r = decode_sb (b_data (bufs s ! b));
     s \<leftarrow> brelse b s;
     Some (r, s) }"

section \<open>The log\<close>

definition upd_log :: "(log \<Rightarrow> log) \<Rightarrow> 'a fsys_scheme \<Rightarrow> 'a fsys_scheme" where
  "upd_log f s = s\<lparr>logs := f (logs s)\<rparr>"

text \<open>\<open>log.lh.block[i]\<close>\<close>

definition lh_nth :: "nat \<Rightarrow> 'a fsys_scheme \<Rightarrow> u32 option" where
  "lh_nth i s = (if i < length (lh_block (logs s)) then Some (lh_block (logs s) ! i) else ub)"

text \<open>One step of the loops of \<open>install_trans\<close> and \<open>write_log\<close>.\<close>

definition install_block :: "nat \<Rightarrow> 'a fsys_scheme \<Rightarrow> 'a fsys_scheme option" where
  "install_block tail s = do {
     (lbuf, s) \<leftarrow> bread (log_dev (logs s)) (log_start (logs s) + word_of_nat tail + 1) s;
     n \<leftarrow> lh_nth tail s;
     (dbuf, s) \<leftarrow> bread (log_dev (logs s)) n s;
     let s = upd_buf dbuf (\<lambda>bf. bf\<lparr>b_data := b_data (bufs s ! lbuf)\<rparr>) s;
     s \<leftarrow> bwrite dbuf s;
     s \<leftarrow> brelse lbuf s;
     brelse dbuf s }"

definition install_trans :: "'a fsys_scheme \<Rightarrow> 'a fsys_scheme option" where
  "install_trans s = for_each install_block [0..<nat (lh_n (logs s))] s"

definition decode_head :: "block \<Rightarrow> u32 list \<Rightarrow> u32 list" where
  "decode_head d bl = fold (\<lambda>i bl. bl[i := get32 d (4 + 4 * i)]) [0..<nat (sint (get32 d 0))] bl"

definition read_head :: "'a fsys_scheme \<Rightarrow> 'a fsys_scheme option" where
  "read_head s = do {
     (b, s) \<leftarrow> bread (log_dev (logs s)) (log_start (logs s)) s;
     let d = b_data (bufs s ! b);
     let n = sint (get32 d 0);
     if int (length (lh_block (logs s))) < n then ub
     else brelse b (upd_log (\<lambda>l. l\<lparr>lh_n := n, lh_block := decode_head d (lh_block l)\<rparr>) s) }"

definition encode_head :: "log \<Rightarrow> block \<Rightarrow> block" where
  "encode_head l d =
     fold (\<lambda>i d. put d (4 + 4 * i) (bytes32 (lh_block l ! i))) [0..<nat (lh_n l)] (put d 0 (bytes32 (word_of_int (lh_n l))))"

definition write_head :: "'a fsys_scheme \<Rightarrow> 'a fsys_scheme option" where
  "write_head s = do {
     (b, s) \<leftarrow> bread (log_dev (logs s)) (log_start (logs s)) s;
     let s = upd_buf b (\<lambda>bf. bf\<lparr>b_data := encode_head (logs s) (b_data bf)\<rparr>) s;
     s \<leftarrow> bwrite b s;
     brelse b s }"

definition recover_from_log :: "'a fsys_scheme \<Rightarrow> 'a fsys_scheme option" where
  "recover_from_log s = do {
     s \<leftarrow> read_head s;
     s \<leftarrow> install_trans s;
     write_head (upd_log (\<lambda>l. l\<lparr>lh_n := 0\<rparr>) s) }"

definition initlog :: "u32 \<Rightarrow> 'a fsys_scheme \<Rightarrow> 'a fsys_scheme option" where
  "initlog dev s = do {
     (r, s) \<leftarrow> readsb dev s;
     recover_from_log (upd_log (\<lambda>l. l\<lparr>log_start := sb_logstart r, log_size := sint (sb_nlog r), log_dev := dev\<rparr>) s) }"

definition begin_op :: "'a fsys_scheme \<Rightarrow> 'a fsys_scheme option" where
  "begin_op s =
     (if log_committing (logs s) then None
      else if lh_n (logs s) + (log_outstanding (logs s) + 1) * int MAXOPBLOCKS > int LOGSIZE then None
      else Some (upd_log (\<lambda>l. l\<lparr>log_outstanding := log_outstanding l + 1\<rparr>) s))"

definition write_log_block :: "nat \<Rightarrow> 'a fsys_scheme \<Rightarrow> 'a fsys_scheme option" where
  "write_log_block tail s = do {
     (tobuf, s) \<leftarrow> bread (log_dev (logs s)) (log_start (logs s) + word_of_nat tail + 1) s;
     n \<leftarrow> lh_nth tail s;
     (frombuf, s) \<leftarrow> bread (log_dev (logs s)) n s;
     let s = upd_buf tobuf (\<lambda>bf. bf\<lparr>b_data := b_data (bufs s ! frombuf)\<rparr>) s;
     s \<leftarrow> bwrite tobuf s;
     s \<leftarrow> brelse frombuf s;
     brelse tobuf s }"

definition write_log :: "'a fsys_scheme \<Rightarrow> 'a fsys_scheme option" where
  "write_log s = for_each write_log_block [0..<nat (lh_n (logs s))] s"

definition commit :: "'a fsys_scheme \<Rightarrow> 'a fsys_scheme option" where
  "commit s =
     (if 0 < lh_n (logs s) then do {
        s \<leftarrow> write_log s;
        s \<leftarrow> write_head s;
        s \<leftarrow> install_trans s;
        write_head (upd_log (\<lambda>l. l\<lparr>lh_n := 0\<rparr>) s) }
      else Some s)"

definition end_op :: "'a fsys_scheme \<Rightarrow> 'a fsys_scheme option" where
  "end_op s =
     (let s = upd_log (\<lambda>l. l\<lparr>log_outstanding := log_outstanding l - 1\<rparr>) s in
      if log_committing (logs s) then panic ''log.committing''
      else if log_outstanding (logs s) = 0 then do {
        s \<leftarrow> commit (upd_log (\<lambda>l. l\<lparr>log_committing := True\<rparr>) s);
        Some (wake LogChan (upd_log (\<lambda>l. l\<lparr>log_committing := False\<rparr>) s)) }
      else Some (wake LogChan s))"

fun absorb :: "u32 list \<Rightarrow> u32 \<Rightarrow> nat \<Rightarrow> nat" where
  "absorb [] b i = i"
| "absorb (x # xs) b i = (if x = b then i else absorb xs b (Suc i))"

definition log_write :: "nat \<Rightarrow> 'a fsys_scheme \<Rightarrow> 'a fsys_scheme option" where
  "log_write b s =
     (if int LOGSIZE \<le> lh_n (logs s) \<or> log_size (logs s) - 1 \<le> lh_n (logs s) then panic ''too big a transaction''
      else if log_outstanding (logs s) < 1 then panic ''log_write outside of trans''
      else
        let blockno = b_blockno (bufs s ! b);
            i = absorb (take (nat (lh_n (logs s))) (lh_block (logs s))) blockno 0;
            s = upd_log (\<lambda>l. l\<lparr>lh_block := (lh_block l)[i := blockno],
                  lh_n := (if int i = lh_n l then lh_n l + 1 else lh_n l)\<rparr>) s
        in Some (upd_buf b (\<lambda>bf. bf\<lparr>b_flags := b_flags bf OR B_DIRTY\<rparr>) s))"

end
