(* ===== verification/Bio_Cache.thy ===== *)
theory Bio_Cache
  imports Bio
begin

text \<open>
  The buffer cache: its linked list is a list in most-recently-used order, and through it each block of the disk has one
  content, that of its buffer if it has one and that of the disk otherwise.
\<close>

section \<open>Linked lists\<close>

fun dll :: "(nat \<Rightarrow> nat) \<Rightarrow> (nat \<Rightarrow> nat) \<Rightarrow> nat \<Rightarrow> nat list \<Rightarrow> nat \<Rightarrow> bool" where
  "dll nx pv a [] b \<longleftrightarrow> nx a = b \<and> pv b = a"
| "dll nx pv a (x # xs) b \<longleftrightarrow> nx a = x \<and> pv x = a \<and> dll nx pv x xs b"

lemma dll_append: "dll nx pv a (xs @ y # ys) b \<longleftrightarrow> dll nx pv a xs y \<and> dll nx pv y ys b"
  by (induction xs arbitrary: a) auto

lemma dll_cong:
  "(\<And>y. y \<in> insert a (set xs) \<Longrightarrow> nx' y = nx y) \<Longrightarrow> (\<And>y. y \<in> insert b (set xs) \<Longrightarrow> pv' y = pv y) \<Longrightarrow>
   dll nx' pv' a xs b = dll nx pv a xs b"
  by (induction xs arbitrary: a) auto

lemma dll_next: "dll nx pv a xs b \<Longrightarrow> nx a = hd (xs @ [b])"
  by (cases xs) auto

lemma dll_prev: "dll nx pv a xs b \<Longrightarrow> pv b = last (a # xs)"
  by (induction xs arbitrary: a) auto

text \<open>The buffers in the order of the list, from \<open>head.next\<close> on.\<close>

definition mru :: "'a fsys_scheme \<Rightarrow> nat list \<Rightarrow> bool" where
  "mru s xs \<longleftrightarrow> dll (bnext s) (bprev s) NBUF xs NBUF \<and> distinct xs \<and> NBUF \<notin> set xs"

lemma link_first_dll:
  assumes "mru s xs" "b \<notin> set xs" "b \<noteq> NBUF"
  shows "mru (link_first b s) (b # xs)"
proof (cases xs)
  case Nil
  then show ?thesis using assms by (simp add: mru_def link_first_def Let_def)
next
  case (Cons x ys)
  have d: "bnext s NBUF = x" "dll (bnext s) (bprev s) x ys NBUF" and dist: "distinct (x # ys)" "NBUF \<notin> set (x # ys)"
    using assms Cons by (auto simp: mru_def)
  have "dll ((bnext s)(b := x, NBUF := b)) ((bprev s)(b := NBUF, x := b)) x ys NBUF = dll (bnext s) (bprev s) x ys NBUF"
    by (rule dll_cong) (use assms Cons dist in auto)
  then show ?thesis using assms Cons d dist by (auto simp: mru_def link_first_def Let_def)
qed

lemma unlink_buf_dll:
  assumes "mru s (xs @ b # ys)"
  shows "mru (unlink_buf b s) (xs @ ys)"
proof -
  let ?p = "last (NBUF # xs)" and ?n = "hd (ys @ [NBUF])"
  have d: "dll (bnext s) (bprev s) NBUF xs b" "dll (bnext s) (bprev s) b ys NBUF"
    and dist: "distinct (xs @ b # ys)" "NBUF \<notin> set (xs @ b # ys)"
    using assms by (auto simp: mru_def dll_append)
  have p: "bprev s b = ?p" and n: "bnext s b = ?n" using dll_prev [OF d(1)] dll_next [OF d(2)] by simp_all
  let ?nx = "(bnext s)(?p := ?n)" and ?pv = "(bprev s)(?n := ?p)"
  have "b \<noteq> ?n" using dist by (cases ys) auto
  then have eq: "unlink_buf b s = s\<lparr>bprev := ?pv, bnext := ?nx\<rparr>"
    by (auto simp: unlink_buf_def Let_def p n)
  have "dll ?nx ?pv NBUF (xs @ ys) NBUF"
  proof (cases xs rule: rev_cases)
    case Nil
    show ?thesis
    proof (cases ys)
      case Nil
      then show ?thesis using \<open>xs = []\<close> by simp
    next
      case (Cons y zs)
      have "dll ?nx ?pv y zs NBUF = dll (bnext s) (bprev s) y zs NBUF"
        by (rule dll_cong) (use dist Cons \<open>xs = []\<close> in auto)
      then show ?thesis using d(2) Cons \<open>xs = []\<close> by simp
    qed
  next
    case (snoc ws w)
    have pw: "?p = w" using snoc by simp
    have left: "dll ?nx ?pv NBUF ws w"
    proof -
      have "dll ?nx ?pv NBUF ws w = dll (bnext s) (bprev s) NBUF ws w"
        by (rule dll_cong) (use dist snoc in \<open>auto simp: hd_append split: if_splits dest: hd_in_set\<close>)
      then show ?thesis using d(1) snoc by (simp add: dll_append)
    qed
    have right: "dll ?nx ?pv w ys NBUF"
    proof (cases ys)
      case Nil
      then show ?thesis using pw by simp
    next
      case (Cons y zs)
      have "dll ?nx ?pv y zs NBUF = dll (bnext s) (bprev s) y zs NBUF"
        by (rule dll_cong) (use dist Cons snoc in auto)
      then show ?thesis using d(2) Cons pw by simp
    qed
    show ?thesis using left right snoc by (simp add: dll_append)
  qed
  then show ?thesis using dist by (simp add: eq mru_def)
qed

text \<open>The two scans of \<open>bget\<close>.\<close>

lemma bget_cached_scan:
  "dll (bnext s) (bprev s) a xs NBUF \<Longrightarrow> NBUF \<notin> set xs \<Longrightarrow>
   bget_cached (bnext s a) dev n s = Some (find (\<lambda>b. b_dev (bufs s ! b) = dev \<and> b_blockno (bufs s ! b) = n) xs)"
  by (induction xs arbitrary: a) (subst bget_cached.simps, auto)+

lemma bget_unused_scan:
  "dll (bnext s) (bprev s) NBUF (rev xs) a \<Longrightarrow> NBUF \<notin> set xs \<Longrightarrow>
   bget_unused (bprev s a) s = Some (find (\<lambda>b. b_refcnt (bufs s ! b) = 0 \<and> \<not> has_flag (b_flags (bufs s ! b)) B_DIRTY) xs)"
proof (induction xs arbitrary: a)
  case Nil
  then show ?case by (subst bget_unused.simps) simp
next
  case (Cons x xs)
  have d: "dll (bnext s) (bprev s) NBUF (rev xs) x" "bprev s a = x"
    using Cons.prems(1) by (auto simp: dll_append)
  then show ?case using Cons by (subst bget_unused.simps) auto
qed

lemma bget_scan:
  assumes "mru s xs"
  shows "bget_cached (bnext s NBUF) dev n s = Some (find (\<lambda>b. b_dev (bufs s ! b) = dev \<and> b_blockno (bufs s ! b) = n) xs)"
    "bget_unused (bprev s NBUF) s = Some (find (\<lambda>b. b_refcnt (bufs s ! b) = 0 \<and> \<not> has_flag (b_flags (bufs s ! b)) B_DIRTY) (rev xs))"
  using assms bget_cached_scan [of s NBUF xs] bget_unused_scan [of s "rev xs" NBUF] by (simp_all add: mru_def)

text \<open>\<open>binit\<close> links all buffers, the last one first.\<close>

lemma mru_upd_buf [simp]: "mru (upd_buf b f s) xs = mru s xs"
  by (simp add: mru_def upd_buf_def)

lemma mru_wake [simp]: "mru (wake ch s) xs = mru s xs"
  by (simp add: mru_def wake_def)

lemma binit_links:
  "n \<le> 30 \<Longrightarrow> mru s [] \<Longrightarrow>
   mru (fold (\<lambda>b s. link_first b (upd_buf b (\<lambda>bf. bf\<lparr>b_lock := initsleeplock ''buffer'' (b_lock bf)\<rparr>) s)) [0..<n] s) (rev [0..<n])"
  by (induction n) (auto intro!: link_first_dll)

lemma binit_mru: "mru (binit s) (rev [0..<NBUF])"
  unfolding binit_def Let_def by (rule binit_links) (simp_all add: mru_def)

section \<open>What the cache holds\<close>

definition buf_ok :: "(u32 \<Rightarrow> block) \<Rightarrow> buf \<Rightarrow> bool" where
  "buf_ok d bf \<longleftrightarrow> b_flags bf \<in> {0, 2, 6} \<and> (b_flags bf \<noteq> 0 \<longrightarrow> b_dev bf = 1 \<and> length (b_data bf) = 512)
     \<and> b_refcnt bf = (if sl_locked (b_lock bf) then 1 else 0) \<and> (sl_locked (b_lock bf) \<longrightarrow> b_dev bf = 1)
     \<and> (b_flags bf = 2 \<and> \<not> sl_locked (b_lock bf) \<longrightarrow> b_data bf = d (b_blockno bf))"

text \<open>Buffer \<open>i\<close> is the one of block \<open>b\<close> (of the only disk, device 1).\<close>

definition holds :: "'a fsys_scheme \<Rightarrow> u32 \<Rightarrow> nat \<Rightarrow> bool" where
  "holds s b i \<longleftrightarrow> i < 30 \<and> b_dev (bufs s ! i) = 1 \<and> b_blockno (bufs s ! i) = b"

definition cache_ok :: "'a fsys_scheme \<Rightarrow> bool" where
  "cache_ok s \<longleftrightarrow> length (bufs s) = 30 \<and> (\<exists>xs. mru s xs \<and> set xs = {0..<30})
     \<and> (\<forall>i < 30. buf_ok (disk s) (bufs s ! i)) \<and> (\<forall>b i j. holds s b i \<longrightarrow> holds s b j \<longrightarrow> i = j)
     \<and> (\<forall>b. length (disk s b) = 512)"

definition view :: "'a fsys_scheme \<Rightarrow> u32 \<Rightarrow> block" where
  "view s b = (case find (\<lambda>i. b_dev (bufs s ! i) = 1 \<and> b_blockno (bufs s ! i) = b \<and> b_flags (bufs s ! i) \<noteq> 0) [0..<30] of
     Some i \<Rightarrow> b_data (bufs s ! i) | None \<Rightarrow> disk s b)"

text \<open>The blocks that are pinned by the log.\<close>

definition dirty :: "'a fsys_scheme \<Rightarrow> u32 \<Rightarrow> bool" where
  "dirty s b \<longleftrightarrow> (\<exists>i. holds s b i \<and> b_flags (bufs s ! i) = 6)"

definition in_use :: "'a fsys_scheme \<Rightarrow> u32 \<Rightarrow> bool" where
  "in_use s b \<longleftrightarrow> (\<exists>i. holds s b i \<and> sl_locked (b_lock (bufs s ! i)))"

text \<open>A buffer that \<open>bget\<close> could recycle.\<close>

definition spare :: "'a fsys_scheme \<Rightarrow> nat \<Rightarrow> bool" where
  "spare s i \<longleftrightarrow> i < 30 \<and> \<not> sl_locked (b_lock (bufs s ! i)) \<and> b_flags (bufs s ! i) \<noteq> 6"

lemma cache_okD:
  assumes "cache_ok s"
  shows "length (bufs s) = 30" "\<And>i. i < 30 \<Longrightarrow> buf_ok (disk s) (bufs s ! i)" "\<And>b i j. holds s b i \<Longrightarrow> holds s b j \<Longrightarrow> i = j"
    "\<And>b. length (disk s b) = 512"
  using assms by (auto simp: cache_ok_def)

lemma view_held:
  assumes "cache_ok s" "holds s b i" "b_flags (bufs s ! i) \<noteq> 0"
  shows "view s b = b_data (bufs s ! i)"
proof -
  let ?P = "\<lambda>i. b_dev (bufs s ! i) = 1 \<and> b_blockno (bufs s ! i) = b \<and> b_flags (bufs s ! i) \<noteq> 0"
  have "?P i" "i \<in> set [0..<30]" using assms by (auto simp: holds_def)
  then have "find ?P [0..<30] \<noteq> None" unfolding find_None_iff by blast
  then obtain j where j: "find ?P [0..<30] = Some j" by auto
  then have "holds s b j" unfolding find_Some_iff holds_def by auto
  then have "j = i" using assms cache_okD(3) by blast
  then show ?thesis using j by (simp add: view_def)
qed

lemma view_not_held:
  assumes "\<And>i. holds s b i \<Longrightarrow> b_flags (bufs s ! i) = 0"
  shows "view s b = disk s b"
proof -
  let ?P = "\<lambda>i. b_dev (bufs s ! i) = 1 \<and> b_blockno (bufs s ! i) = b \<and> b_flags (bufs s ! i) \<noteq> 0"
  have "find ?P [0..<30] = None" unfolding find_None_iff using assms by (auto simp: holds_def)
  then show ?thesis by (simp add: view_def)
qed

lemma view_clean:
  assumes "cache_ok s" "\<not> dirty s b" "\<not> in_use s b"
  shows "view s b = disk s b"
proof (cases "\<exists>i. holds s b i \<and> b_flags (bufs s ! i) \<noteq> 0")
  case True
  then obtain i where i: "holds s b i" "b_flags (bufs s ! i) \<noteq> 0" by blast
  have "buf_ok (disk s) (bufs s ! i)" using assms(1) i by (auto simp: cache_ok_def holds_def)
  moreover have "b_flags (bufs s ! i) \<noteq> 6" "\<not> sl_locked (b_lock (bufs s ! i))"
    using assms i by (auto simp: dirty_def in_use_def)
  ultimately have "b_data (bufs s ! i) = disk s (b_blockno (bufs s ! i))" using i by (auto simp: buf_ok_def)
  then show ?thesis using view_held [OF assms(1) i] i by (simp add: holds_def)
qed (use view_not_held in blast)

lemma length_view:
  assumes "cache_ok s"
  shows "length (view s b) = 512"
proof (cases "\<exists>i. holds s b i \<and> b_flags (bufs s ! i) \<noteq> 0")
  case True
  then obtain i where i: "holds s b i" "b_flags (bufs s ! i) \<noteq> 0" by blast
  then have "buf_ok (disk s) (bufs s ! i)" using assms by (auto simp: cache_ok_def holds_def)
  then show ?thesis using view_held [OF assms i] i by (simp add: buf_ok_def)
next
  case False
  then have "view s b = disk s b" by (intro view_not_held) blast
  then show ?thesis using cache_okD(4) [OF assms] by simp
qed

section \<open>Reading a block\<close>

text \<open>The buffer as \<open>bread\<close> returns it, locked by the process.\<close>

definition grabbed :: "'a fsys_scheme \<Rightarrow> u32 \<Rightarrow> buf \<Rightarrow> buf" where
  "grabbed s b bf = bf\<lparr>b_flags := (if dirty s b then 6 else 2), b_dev := 1, b_blockno := b, b_refcnt := 1, b_data := view s b,
     b_lock := (b_lock bf)\<lparr>sl_locked := True, sl_pid := fs_pid s\<rparr>\<rparr>"

definition grab :: "u32 \<Rightarrow> nat \<Rightarrow> 'a fsys_scheme \<Rightarrow> 'a fsys_scheme" where
  "grab b i s = upd_buf i (grabbed s b) s"

text \<open>The choice of buffer: the one that holds the block, else one that can be recycled.\<close>

definition chosen :: "'a fsys_scheme \<Rightarrow> u32 \<Rightarrow> nat \<Rightarrow> bool" where
  "chosen s b i \<longleftrightarrow> i < 30 \<and> \<not> sl_locked (b_lock (bufs s ! i)) \<and> (holds s b i \<or> (\<forall>j. \<not> holds s b j) \<and> spare s i)"

lemma find_SomeD: "find P xs = Some x \<Longrightarrow> P x \<and> x \<in> set xs"
  by (induction xs) (auto split: if_splits)

lemma has_flag_simps [simp]:
  "has_flag 0 2 = False" "has_flag 2 2 = True" "has_flag 6 2 = True" "has_flag 0 4 = False" "has_flag 2 4 = False" "has_flag 6 4 = True"
  by (simp_all add: has_flag_def)

lemma buf_ok_dirty: "buf_ok d bf \<Longrightarrow> has_flag (b_flags bf) 4 \<longleftrightarrow> b_flags bf = 6"
  by (auto simp: buf_ok_def)

lemma grabbed_fields [simp]:
  "b_flags (grabbed s b bf) = (if dirty s b then 6 else 2)" "b_dev (grabbed s b bf) = 1" "b_blockno (grabbed s b bf) = b"
  "b_refcnt (grabbed s b bf) = 1" "b_data (grabbed s b bf) = view s b" "sl_locked (b_lock (grabbed s b bf))"
  "sl_pid (b_lock (grabbed s b bf)) = fs_pid s"
  by (simp_all add: grabbed_def)

lemma bget_spec:
  assumes "cache_ok s" "\<not> in_use s b" "(\<exists>i. holds s b i) \<or> (\<exists>i. spare s i)"
  obtains i where "chosen s b i"
    "bget 1 b s = Some (i, upd_buf i (\<lambda>bf. (if holds s b i then bf else bf\<lparr>b_dev := 1, b_blockno := b, b_flags := 0\<rparr>)\<lparr>b_refcnt := 1,
       b_lock := (b_lock bf)\<lparr>sl_locked := True, sl_pid := fs_pid s\<rparr>\<rparr>) s)"
proof -
  obtain xs where xs: "mru s xs" "set xs = {0..<30}" using assms(1) by (auto simp: cache_ok_def)
  note scan = bget_scan [OF xs(1)]
  let ?P = "\<lambda>i. b_dev (bufs s ! i) = 1 \<and> b_blockno (bufs s ! i) = b"
  let ?Q = "\<lambda>i. b_refcnt (bufs s ! i) = 0 \<and> \<not> has_flag (b_flags (bufs s ! i)) B_DIRTY"
  have ok: "\<And>i. i < 30 \<Longrightarrow> buf_ok (disk s) (bufs s ! i)" and len: "length (bufs s) = 30" using cache_okD [OF assms(1)] by auto
  show thesis
  proof (cases "find ?P xs")
    case (Some i)
    then have i: "i < 30" "?P i" using xs(2) find_SomeD [OF Some] by auto
    then have h: "holds s b i" by (simp add: holds_def)
    then have free: "\<not> sl_locked (b_lock (bufs s ! i))" using assms(2) by (auto simp: in_use_def)
    then have ref: "b_refcnt (bufs s ! i) = 0" using ok [OF i(1)] by (simp add: buf_ok_def)
    show thesis
      by (rule that [of i]) (use i h free ref scan Some len in
        \<open>simp_all add: chosen_def bget_def lock_buf_def acquiresleep_def upd_buf_def\<close>)
  next
    case None
    then have no: "\<not> holds s b j" for j using xs(2) unfolding find_None_iff holds_def by auto
    then obtain j where "spare s j" using assms(3) by blast
    then have j: "j \<in> set (rev xs)" "?Q j" using ok [of j] xs(2) by (auto simp: spare_def buf_ok_def)
    then have "find ?Q (rev xs) \<noteq> None" unfolding find_None_iff by blast
    then obtain i where i: "find ?Q (rev xs) = Some i" by auto
    then have i': "i < 30" "?Q i" using xs(2) find_SomeD [OF i] by auto
    have free: "\<not> sl_locked (b_lock (bufs s ! i))" "b_flags (bufs s ! i) \<noteq> 6"
      using ok [OF i'(1)] i'(2) by (auto simp: buf_ok_def split: if_splits)
    show thesis
      by (rule that [of i]) (use i i' no free scan None len in
        \<open>simp_all add: chosen_def spare_def bget_def lock_buf_def acquiresleep_def upd_buf_def\<close>)
  qed
qed

lemma chosen_unique:
  assumes "cache_ok s" "chosen s b i" "holds s b j"
  shows "j = i"
  using assms cache_okD(3) [OF assms(1)] by (auto simp: chosen_def)

lemma bread_spec:
  assumes "cache_ok s" "\<not> in_use s b" "(\<exists>i. holds s b i) \<or> (\<exists>i. spare s i)" "b < disksize s"
  obtains i where "chosen s b i" "bread 1 b s = Some (i, grab b i s)"
proof -
  obtain i where i: "chosen s b i" and get: "bget 1 b s = Some (i, upd_buf i (\<lambda>bf. (if holds s b i then bf
      else bf\<lparr>b_dev := 1, b_blockno := b, b_flags := 0\<rparr>)\<lparr>b_refcnt := 1, b_lock := (b_lock bf)\<lparr>sl_locked := True, sl_pid := fs_pid s\<rparr>\<rparr>) s)"
    by (rule bget_spec [OF assms(1-3)])
  have len: "length (bufs s) = 30" "i < 30" using assms(1) i by (auto simp: cache_ok_def chosen_def)
  have bok: "buf_ok (disk s) (bufs s ! i)" using cache_okD(2) [OF assms(1)] len by simp
  have "bread 1 b s = Some (i, grab b i s)"
  proof (cases "holds s b i \<and> b_flags (bufs s ! i) \<noteq> 0")
    case True
    have fl: "b_flags (bufs s ! i) = (if dirty s b then 6 else 2)"
      using True bok cache_okD(3) [OF assms(1)] by (auto simp: dirty_def buf_ok_def)
    have v: "view s b = b_data (bufs s ! i)" using True view_held [OF assms(1)] by blast
    have h: "b_dev (bufs s ! i) = 1" "b_blockno (bufs s ! i) = b" using True by (auto simp: holds_def)
    have "(bufs s ! i)\<lparr>b_refcnt := 1, b_lock := (b_lock (bufs s ! i))\<lparr>sl_locked := True, sl_pid := fs_pid s\<rparr>\<rparr> = grabbed s b (bufs s ! i)"
      using fl v h by (simp add: grabbed_def)
    then show ?thesis using True get len fl by (auto simp: bread_def grab_def upd_buf_def)
  next
    case False
    have empty: "b_flags (bufs s ! j) = 0" if "holds s b j" for j
      using chosen_unique [OF assms(1) i that] False that by auto
    have nd: "\<not> dirty s b" using empty by (force simp: dirty_def)
    have v: "view s b = disk s b" by (rule view_not_held) (rule empty)
    have h: "holds s b i \<Longrightarrow> b_dev (bufs s ! i) = 1 \<and> b_blockno (bufs s ! i) = b \<and> b_flags (bufs s ! i) = 0"
      using False by (auto simp: holds_def)
    define bf where "bf = (if holds s b i then bufs s ! i else (bufs s ! i)\<lparr>b_dev := 1, b_blockno := b, b_flags := 0\<rparr>)\<lparr>b_refcnt := 1,
       b_lock := (b_lock (bufs s ! i))\<lparr>sl_locked := True, sl_pid := fs_pid s\<rparr>\<rparr>"
    have bf: "b_dev bf = 1" "b_blockno bf = b" "b_flags bf = 0" "holdingsleep (fs_pid s) (b_lock bf)"
      using h by (auto simp: bf_def holdingsleep_def)
    have get': "bget 1 b s = Some (i, s\<lparr>bufs := (bufs s)[i := bf]\<rparr>)" using get by (simp add: upd_buf_def bf_def)
    have "bf\<lparr>b_data := disk s b, b_flags := 2\<rparr> = grabbed s b (bufs s ! i)"
      using h nd v by (auto simp: bf_def grabbed_def)
    moreover have "iderw i (s\<lparr>bufs := (bufs s)[i := bf]\<rparr>) = Some (s\<lparr>bufs := (bufs s)[i := bf\<lparr>b_data := disk s b, b_flags := 2\<rparr>]\<rparr>)"
      using bf len assms(4) by (simp add: iderw_def upd_buf_def Let_def)
    ultimately show ?thesis using get' len bf(3) by (simp add: bread_def grab_def upd_buf_def)
  qed
  then show thesis using that i by blast
qed

section \<open>Keeping the cache in order\<close>

lemma upd_buf_fields [simp]:
  "bufs (upd_buf i f s) = (bufs s)[i := f (bufs s ! i)]" "disk (upd_buf i f s) = disk s" "fs_pid (upd_buf i f s) = fs_pid s"
  "disksize (upd_buf i f s) = disksize s" "disk_writes (upd_buf i f s) = disk_writes s" "logs (upd_buf i f s) = logs s"
  "icache (upd_buf i f s) = icache s" "sb (upd_buf i f s) = sb s" "devsw (upd_buf i f s) = devsw s" "cons (upd_buf i f s) = cons s"
  "fs_killed (upd_buf i f s) = fs_killed s"
  by (simp_all add: upd_buf_def)

lemma grab_fields [simp]:
  "bufs (grab b i s) = (bufs s)[i := grabbed s b (bufs s ! i)]" "disk (grab b i s) = disk s" "fs_pid (grab b i s) = fs_pid s"
  "disksize (grab b i s) = disksize s" "disk_writes (grab b i s) = disk_writes s" "logs (grab b i s) = logs s"
  "icache (grab b i s) = icache s" "sb (grab b i s) = sb s" "devsw (grab b i s) = devsw s" "cons (grab b i s) = cons s"
  "fs_killed (grab b i s) = fs_killed s" "mru (grab b i s) xs = mru s xs"
  by (simp_all add: grab_def)

text \<open>One buffer \<open>i\<close> of block \<open>b\<close> is replaced and no other buffer has that block: the effect on what each block holds.\<close>

lemma holds_upd:
  assumes "length (bufs s) = 30" "bufs t = (bufs s)[i := bf]" "i < 30"
  shows "holds t c j \<longleftrightarrow> (if j = i then b_dev bf = 1 \<and> b_blockno bf = c else holds s c j)"
  using assms by (auto simp: holds_def)

lemma cache_ok_upd:
  assumes "cache_ok s" "bufs t = (bufs s)[i := bf]" "disk t = disk s" "\<exists>xs. mru t xs \<and> set xs = {0..<30}" "i < 30"
    "buf_ok (disk s) bf" "b_dev bf = 1" "\<And>j. holds s (b_blockno bf) j \<Longrightarrow> j = i"
  shows "cache_ok t"
proof -
  note ok = cache_okD [OF assms(1)]
  note h = holds_upd [OF ok(1) assms(2,5)]
  have "buf_ok (disk t) (bufs t ! j)" if "j < 30" for j
    using ok assms that by (cases "j = i") simp_all
  moreover have "j = k" if jk: "holds t c j" "holds t c k" for c j k
  proof (cases "c = b_blockno bf")
    case True
    have "x = i" if "holds t c x" for x
      using that h [of c x] assms(8) [of x] True by (cases "x = i") simp_all
    then show ?thesis using jk by blast
  next
    case False
    have "holds s c x" if "holds t c x" for x
      using that h [of c x] False by (cases "x = i") simp_all
    then show ?thesis using jk ok(3) by blast
  qed
  moreover have "length (bufs t) = 30" "\<And>b. length (disk t b) = 512" using ok assms by simp_all
  ultimately show ?thesis using assms(4) unfolding cache_ok_def by blast
qed

lemma view_upd:
  assumes "cache_ok s" "cache_ok t" "bufs t = (bufs s)[i := bf]" "disk t = disk s" "i < 30" "b_dev bf = 1" "b_flags bf \<noteq> 0"
    "holds s (b_blockno bf) i \<or> spare s i"
  shows "view t = (view s)(b_blockno bf := b_data bf)"
proof
  fix c
  note ok = cache_okD [OF assms(1)]
  note h = holds_upd [OF ok(1) assms(3,5)]
  have nth: "bufs t ! i = bf" "\<And>j. j \<noteq> i \<Longrightarrow> bufs t ! j = bufs s ! j" using assms(3,5) ok(1) by auto
  show "view t c = ((view s)(b_blockno bf := b_data bf)) c"
  proof (cases "c = b_blockno bf")
    case True
    then have "holds t c i" using h assms(6) by simp
    then show ?thesis using True view_held [OF assms(2), of c i] nth assms(7) by simp
  next
    case False
    then have ni: "\<not> holds t c i" using h by simp
    show ?thesis
    proof (cases "\<exists>j. holds t c j \<and> b_flags (bufs t ! j) \<noteq> 0")
      case True
      then obtain j where j: "holds t c j" "b_flags (bufs t ! j) \<noteq> 0" by blast
      then have ji: "j \<noteq> i" using ni by auto
      then have "holds s c j" using j h by simp
      then show ?thesis using view_held [OF assms(2) j] view_held [OF assms(1), of c j] j ji nth False by simp
    next
      case none: False
      have vt: "view t c = disk s c" using view_not_held [of t c] none assms(4) by auto
      have "view s c = disk s c"
      proof (cases "holds s c i")
        case no: False
        show ?thesis
        proof (rule view_not_held)
          fix j assume j: "holds s c j"
          then have "j \<noteq> i" using no by auto
          then have "holds t c j" using j h by simp
          then have "b_flags (bufs t ! j) = 0" using none by blast
          then show "b_flags (bufs s ! j) = 0" using nth(2) [OF \<open>j \<noteq> i\<close>] by simp
        qed
      next
        case True
        have "\<not> holds s (b_blockno bf) i" using True False by (auto simp: holds_def)
        then have sp: "spare s i" using assms(8) by blast
        have "\<not> in_use s c" using True sp ok(3) by (auto simp: in_use_def spare_def)
        moreover have "\<not> dirty s c" using True sp ok(3) by (auto simp: dirty_def spare_def)
        ultimately show ?thesis using view_clean [OF assms(1)] by blast
      qed
      then show ?thesis using vt False by simp
    qed
  qed
qed

lemma flags_upd:
  assumes "cache_ok s" "bufs t = (bufs s)[i := bf]" "i < 30" "b_dev bf = 1" "\<And>j. holds s (b_blockno bf) j \<Longrightarrow> j = i"
    "holds s (b_blockno bf) i \<or> spare s i"
  shows "dirty t = (dirty s)(b_blockno bf := (b_flags bf = 6))" "in_use t = (in_use s)(b_blockno bf := sl_locked (b_lock bf))"
proof -
  note ok = cache_okD [OF assms(1)]
  note h = holds_upd [OF ok(1) assms(2,3)]
  have nth: "bufs t ! i = bf" "\<And>j. j \<noteq> i \<Longrightarrow> bufs t ! j = bufs s ! j" using assms(2,3) ok(1) by auto
  have other: "holds t c j \<longleftrightarrow> j \<noteq> i \<and> holds s c j" if "c \<noteq> b_blockno bf" for c j
    using that h by auto
  have same: "holds t (b_blockno bf) j \<longleftrightarrow> j = i" for j using h assms(4,5) by auto
  have sp: "spare s i" if "holds s c i" "c \<noteq> b_blockno bf" for c using that assms(6) by (auto simp: holds_def)
  have "dirty t c \<longleftrightarrow> dirty s c" if "c \<noteq> b_blockno bf" for c
  proof -
    have "dirty t c \<longleftrightarrow> (\<exists>j. holds s c j \<and> j \<noteq> i \<and> b_flags (bufs s ! j) = 6)"
      by (auto simp: dirty_def other [OF that] nth(2))
    then show ?thesis using sp [OF _ that] unfolding dirty_def spare_def by metis
  qed
  moreover have "dirty t (b_blockno bf) \<longleftrightarrow> b_flags bf = 6" using same nth by (auto simp: dirty_def)
  ultimately show "dirty t = (dirty s)(b_blockno bf := (b_flags bf = 6))" by (intro ext) simp
  have "in_use t c \<longleftrightarrow> in_use s c" if "c \<noteq> b_blockno bf" for c
  proof -
    have "in_use t c \<longleftrightarrow> (\<exists>j. holds s c j \<and> j \<noteq> i \<and> sl_locked (b_lock (bufs s ! j)))"
      by (auto simp: in_use_def other [OF that] nth(2))
    then show ?thesis using sp [OF _ that] unfolding in_use_def spare_def by metis
  qed
  moreover have "in_use t (b_blockno bf) \<longleftrightarrow> sl_locked (b_lock bf)" using same nth by (auto simp: in_use_def)
  ultimately show "in_use t = (in_use s)(b_blockno bf := sl_locked (b_lock bf))" by (intro ext) simp
qed

lemma grab_ok:
  assumes "cache_ok s" "chosen s b i"
  shows "cache_ok (grab b i s)" "view (grab b i s) = view s" "dirty (grab b i s) = dirty s"
    "in_use (grab b i s) = (in_use s)(b := True)"
proof -
  have i: "i < 30" using assms(2) by (simp add: chosen_def)
  let ?bf = "grabbed s b (bufs s ! i)"
  have bok: "buf_ok (disk s) ?bf" using length_view [OF assms(1)] by (simp add: buf_ok_def)
  note uniq = chosen_unique [OF assms]
  have m: "\<exists>xs. mru (grab b i s) xs \<and> set xs = {0..<30}" using assms(1) by (simp add: cache_ok_def)
  show g: "cache_ok (grab b i s)"
    by (rule cache_ok_upd [OF assms(1) _ _ m i bok]) (use uniq in simp_all)
  have c: "holds s (b_blockno ?bf) i \<or> spare s i" using assms(2) by (auto simp: chosen_def)
  have "view (grab b i s) = (view s)(b_blockno ?bf := b_data ?bf)"
    by (rule view_upd [OF assms(1) g _ _ i _ _ c]) simp_all
  then show "view (grab b i s) = view s" by (simp add: fun_upd_idem)
  have u: "j = i" if "holds s (b_blockno ?bf) j" for j using uniq [of j] that by simp
  have bu: "bufs (grab b i s) = (bufs s)[i := ?bf]" "b_dev ?bf = 1" by simp_all
  note f = flags_upd [OF assms(1) bu(1) i bu(2) u c]
  have "dirty (grab b i s) = (dirty s)(b := (if dirty s b then 6 else 2 :: u32) = 6)" using f(1) by simp
  also have "\<dots> = dirty s" by (intro ext) simp
  finally show "dirty (grab b i s) = dirty s" .
  show "in_use (grab b i s) = (in_use s)(b := True)" using f(2) by simp
qed

text \<open>The buffer of \<open>b\<close> is \<open>i\<close>, locked by the process.\<close>

definition owned :: "'a fsys_scheme \<Rightarrow> u32 \<Rightarrow> nat \<Rightarrow> bool" where
  "owned s b i \<longleftrightarrow> holds s b i \<and> b_flags (bufs s ! i) \<noteq> 0 \<and> holdingsleep (fs_pid s) (b_lock (bufs s ! i))"

lemma grab_owned:
  assumes "cache_ok s" "chosen s b i"
  shows "owned (grab b i s) b i" "b_data (bufs (grab b i s) ! i) = view s b"
proof -
  have "i < 30" using assms(2) unfolding chosen_def by blast
  then show "owned (grab b i s) b i" "b_data (bufs (grab b i s) ! i) = view s b"
    using cache_okD(1) [OF assms(1)] by (simp_all add: owned_def holds_def holdingsleep_def)
qed

section \<open>Changing, writing and releasing a buffer\<close>

lemma owned_fields:
  assumes "owned s b i"
  shows "i < 30" "b_dev (bufs s ! i) = 1" "b_blockno (bufs s ! i) = b" "b_flags (bufs s ! i) \<noteq> 0"
    "sl_locked (b_lock (bufs s ! i))" "sl_pid (b_lock (bufs s ! i)) = fs_pid s" "holds s b i"
  using assms by (auto simp: owned_def holds_def holdingsleep_def)

text \<open>Any change of an owned buffer that leaves it a valid buffer of its block, locked.\<close>

lemma owned_upd:
  assumes "cache_ok s" "owned s b i" "bufs t = (bufs s)[i := bf]" "disk t = disk s" "bnext t = bnext s" "bprev t = bprev s"
    "b_dev bf = 1" "b_blockno bf = b" "b_flags bf \<in> {2, 6}" "length (b_data bf) = 512" "b_refcnt bf = 1" "sl_locked (b_lock bf)"
  shows "cache_ok t" "view t = (view s)(b := b_data bf)" "dirty t = (dirty s)(b := (b_flags bf = 6))" "in_use t = in_use s"
proof -
  note o = owned_fields [OF assms(2)]
  have ok: "buf_ok (disk s) bf" using assms by (auto simp: buf_ok_def)
  have m: "\<exists>xs. mru t xs \<and> set xs = {0..<30}" using assms(1,5,6) by (auto simp: cache_ok_def mru_def)
  have u: "j = i" if "holds s (b_blockno bf) j" for j using that cache_okD(3) [OF assms(1)] o(7) assms(8) by auto
  have h: "holds s (b_blockno bf) i \<or> spare s i" using o(7) assms(8) by simp
  show t: "cache_ok t" by (rule cache_ok_upd [OF assms(1,3,4) m o(1) ok assms(7) u])
  have "b_flags bf \<noteq> 0" using assms(9) by auto
  from view_upd [OF assms(1) t assms(3,4) o(1) assms(7) this h]
  show "view t = (view s)(b := b_data bf)" by (simp only: assms(8))
  note f = flags_upd [OF assms(1,3) o(1) assms(7) u h]
  show "dirty t = (dirty s)(b := (b_flags bf = 6))" using f(1) by (simp only: assms(8))
  have "in_use s b" using o by (auto simp: in_use_def)
  moreover have "in_use t = (in_use s)(b := True)" using f(2) assms(8,12) by simp
  ultimately show "in_use t = in_use s" by (simp add: fun_upd_idem)
qed

text \<open>Links and wakeups do not matter for the contents.\<close>

lemma contents_cong:
  assumes "bufs t = bufs s" "disk t = disk s"
  shows "view t = view s" "dirty t = dirty s" "in_use t = in_use s" "holds t = holds s" "spare t = spare s"
  unfolding fun_eq_iff view_def dirty_def in_use_def holds_def spare_def assms by (rule allI, rule refl | intro allI, rule refl)+

lemma link_fields [simp]:
  "bufs (link_first b s) = bufs s" "disk (link_first b s) = disk s" "bufs (unlink_buf b s) = bufs s" "disk (unlink_buf b s) = disk s"
  by (simp_all add: link_first_def unlink_buf_def Let_def)

definition same_but_cache :: "'a fsys_scheme \<Rightarrow> 'a fsys_scheme \<Rightarrow> bool" where
  "same_but_cache s t \<longleftrightarrow> (\<exists>bs nx pv w. t = s\<lparr>bufs := bs, bnext := nx, bprev := pv, wakeups := w\<rparr>)"

lemma same_but_cacheD:
  assumes "same_but_cache s t"
  shows "disk t = disk s" "disk_writes t = disk_writes s" "disksize t = disksize s" "fs_pid t = fs_pid s" "fs_killed t = fs_killed s"
    "logs t = logs s" "icache t = icache s" "sb t = sb s" "devsw t = devsw s" "cons t = cons s"
  using assms by (auto simp: same_but_cache_def)

lemma same_but_cache_trans [trans]: "same_but_cache s t \<Longrightarrow> same_but_cache t u \<Longrightarrow> same_but_cache s u"
  unfolding same_but_cache_def by fastforce

lemma same_but_cache_upd: "same_but_cache s (upd_buf i f s)"
  unfolding same_but_cache_def upd_buf_def
  by (intro exI [of _ "(bufs s)[i := f (bufs s ! i)]"] exI [of _ "bnext s"] exI [of _ "bprev s"] exI [of _ "wakeups s"]) simp

lemma same_but_cache_wake: "same_but_cache s (wake ch s)"
  unfolding same_but_cache_def wake_def
  by (intro exI [of _ "bufs s"] exI [of _ "bnext s"] exI [of _ "bprev s"] exI [of _ "wakeups s @ [ch]"]) simp

lemma same_but_cache_links: "same_but_cache s (s\<lparr>bprev := pv, bnext := nx\<rparr>)"
  unfolding same_but_cache_def
  by (intro exI [of _ "bufs s"] exI [of _ nx] exI [of _ pv] exI [of _ "wakeups s"]) simp

lemma same_but_cache_link: "same_but_cache s (link_first i s)" "same_but_cache s (unlink_buf i s)"
  using same_but_cache_links [of s] by (simp_all add: link_first_def unlink_buf_def Let_def)

lemma same_but_cache_grab: "same_but_cache s (grab b i s)"
  unfolding grab_def by (rule same_but_cache_upd)

text \<open>\<open>brelse\<close> of a buffer whose content is on disk or pinned.\<close>

definition released_buf :: "buf \<Rightarrow> buf" where
  "released_buf bf = bf\<lparr>b_lock := releasesleep (b_lock bf), b_refcnt := 0\<rparr>"

lemma brelse_spec:
  assumes "cache_ok s" "owned s b i" "dirty s b \<or> view s b = disk s b"
  obtains t where "brelse i s = Some t" "cache_ok t" "view t = view s" "dirty t = dirty s" "in_use t = (in_use s)(b := False)"
    "same_but_cache s t" "bufs t = (bufs s)[i := released_buf (bufs s ! i)]" "\<And>xs. mru s xs \<Longrightarrow> i \<in> set xs \<Longrightarrow> mru t (i # remove1 i xs)"
proof -
  note o = owned_fields [OF assms(2)] and ok = cache_okD [OF assms(1)]
  have bok: "buf_ok (disk s) (bufs s ! i)" using ok(2) o(1) by blast
  then have ref: "b_refcnt (bufs s ! i) = 1" using o by (simp add: buf_ok_def)
  let ?bf = "released_buf (bufs s ! i)"
  define u where "u = upd_buf i (\<lambda>bf. bf\<lparr>b_refcnt := b_refcnt bf - 1\<rparr>) (wake (BufChan i) (upd_buf i (\<lambda>bf. bf\<lparr>b_lock := releasesleep (b_lock bf)\<rparr>) s))"
  have bu: "bufs u = (bufs s)[i := ?bf]" "disk u = disk s" using o(1) ok(1) ref by (simp_all add: u_def wake_def upd_buf_def released_buf_def)
  have mu: "mru u xs = mru s xs" for xs by (simp add: u_def)
  define t where "t = link_first i (unlink_buf i u)"
  have order: "mru t (i # remove1 i xs)" if xs: "mru s xs" "i \<in> set xs" for xs
  proof -
    from xs(2) obtain ys zs where yz: "xs = ys @ i # zs" "i \<notin> set ys" using split_list_first by metis
    have "mru (unlink_buf i u) (ys @ zs)" using unlink_buf_dll [of u ys i zs] xs(1) mu yz by simp
    then have "mru t (i # ys @ zs)" unfolding t_def
      by (rule link_first_dll) (use xs(1) yz o(1) in \<open>auto simp: mru_def\<close>)
    moreover have "remove1 i xs = ys @ zs" using yz by (simp add: remove1_append)
    ultimately show ?thesis by simp
  qed
  obtain xs where xs: "mru s xs" "set xs = {0..<30}" using assms(1) by (auto simp: cache_ok_def)
  have mem: "i \<in> set xs" "distinct xs" using xs o(1) by (simp_all add: mru_def)
  have "set (i # remove1 i xs) = {0..<30}" using mem xs(2) by (simp add: set_remove1_eq insert_absorb)
  then have m: "\<exists>xs. mru t xs \<and> set xs = {0..<30}" using order [OF xs(1) mem(1)] by blast
  have bt: "bufs t = (bufs s)[i := ?bf]" "disk t = disk s" using bu by (simp_all add: t_def)
  have rf: "b_flags ?bf = b_flags (bufs s ! i)" "b_dev ?bf = 1" "b_blockno ?bf = b" "b_data ?bf = b_data (bufs s ! i)"
    "\<not> sl_locked (b_lock ?bf)" "b_refcnt ?bf = 0"
    using o by (simp_all add: released_buf_def releasesleep_def)
  have v: "view s b = b_data (bufs s ! i)" by (rule view_held [OF assms(1) o(7) o(4)])
  have d: "dirty s b \<longleftrightarrow> b_flags (bufs s ! i) = 6" using o(7) ok(3) by (auto simp: dirty_def)
  have bok': "buf_ok (disk s) ?bf" using bok rf o assms(3) v d by (auto simp: buf_ok_def)
  have uq: "j = i" if "holds s (b_blockno ?bf) j" for j using that ok(3) o(7) rf(3) by auto
  have h: "holds s (b_blockno ?bf) i \<or> spare s i" using o(7) rf(3) by simp
  have t: "cache_ok t" by (rule cache_ok_upd [OF assms(1) bt m o(1) bok' rf(2) uq])
  have "b_flags ?bf \<noteq> 0" using rf(1) o(4) by simp
  from view_upd [OF assms(1) t bt o(1) rf(2) this h] have vt: "view t = view s" using rf v by (simp add: fun_upd_idem)
  note f = flags_upd [OF assms(1) bt(1) o(1) rf(2) uq h]
  have dt: "dirty t = dirty s" using f(1) rf d by (simp add: fun_upd_idem)
  have it: "in_use t = (in_use s)(b := False)" using f(2) rf by simp
  have "brelse i s = Some t"
    using o ok(1) ref by (simp add: brelse_def holdingsleep_def Let_def t_def u_def wake_def upd_buf_def)
  moreover have "same_but_cache s t"
    unfolding t_def u_def by (meson same_but_cache_trans same_but_cache_link same_but_cache_upd same_but_cache_wake)
  ultimately show thesis using t vt dt it bt(1) order by (intro that)
qed

lemma bwrite_spec:
  assumes "cache_ok s" "owned s b i" "b < disksize s"
  obtains t where "bwrite i s = Some t" "cache_ok t" "view t = view s" "dirty t = (dirty s)(b := False)" "in_use t = in_use s"
    "owned t b i" "disk t = (disk s)(b := view s b)" "disk_writes t = disk_writes s @ [(b, view s b)]"
    "same_but_cache (s\<lparr>disk := (disk s)(b := view s b), disk_writes := disk_writes s @ [(b, view s b)]\<rparr>) t"
    "bufs t = (bufs s)[i := (bufs s ! i)\<lparr>b_flags := 2\<rparr>]"
proof -
  note o = owned_fields [OF assms(2)] and ok = cache_okD [OF assms(1)]
  have bok: "buf_ok (disk s) (bufs s ! i)" using ok(2) o(1) by blast
  have v: "view s b = b_data (bufs s ! i)" by (rule view_held [OF assms(1) o(7) o(4)])
  let ?bf = "(bufs s ! i)\<lparr>b_flags := 2\<rparr>"
  define u where "u = s\<lparr>disk := (disk s)(b := view s b), disk_writes := disk_writes s @ [(b, view s b)]\<rparr>"
  define t where "t = u\<lparr>bufs := (bufs s)[i := ?bf]\<rparr>"
  have fl: "b_flags (bufs s ! i) = 2 \<or> b_flags (bufs s ! i) = 6" using bok o(4) by (auto simp: buf_ok_def)
  have w: "bwrite i s = Some t"
    using fl o ok(1) assms(3) v
    by (auto simp: bwrite_def iderw_def holdingsleep_def upd_buf_def t_def u_def Let_def)
  text \<open>First the buffer is cleaned on the old disk, then the disk agrees with it.\<close>
  have bt: "bufs t = (bufs s)[i := ?bf]" and dt: "disk t = (disk s)(b := view s b)" by (simp_all add: t_def u_def)
  have h: "holds t c j \<longleftrightarrow> holds s c j" for c j using o(1) ok(1) by (auto simp: holds_def bt nth_list_update)
  have nth: "bufs t ! i = ?bf" "\<And>j. j \<noteq> i \<Longrightarrow> bufs t ! j = bufs s ! j" using bt o(1) ok(1) by auto
  have bokt: "buf_ok (disk t) (bufs t ! j)" if "j < 30" for j
  proof (cases "j = i")
    case True
    then show ?thesis using bok nth(1) o by (simp add: buf_ok_def)
  next
    case False
    have ne: "b_blockno (bufs s ! j) \<noteq> b" if "b_dev (bufs s ! j) = 1"
      using False ok(3) [of b i j] o(7) that \<open>j < 30\<close> by (auto simp: holds_def)
    have "buf_ok (disk s) (bufs s ! j)" using ok(2) that by blast
    then show ?thesis using nth(2) [OF False] ne by (auto simp: buf_ok_def dt)
  qed
  have lent: "length (disk t c) = 512" for c using ok(4) length_view [OF assms(1)] by (simp add: dt)
  have t: "cache_ok t"
    using assms(1) h bokt lent unfolding cache_ok_def by (simp add: t_def u_def mru_def)
  have "view t c = view s c" for c
  proof (cases "\<exists>j. holds s c j \<and> b_flags (bufs s ! j) \<noteq> 0")
    case True
    then obtain j where j: "holds s c j" "b_flags (bufs s ! j) \<noteq> 0" by blast
    have "b_flags (bufs t ! j) \<noteq> 0" "b_data (bufs t ! j) = b_data (bufs s ! j)"
      using nth j by (cases "j = i"; simp)+
    then show ?thesis using view_held [OF t] view_held [OF assms(1)] h j by metis
  next
    case False
    have "c \<noteq> b" using False o by blast
    moreover have "view t c = disk t c"
    proof (rule view_not_held)
      fix j assume "holds t c j"
      then have "holds s c j" "j \<noteq> i" using h False o(4,7) by auto
      then show "b_flags (bufs t ! j) = 0" using False nth(2) by auto
    qed
    moreover have "view s c = disk s c" by (rule view_not_held) (use False in blast)
    ultimately show ?thesis by (simp add: dt)
  qed
  then have vt: "view t = view s" by (rule ext)
  have "dirty t c \<longleftrightarrow> c \<noteq> b \<and> dirty s c" for c
  proof (cases "c = b")
    case True
    have "b_flags (bufs t ! j) = 2" if "holds t c j" for j
    proof -
      have "j = i" using ok(3) [of b j i] that h o(7) True by simp
      then show ?thesis using nth(1) by simp
    qed
    then show ?thesis using True unfolding dirty_def by force
  next
    case False
    then have "j \<noteq> i" if "holds s c j" for j using that o(3) by (auto simp: holds_def)
    then show ?thesis using False h nth(2) unfolding dirty_def by metis
  qed
  then have dd: "dirty t = (dirty s)(b := False)" by (intro ext) simp
  have "sl_locked (b_lock (bufs t ! j)) = sl_locked (b_lock (bufs s ! j))" for j using nth by (cases "j = i") simp_all
  then have it: "in_use t = in_use s" unfolding in_use_def by (intro ext) (simp add: h)
  have ot: "owned t b i" using o nth(1) h by (simp add: owned_def holdingsleep_def t_def u_def)
  have "same_but_cache u t"
    unfolding same_but_cache_def t_def
    by (intro exI [of _ "(bufs s)[i := ?bf]"] exI [of _ "bnext u"] exI [of _ "bprev u"] exI [of _ "wakeups u"]) simp
  moreover have "disk_writes t = disk_writes s @ [(b, view s b)]" by (simp add: t_def u_def)
  ultimately show thesis using that [OF w t vt dd it ot dt _ _ bt] by (simp only: u_def)
qed

lemma spare_exists:
  assumes "cache_ok s" "finite {b. dirty s b \<or> in_use s b}" "card {b. dirty s b \<or> in_use s b} < 30"
  shows "\<exists>i. spare s i"
proof (rule ccontr)
  assume none: "\<not> (\<exists>i. spare s i)"
  note ok = cache_okD [OF assms(1)]
  let ?f = "\<lambda>i. b_blockno (bufs s ! i)"
  have h: "holds s (?f i) i \<and> (dirty s (?f i) \<or> in_use s (?f i))" if "i < 30" for i
  proof -
    have "sl_locked (b_lock (bufs s ! i)) \<or> b_flags (bufs s ! i) = 6" using none that by (auto simp: spare_def)
    moreover have "buf_ok (disk s) (bufs s ! i)" using ok(2) that by blast
    ultimately have "holds s (?f i) i" using that by (auto simp: holds_def buf_ok_def)
    then show ?thesis using \<open>sl_locked (b_lock (bufs s ! i)) \<or> b_flags (bufs s ! i) = 6\<close> by (auto simp: dirty_def in_use_def)
  qed
  have "inj_on ?f {0..<30}"
  proof (rule inj_onI)
    fix i j assume "i \<in> {0..<30}" "j \<in> {0..<30}" "?f i = ?f j"
    then show "i = j" using h [of i] h [of j] ok(3) by (metis atLeastLessThan_iff)
  qed
  moreover have "?f ` {0..<30} \<subseteq> {b. dirty s b \<or> in_use s b}"
  proof
    fix b assume "b \<in> ?f ` {0..<30}"
    then obtain i where "i < 30" "b = ?f i" by auto
    then show "b \<in> {b. dirty s b \<or> in_use s b}" using h [of i] by simp
  qed
  ultimately have "card {0..<30 :: nat} \<le> card {b. dirty s b \<or> in_use s b}"
    by (metis assms(2) card_inj_on_le)
  then show False using assms(3) by simp
qed

section \<open>Whole accesses\<close>

text \<open>A buffer for block \<open>b\<close> can be had.\<close>

definition avail :: "'a fsys_scheme \<Rightarrow> u32 \<Rightarrow> bool" where
  "avail s b \<longleftrightarrow> \<not> in_use s b \<and> ((\<exists>i. holds s b i) \<or> (\<exists>i. spare s i)) \<and> b < disksize s"

lemma owned_other:
  assumes "owned s a k" "bufs t = (bufs s)[i := bf]" "i \<noteq> k" "fs_pid t = fs_pid s"
  shows "owned t a k" "bufs t ! k = bufs s ! k"
  using assms by (auto simp: owned_def holds_def)

lemma bread_avail:
  assumes "cache_ok s" "avail s b"
  obtains i t where "bread 1 b s = Some (i, t)" "owned t b i" "b_data (bufs t ! i) = view s b" "cache_ok t" "view t = view s"
    "dirty t = dirty s" "in_use t = (in_use s)(b := True)" "same_but_cache s t"
    "\<And>a k. owned s a k \<Longrightarrow> k \<noteq> i \<and> owned t a k \<and> bufs t ! k = bufs s ! k"
proof -
  have a: "\<not> in_use s b" "(\<exists>i. holds s b i) \<or> (\<exists>i. spare s i)" "b < disksize s" using assms(2) by (auto simp: avail_def)
  obtain i where i: "chosen s b i" "bread 1 b s = Some (i, grab b i s)" by (rule bread_spec [OF assms(1) a])
  have keep: "k \<noteq> i \<and> owned (grab b i s) a k \<and> bufs (grab b i s) ! k = bufs s ! k" if k: "owned s a k" for a k
  proof -
    have "k \<noteq> i" using owned_fields(5) [OF k] i(1) unfolding chosen_def by blast
    then show ?thesis using owned_other [OF k, of "grab b i s" i "grabbed s b (bufs s ! i)"] by simp
  qed
  show thesis using grab_ok [OF assms(1) i(1)] grab_owned [OF assms(1) i(1)] i(2) same_but_cache_grab keep
    by (intro that)
qed

lemma avail_card:
  assumes "cache_ok s" "\<not> in_use s b" "b < disksize s"
    "dirty s b \<or> finite {c. dirty s c \<or> in_use s c} \<and> card {c. dirty s c \<or> in_use s c} < 30"
  shows "avail s b"
  using assms spare_exists [OF assms(1)] by (auto simp: avail_def dirty_def)

text \<open>Reading a block and releasing it again.\<close>

lemma read_block:
  assumes "cache_ok s" "avail s b"
  obtains i t u where "bread 1 b s = Some (i, t)" "b_data (bufs t ! i) = view s b" "brelse i t = Some u"
    "cache_ok u" "view u = view s" "dirty u = dirty s" "in_use u = in_use s" "same_but_cache s t" "same_but_cache s u"
proof -
  have nu: "\<not> in_use s b" using assms(2) by (simp add: avail_def)
  obtain i t where t: "bread 1 b s = Some (i, t)" "owned t b i" "b_data (bufs t ! i) = view s b" "cache_ok t" "view t = view s"
    "dirty t = dirty s" "in_use t = (in_use s)(b := True)" "same_but_cache s t" by (rule bread_avail [OF assms])
  have "dirty t b \<or> view t b = disk t b"
  proof (cases "dirty s b")
    case False
    then have "view s b = disk s b" using view_clean [OF assms(1)] nu by blast
    then show ?thesis using t same_but_cacheD(1) [OF t(8)] by simp
  qed (use t in simp)
  then obtain u where u: "brelse i t = Some u" "cache_ok u" "view u = view t" "dirty u = dirty t" "in_use u = (in_use t)(b := False)" "same_but_cache t u"
    by (rule brelse_spec [OF t(4,2)])
  have "in_use u = in_use s" using u(5) t(7) nu by (simp add: fun_upd_idem)
  then show thesis using t u same_but_cache_trans by (intro that [of i t u]) simp_all
qed

text \<open>Reading a block, changing it and writing it through to the disk.\<close>

lemma write_block:
  assumes "cache_ok s" "avail s b" "\<And>d. length d = 512 \<Longrightarrow> length (f d) = 512"
  obtains i t u v where "bread 1 b s = Some (i, t)" "b_data (bufs t ! i) = view s b" "same_but_cache s t"
    "bwrite i (upd_buf i (\<lambda>bf. bf\<lparr>b_data := f (b_data bf)\<rparr>) t) = Some u" "brelse i u = Some v"
    "cache_ok v" "view v = (view s)(b := f (view s b))" "dirty v = (dirty s)(b := False)" "in_use v = in_use s"
    "same_but_cache (s\<lparr>disk := (disk s)(b := f (view s b)), disk_writes := disk_writes s @ [(b, f (view s b))]\<rparr>) v"
proof -
  have nu: "\<not> in_use s b" "b < disksize s" using assms(2) by (simp_all add: avail_def)
  obtain i t where t: "bread 1 b s = Some (i, t)" "owned t b i" "b_data (bufs t ! i) = view s b" "cache_ok t" "view t = view s"
    "dirty t = dirty s" "in_use t = (in_use s)(b := True)" "same_but_cache s t" by (rule bread_avail [OF assms(1,2)])
  note o = owned_fields [OF t(2)] and st = same_but_cacheD [OF t(8)]
  let ?bf = "(bufs t ! i)\<lparr>b_data := f (b_data (bufs t ! i))\<rparr>"
  let ?t = "upd_buf i (\<lambda>bf. bf\<lparr>b_data := f (b_data bf)\<rparr>) t"
  have bok: "buf_ok (disk t) (bufs t ! i)" using cache_okD(2) [OF t(4)] o(1) by blast
  have bt: "bufs ?t = (bufs t)[i := ?bf]" "disk ?t = disk t" "bnext ?t = bnext t" "bprev ?t = bprev t" by (simp_all add: upd_buf_def)
  have bf: "b_dev ?bf = 1" "b_blockno ?bf = b" "b_flags ?bf \<in> {2, 6}" "length (b_data ?bf) = 512" "b_refcnt ?bf = 1" "sl_locked (b_lock ?bf)"
    using o bok assms(3) by (auto simp: buf_ok_def)
  note up = owned_upd [OF t(4,2) bt bf]
  have fd: "b_data ?bf = f (view s b)" using t(3) by simp
  have ow: "owned ?t b i" using o cache_okD(1) [OF t(4)] by (auto simp: owned_def holds_def holdingsleep_def)
  have "b < disksize ?t" using nu(2) st(3) by simp
  from bwrite_spec [OF up(1) ow this] obtain u where u: "bwrite i ?t = Some u" "cache_ok u" "view u = view ?t"
      "dirty u = (dirty ?t)(b := False)" "in_use u = in_use ?t" "owned u b i" "disk u = (disk ?t)(b := view ?t b)"
      "disk_writes u = disk_writes ?t @ [(b, view ?t b)]"
      "same_but_cache (?t\<lparr>disk := (disk ?t)(b := view ?t b), disk_writes := disk_writes ?t @ [(b, view ?t b)]\<rparr>) u"
    by blast
  have vb: "view ?t b = f (view s b)" using up(2) fd by simp
  have "view u b = disk u b" using u(3,7) by simp
  then obtain v where v: "brelse i u = Some v" "cache_ok v" "view v = view u" "dirty v = dirty u" "in_use v = (in_use u)(b := False)"
      "same_but_cache u v"
    using brelse_spec [OF u(2,6)] by metis
  have "view v = (view s)(b := f (view s b))" using v(3) u(3) up(2) t(5) fd by simp
  moreover have "dirty v = (dirty s)(b := False)" using v(4) u(4) up(3) t(6) by simp
  moreover have "in_use v = in_use s" using v(5) u(5) up(4) t(7) nu(1) by (simp add: fun_upd_idem)
  moreover have "same_but_cache (s\<lparr>disk := (disk s)(b := f (view s b)), disk_writes := disk_writes s @ [(b, f (view s b))]\<rparr>)
      (?t\<lparr>disk := (disk ?t)(b := view ?t b), disk_writes := disk_writes ?t @ [(b, view ?t b)]\<rparr>)"
  proof -
    have "same_but_cache s ?t" using t(8) same_but_cache_upd same_but_cache_trans by blast
    then obtain bs nx pv w where eq: "?t = s\<lparr>bufs := bs, bnext := nx, bprev := pv, wakeups := w\<rparr>" unfolding same_but_cache_def by blast
    show ?thesis unfolding vb unfolding eq same_but_cache_def
      by (intro exI [of _ bs] exI [of _ nx] exI [of _ pv] exI [of _ w]) simp
  qed
  then have "same_but_cache (s\<lparr>disk := (disk s)(b := f (view s b)), disk_writes := disk_writes s @ [(b, f (view s b))]\<rparr>) v"
    using u(9) v(6) same_but_cache_trans by blast
  ultimately show thesis using t u v by (intro that [of i t u v]) simp_all
qed

text \<open>Copying one owned buffer to another, writing that one through, and releasing both.\<close>

lemma copy_block:
  assumes "cache_ok s" "owned s a i" "owned s b j" "a \<noteq> b" "b < disksize s" "dirty s a \<or> view s a = disk s a"
  obtains u v w where "bwrite j (upd_buf j (\<lambda>bf. bf\<lparr>b_data := b_data (bufs s ! i)\<rparr>) s) = Some u" "brelse i u = Some v" "brelse j v = Some w"
    "cache_ok w" "view w = (view s)(b := view s a)" "dirty w = (dirty s)(b := False)" "in_use w = (in_use s)(a := False, b := False)"
    "same_but_cache (s\<lparr>disk := (disk s)(b := view s a), disk_writes := disk_writes s @ [(b, view s a)]\<rparr>) w"
proof -
  note oi = owned_fields [OF assms(2)] and oj = owned_fields [OF assms(3)]
  have ij: "i \<noteq> j" using oi(3) oj(3) assms(4) by auto
  have va: "view s a = b_data (bufs s ! i)" by (rule view_held [OF assms(1) oi(7) oi(4)])
  let ?bf = "(bufs s ! j)\<lparr>b_data := b_data (bufs s ! i)\<rparr>"
  let ?t = "upd_buf j (\<lambda>bf. bf\<lparr>b_data := b_data (bufs s ! i)\<rparr>) s"
  have bok: "buf_ok (disk s) (bufs s ! j)" using cache_okD(2) [OF assms(1)] oj(1) by blast
  have bt: "bufs ?t = (bufs s)[j := ?bf]" "disk ?t = disk s" "bnext ?t = bnext s" "bprev ?t = bprev s" by (simp_all add: upd_buf_def)
  have "length (b_data (bufs s ! i)) = 512" using length_view [OF assms(1), of a] va by simp
  then have bf: "b_dev ?bf = 1" "b_blockno ?bf = b" "b_flags ?bf \<in> {2, 6}" "length (b_data ?bf) = 512" "b_refcnt ?bf = 1" "sl_locked (b_lock ?bf)"
    using oj bok by (auto simp: buf_ok_def)
  note up = owned_upd [OF assms(1,3) bt bf]
  have ow: "owned ?t b j" using oj cache_okD(1) [OF assms(1)] by (auto simp: owned_def holds_def holdingsleep_def)
  have dsz: "b < disksize ?t" using assms(5) by simp
  have vt: "view ?t = (view s)(b := view s a)" using up(2) va by simp
  obtain u where u: "bwrite j ?t = Some u" "cache_ok u" "view u = view ?t" "dirty u = (dirty ?t)(b := False)" "in_use u = in_use ?t"
      "owned u b j" "disk u = (disk ?t)(b := view ?t b)" "disk_writes u = disk_writes ?t @ [(b, view ?t b)]"
      "same_but_cache (?t\<lparr>disk := (disk ?t)(b := view ?t b), disk_writes := disk_writes ?t @ [(b, view ?t b)]\<rparr>) u"
      "bufs u = (bufs ?t)[j := (bufs ?t ! j)\<lparr>b_flags := 2\<rparr>]"
    by (rule bwrite_spec [OF up(1) ow dsz])
  have pid: "fs_pid u = fs_pid s" using same_but_cacheD(4) [OF u(9)] by simp
  have ownt: "owned ?t a i" using owned_other(1) [OF assms(2) bt(1)] ij by simp
  have owu: "owned u a i" using owned_other(1) [OF ownt u(10)] ij pid by simp
  have "dirty u a \<or> view u a = disk u a" using assms(4,6) u(3,4,7) up(3) vt by auto
  then obtain v where v: "brelse i u = Some v" "cache_ok v" "view v = view u" "dirty v = dirty u" "in_use v = (in_use u)(a := False)"
      "same_but_cache u v" "bufs v = (bufs u)[i := released_buf (bufs u ! i)]"
    by (rule brelse_spec [OF u(2) owu])
  have dv: "disk v = disk u" "fs_pid v = fs_pid u" using same_but_cacheD [OF v(6)] by simp_all
  have owv: "owned v b j" using owned_other(1) [OF u(6) v(7) ij dv(2)] .
  have "dirty v b \<or> view v b = disk v b" using v(3) u(3,7) dv(1) by simp
  then obtain w where w: "brelse j v = Some w" "cache_ok w" "view w = view v" "dirty w = dirty v" "in_use w = (in_use v)(b := False)"
      "same_but_cache v w"
    by (rule brelse_spec [OF v(2) owv])
  have "same_but_cache (s\<lparr>disk := (disk s)(b := view s a), disk_writes := disk_writes s @ [(b, view s a)]\<rparr>)
      (?t\<lparr>disk := (disk ?t)(b := view ?t b), disk_writes := disk_writes ?t @ [(b, view ?t b)]\<rparr>)"
    unfolding vt unfolding upd_buf_def same_but_cache_def
    by (intro exI [of _ "(bufs s)[j := ?bf]"] exI [of _ "bnext s"] exI [of _ "bprev s"] exI [of _ "wakeups s"]) simp
  then have sbc: "same_but_cache (s\<lparr>disk := (disk s)(b := view s a), disk_writes := disk_writes s @ [(b, view s a)]\<rparr>) w"
    using u(9) v(6) w(6) same_but_cache_trans by blast
  show thesis
    by (rule that [OF u(1) v(1) w(1,2) _ _ _ sbc])
      (use w v u up vt in simp_all)
qed

end
