(* ===== verification/Bio_Lru.thy ===== *)
theory Bio_Lru
  imports Bio_Cache
begin

text \<open>
  The properties of the buffer cache: it starts in a state of the invariant \<open>cache_ok\<close>, a read returns the current contents of the block,
  and a recycled buffer is the least recently used one.
\<close>

section \<open>The cache at boot\<close>

text \<open>The state after \<open>binit\<close>: the memory of the buffers is zero, the disk is what the last run left.\<close>

definition booted :: "'a fsys_scheme \<Rightarrow> bool" where
  "booted s \<longleftrightarrow> (\<exists>r. s = binit r \<and> length (bufs r) = 30 \<and> (\<forall>bf \<in> set (bufs r). b_flags bf = 0 \<and> b_dev bf = 0 \<and> b_refcnt bf = 0))"

lemma binit_fields:
  "length (bufs (binit s)) = length (bufs s)" "disk (binit s) = disk s" "disksize (binit s) = disksize s" "logs (binit s) = logs s"
  "disk_writes (binit s) = disk_writes s" "i < 30 \<Longrightarrow> length (bufs s) = 30 \<Longrightarrow> bufs (binit s) ! i = (bufs s ! i)\<lparr>b_lock := initsleeplock ''buffer'' (b_lock (bufs s ! i))\<rparr>"
proof -
  define f :: "nat \<Rightarrow> 'a fsys_scheme \<Rightarrow> 'a fsys_scheme" where
    "f = (\<lambda>b s. link_first b (upd_buf b (\<lambda>bf. bf\<lparr>b_lock := initsleeplock ''buffer'' (b_lock bf)\<rparr>) s))"
  have g: "length (bufs (fold f [0..<n] s)) = length (bufs s) \<and> disk (fold f [0..<n] s) = disk s \<and> disksize (fold f [0..<n] s) = disksize s
      \<and> logs (fold f [0..<n] s) = logs s \<and> disk_writes (fold f [0..<n] s) = disk_writes s
      \<and> (\<forall>i < length (bufs s). bufs (fold f [0..<n] s) ! i =
           (if i < n then (bufs s ! i)\<lparr>b_lock := initsleeplock ''buffer'' (b_lock (bufs s ! i))\<rparr> else bufs s ! i))" for n s
  proof (induction n)
    case (Suc n)
    have l: "bufs (link_first b t) = bufs t \<and> disk (link_first b t) = disk t \<and> disksize (link_first b t) = disksize t \<and> logs (link_first b t) = logs t
        \<and> disk_writes (link_first b t) = disk_writes t" for b and t :: "'a fsys_scheme"
      using same_but_cacheD(1,2,3,6) [OF same_but_cache_link(1), of b t] by simp
    show ?case using Suc by (simp add: f_def l nth_list_update less_Suc_eq)
  qed simp
  show "length (bufs (binit s)) = length (bufs s)" "disk (binit s) = disk s" "disksize (binit s) = disksize s" "logs (binit s) = logs s"
    "disk_writes (binit s) = disk_writes s" "i < 30 \<Longrightarrow> length (bufs s) = 30 \<Longrightarrow> bufs (binit s) ! i = (bufs s ! i)\<lparr>b_lock := initsleeplock ''buffer'' (b_lock (bufs s ! i))\<rparr>"
    unfolding binit_def Let_def f_def [symmetric] using g [of 30 "s\<lparr>bprev := (bprev s)(NBUF := NBUF), bnext := (bnext s)(NBUF := NBUF)\<rparr>"] by simp_all
qed

lemma booted_cache:
  assumes "booted s" and d: "\<And>b. length (disk s b) = 512"
  shows "cache_ok s" "dirty s = (\<lambda>_. False)" "in_use s = (\<lambda>_. False)"
proof -
  from assms obtain r where r: "s = binit r" "length (bufs r) = 30"
    and z: "\<And>bf. bf \<in> set (bufs r) \<Longrightarrow> b_flags bf = 0 \<and> b_dev bf = 0 \<and> b_refcnt bf = 0"
    unfolding booted_def by blast
  have b: "b_flags (bufs s ! i) = 0" "b_dev (bufs s ! i) = 0" "b_refcnt (bufs s ! i) = 0" "\<not> sl_locked (b_lock (bufs s ! i))" if "i < 30" for i
    using z [of "bufs r ! i"] binit_fields(6) [OF that r(2)] r that by (simp_all add: initsleeplock_def)
  have nh: "\<not> holds s c i" for c i using b(2) [of i] by (auto simp: holds_def)
  have "buf_ok (disk s) (bufs s ! i)" if "i < 30" for i using b [OF that] by (simp add: buf_ok_def)
  moreover have "\<exists>xs. mru s xs \<and> set xs = {0..<30}" using binit_mru [of r] r(1) by (intro exI [of _ "rev [0..<30]"]) simp
  ultimately show "cache_ok s" using d r binit_fields(1) [of r] nh by (simp add: cache_ok_def)
  show "dirty s = (\<lambda>_. False)" "in_use s = (\<lambda>_. False)" using nh by (simp_all add: in_use_def dirty_def fun_eq_iff)
qed

section \<open>Least recently used\<close>

lemma find_rev:
  "find P (rev xs) = Some i \<Longrightarrow> \<exists>ys zs. xs = ys @ i # zs \<and> P i \<and> (\<forall>j \<in> set zs. \<not> P j)"
proof (induction xs rule: rev_induct)
  case (snoc x xs)
  show ?case
  proof (cases "P x")
    case True
    then show ?thesis using snoc.prems by (intro exI [of _ xs] exI [of _ "[]"]) simp
  next
    case False
    then obtain ys zs where "xs = ys @ i # zs" "P i" "\<forall>j \<in> set zs. \<not> P j" using snoc by auto
    then show ?thesis using False by (intro exI [of _ ys] exI [of _ "zs @ [x]"]) simp
  qed
qed simp

lemma spare_iff:
  assumes "cache_ok s" "i < 30"
  shows "spare s i \<longleftrightarrow> b_refcnt (bufs s ! i) = 0 \<and> \<not> has_flag (b_flags (bufs s ! i)) 4"
  using cache_okD(2) [OF assms] assms(2) buf_ok_dirty [OF cache_okD(2) [OF assms]] by (auto simp: spare_def buf_ok_def)

lemma bget_lru:
  assumes "cache_ok s" "mru s xs" "set xs = {0..<30}" "\<forall>i. \<not> holds s b i" "\<exists>i. spare s i"
  shows "\<exists>ys i zs t. xs = ys @ i # zs \<and> spare s i \<and> (\<forall>j \<in> set zs. \<not> spare s j) \<and> bget 1 b s = Some (i, t) \<and> holds t b i"
proof -
  let ?Q = "\<lambda>i. b_refcnt (bufs s ! i) = 0 \<and> \<not> has_flag (b_flags (bufs s ! i)) B_DIRTY"
  let ?P = "\<lambda>i. b_dev (bufs s ! i) = 1 \<and> b_blockno (bufs s ! i) = b"
  note scan = bget_scan [OF assms(2)]
  have sq: "spare s i \<longleftrightarrow> ?Q i" if "i \<in> set xs" for i using spare_iff [OF assms(1)] that assms(3) by simp
  have "find ?P xs = None" using assms(3,4) by (auto simp: find_None_iff holds_def)
  then have cached: "bget_cached (bnext s NBUF) 1 b s = Some None" using scan(1) by simp
  from assms(5) obtain k where "spare s k" by blast
  moreover have k: "k \<in> set xs" using \<open>spare s k\<close> assms(3) by (simp add: spare_def)
  ultimately have "?Q k" using sq by blast
  then have "find ?Q (rev xs) \<noteq> None" using k unfolding find_None_iff by auto
  then obtain i where i: "find ?Q (rev xs) = Some i" by blast
  from find_rev [OF i] obtain ys zs where y: "xs = ys @ i # zs" "?Q i" "\<forall>j \<in> set zs. \<not> ?Q j" by blast
  have "i \<in> set xs" using y(1) by simp
  then have si: "spare s i" and i30: "i < 30" using sq y(2) assms(3) by auto
  have "\<forall>j \<in> set zs. \<not> spare s j" using y(1,3) sq by auto
  moreover obtain t where "bget 1 b s = Some (i, t)" "holds t b i"
    using cached scan(2) i si i30 cache_okD(1) [OF assms(1)] by (auto simp: bget_def lock_buf_def acquiresleep_def spare_def holds_def)
  ultimately show ?thesis using y(1) si by blast
qed

section \<open>An example\<close>

text \<open>
  A disk of 1000 blocks with the log at block 2 and an empty header, its super block in block 1; the state after \<open>binit\<close>.
\<close>

definition zero_block :: block where
  "zero_block = replicate 512 0"

definition sample_disk :: "u32 \<Rightarrow> block" where
  "sample_disk = (\<lambda>b. if b = 1 then put zero_block 16 (bytes32 2) else zero_block)"

definition sample_log :: log where
  "sample_log = \<lparr>log_start = 2, log_size = 30, log_outstanding = 1, log_committing = False, log_dev = 1, lh_n = 0, lh_block = replicate 30 0\<rparr>"

definition sample_raw :: fsys where
  "sample_raw = \<lparr>fs_pid = 1, fs_killed = False, wakeups = [], disk = sample_disk, disksize = 1000, disk_writes = [],
     bufs = replicate 30 \<lparr>b_flags = 0, b_dev = 0, b_blockno = 0, b_lock = \<lparr>sl_locked = False, sl_name = [], sl_pid = 0\<rparr>, b_refcnt = 0, b_data = []\<rparr>,
     bprev = (\<lambda>_. 0), bnext = (\<lambda>_. 0), logs = sample_log,
     sb = \<lparr>sb_size = 0, sb_nblocks = 0, sb_ninodes = 0, sb_nlog = 0, sb_logstart = 0, sb_inodestart = 0, sb_bmapstart = 0\<rparr>,
     icache = [], devsw = [], cons = \<lparr>cons_locking = False, cons_uart = [], cons_crt = [], cons_pos = 0, cons_buf = [], cons_r = 0, cons_w = 0, cons_e = 0\<rparr>\<rparr>"

definition sample_boot :: fsys where
  "sample_boot = binit sample_raw"

lemma sample_disk_length: "length (sample_disk b) = 512"
  by (simp add: sample_disk_def zero_block_def)

lemma sample_boot_fields: "disk sample_boot = sample_disk" "disksize sample_boot = 1000" "logs sample_boot = sample_log" "disk_writes sample_boot = []"
  by (simp_all add: sample_boot_def binit_fields) (simp_all add: sample_raw_def)

lemma sample_booted: "booted (binit (sample_raw\<lparr>disk := d\<rparr>))"
  unfolding booted_def by (rule exI [of _ "sample_raw\<lparr>disk := d\<rparr>"]) (simp add: sample_raw_def)

lemma sample_nothing: "\<not> holds sample_boot b i"
proof
  assume h: "holds sample_boot b i"
  then have "i < 30" by (simp add: holds_def)
  then show False using h binit_fields(6) [of i sample_raw] by (simp add: holds_def sample_boot_def) (simp add: sample_raw_def)
qed

lemma sample_boot_cache: "cache_ok sample_boot" "dirty sample_boot = (\<lambda>_. False)" "in_use sample_boot = (\<lambda>_. False)"
proof -
  have "sample_raw\<lparr>disk := sample_disk\<rparr> = sample_raw" by (simp add: sample_raw_def)
  then have "booted sample_boot" using sample_booted [of sample_disk] by (simp add: sample_boot_def)
  moreover have "length (disk sample_boot b) = 512" for b using sample_disk_length sample_boot_fields by simp
  ultimately show "cache_ok sample_boot" "dirty sample_boot = (\<lambda>_. False)" "in_use sample_boot = (\<lambda>_. False)" by (rule booted_cache)+
qed

section \<open>Properties\<close>

text \<open>
  C12: as long as fewer than 30 blocks are in use or pinned, \<open>bread\<close> of a block that is not in use succeeds, returns a buffer
  locked by the caller that holds the current contents of that block (what was last written to it, on the disk or not yet), changes the
  contents of no block, and keeps the invariant of the cache, in particular that no block is in two buffers.
\<close>

theorem bread_correct:
  assumes "cache_ok s" "\<not> in_use s b" "b < disksize s" "finite {c. dirty s c \<or> in_use s c}" "card {c. dirty s c \<or> in_use s c} < 30"
  shows "\<exists>i t. bread 1 b s = Some (i, t) \<and> b_data (bufs t ! i) = view s b \<and> holdingsleep (fs_pid t) (b_lock (bufs t ! i))
    \<and> cache_ok t \<and> view t = view s \<and> in_use t = (in_use s)(b := True) \<and> disk t = disk s"
proof -
  have av: "avail s b" using avail_card [OF assms(1-3)] assms(4,5) by blast
  obtain i t where t: "bread 1 b s = Some (i, t)" "owned t b i" "b_data (bufs t ! i) = view s b" "cache_ok t" "view t = view s"
    "dirty t = dirty s" "in_use t = (in_use s)(b := True)" "same_but_cache s t" by (rule bread_avail [OF assms(1) av])
  then show ?thesis using same_but_cacheD(1) [OF t(8)] by (auto simp: owned_def)
qed

theorem bread_correct_witness:
  "\<exists>i t. bread 1 7 sample_boot = Some (i, t) \<and> b_data (bufs t ! i) = zero_block"
proof -
  have v: "view sample_boot 7 = zero_block"
    using view_clean [of sample_boot 7] sample_boot_cache by (simp add: sample_boot_fields sample_disk_def)
  have "\<not> in_use sample_boot 7" "7 < disksize sample_boot" "finite {c. dirty sample_boot c \<or> in_use sample_boot c}"
    "card {c. dirty sample_boot c \<or> in_use sample_boot c} < 30" using sample_boot_cache by (simp_all add: sample_boot_fields)
  from bread_correct [OF sample_boot_cache(1) this] show ?thesis unfolding v by blast
qed

text \<open>
  C28: the buffers are in a list in the order of their last release: \<open>brelse\<close> of a buffer moves it to the front and keeps the order of the
  others, and for a block that is not cached \<open>bget\<close> takes the last buffer of the list that is neither in use nor pinned.
\<close>

theorem bcache_lru:
  assumes "cache_ok s" "mru s xs" "set xs = {0..<30}"
  shows "((\<forall>i. \<not> holds s b i) \<and> (\<exists>i. spare s i) \<longrightarrow>
      (\<exists>ys i zs t. xs = ys @ i # zs \<and> spare s i \<and> (\<forall>j \<in> set zs. \<not> spare s j) \<and> bget 1 b s = Some (i, t) \<and> holds t b i)) \<and>
    (owned s b i \<and> (dirty s b \<or> view s b = disk s b) \<longrightarrow> (\<exists>t. brelse i s = Some t \<and> mru t (i # remove1 i xs)))"
proof (intro conjI impI)
  assume a: "owned s b i \<and> (dirty s b \<or> view s b = disk s b)"
  then have o: "owned s b i" and d: "dirty s b \<or> view s b = disk s b" by blast+
  have "i \<in> set xs" using owned_fields(1) [OF o] assms(3) by simp
  then show "\<exists>t. brelse i s = Some t \<and> mru t (i # remove1 i xs)" using brelse_spec [OF assms(1) o d] assms(2) by metis
qed (use bget_lru [OF assms] in blast)

theorem bcache_lru_witness:
  "\<exists>ys i zs t. rev [0..<30] = ys @ i # zs \<and> spare sample_boot i \<and> bget 1 7 sample_boot = Some (i, t) \<and> holds t 7 i"
proof -
  have m: "mru sample_boot (rev [0..<30])" "set (rev [0..<30]) = {0..<30}" using binit_mru [of sample_raw] by (simp_all add: sample_boot_def)
  have nh: "\<forall>i. \<not> holds sample_boot 7 i" using sample_nothing by blast
  have "\<exists>i. spare sample_boot i" by (rule spare_exists [OF sample_boot_cache(1)]) (simp_all add: sample_boot_cache)
  then show ?thesis using bcache_lru [OF sample_boot_cache(1) m, of 7] nh by blast
qed

end
