(* ===== verification/Log_Crash.thy ===== *)
theory Log_Crash
  imports Log Bio_Lru
begin

text \<open>
  Crash safety of the log. The disk survives a crash with the writes made so far; a write of one block is
  atomic. The argument is made once on disks and lists of writes, for any encoding of the log header (the locale
  \<open>redo_log\<close>), and then \<open>commit\<close> and \<open>recover_from_log\<close> are shown to write exactly these lists.
\<close>

section \<open>Writes\<close>

type_synonym disk = "u32 \<Rightarrow> block"

definition write_all :: "(u32 \<times> block) list \<Rightarrow> disk \<Rightarrow> disk" where
  "write_all ws d = fold (\<lambda>(b, v) d. d(b := v)) ws d"

lemma write_all_simps [simp]:
  "write_all [] d = d" "write_all ((b, v) # ws) d = write_all ws (d(b := v))" "write_all (xs @ ys) d = write_all ys (write_all xs d)"
  by (simp_all add: write_all_def)

lemma write_all_other: "b \<notin> fst ` set ws \<Longrightarrow> write_all ws d b = d b"
  by (induction ws arbitrary: d) (auto simp: image_iff)

text \<open>Writes to the blocks \<open>f 0, f 1, \<dots>\<close>, all different.\<close>

definition writes :: "(nat \<Rightarrow> u32) \<Rightarrow> (nat \<Rightarrow> block) \<Rightarrow> nat \<Rightarrow> (u32 \<times> block) list" where
  "writes f g n = map (\<lambda>t. (f t, g t)) [0..<n]"

lemma writes_Suc: "writes f g (Suc n) = writes f g n @ [(f n, g n)]"
  by (simp add: writes_def)

lemma length_writes [simp]: "length (writes f g n) = n"
  by (simp add: writes_def)

lemma fst_writes [simp]: "fst ` set (writes f g n) = f ` {..<n}"
  by (auto simp: writes_def image_image)

lemma writes_nth: "m \<le> length bl \<Longrightarrow> b \<notin> set bl \<Longrightarrow> b \<notin> fst ` set (writes ((!) bl) g m)"
  unfolding fst_writes by (auto simp: in_set_conv_nth dest: less_le_trans)

lemma take_writes: "take k (writes f g n) = writes f g (min k n)"
  by (simp add: writes_def take_map min_def)

lemma writes_cong: "(\<And>t. t < n \<Longrightarrow> g t = h t) \<Longrightarrow> writes f g n = writes f h n"
  by (simp add: writes_def)

lemma write_all_writes:
  "inj_on f {..<n} \<Longrightarrow> t < n \<Longrightarrow> write_all (writes f g n) d (f t) = g t"
proof (induction n)
  case (Suc n)
  show ?case
  proof (cases "t = n")
    case True
    then show ?thesis by (simp add: writes_Suc)
  next
    case False
    then have "t < n" "f n \<noteq> f t" using Suc.prems by (auto dest: inj_onD)
    then show ?thesis using Suc by (simp add: writes_Suc inj_on_def)
  qed
qed simp

section \<open>The redo log\<close>

text \<open>The log blocks follow the header block \<open>start\<close>.\<close>

definition log_slot :: "u32 \<Rightarrow> nat \<Rightarrow> u32" where
  "log_slot start t = start + word_of_nat t + 1"

definition log_area :: "u32 \<Rightarrow> u32 set" where
  "log_area start = insert start (log_slot start ` {..<30})"

lemma log_slot_unat: "unat start + 30 < 2 ^ 32 \<Longrightarrow> t < 30 \<Longrightarrow> unat (log_slot start t) = unat start + t + 1"
  by (simp add: log_slot_def unat_word_ariths unat_of_nat)

lemma log_slot_inj: "unat start + 30 < 2 ^ 32 \<Longrightarrow> n \<le> 30 \<Longrightarrow> inj_on (log_slot start) {..<n}"
proof (rule inj_onI)
  fix x y assume a: "unat start + 30 < 2 ^ 32" "n \<le> 30" "x \<in> {..<n}" "y \<in> {..<n}" "log_slot start x = log_slot start y"
  have "unat (log_slot start x) = unat start + x + 1" "unat (log_slot start y) = unat start + y + 1"
    using log_slot_unat [OF a(1), of x] log_slot_unat [OF a(1), of y] a(2-4) by simp_all
  then have "unat start + x + 1 = unat start + y + 1" unfolding a(5) by (rule trans [OF sym])
  then show "x = y" by simp
qed

lemma log_slot_start: "unat start + 30 < 2 ^ 32 \<Longrightarrow> t < 30 \<Longrightarrow> log_slot start t \<noteq> start"
proof
  assume a: "unat start + 30 < 2 ^ 32" "t < 30" "log_slot start t = start"
  show False using log_slot_unat [OF a(1,2)] a(3) by simp
qed

text \<open>What a commit of the blocks \<open>bl\<close> with contents \<open>v\<close> writes, \<open>hb\<close> being the header block before it; what recovery writes; and the disk it leaves.\<close>

definition commit_writes :: "(u32 list \<Rightarrow> block \<Rightarrow> block) \<Rightarrow> u32 \<Rightarrow> u32 list \<Rightarrow> disk \<Rightarrow> block \<Rightarrow> (u32 \<times> block) list" where
  "commit_writes enc start bl v hb =
     writes (log_slot start) (\<lambda>t. v (bl ! t)) (length bl) @ [(start, enc bl hb)]
     @ writes ((!) bl) (\<lambda>t. v (bl ! t)) (length bl) @ [(start, enc [] (enc bl hb))]"

definition recover_writes :: "(u32 list \<Rightarrow> block \<Rightarrow> block) \<Rightarrow> (block \<Rightarrow> u32 list) \<Rightarrow> u32 \<Rightarrow> disk \<Rightarrow> (u32 \<times> block) list" where
  "recover_writes enc dec start d =
     (let bl = dec (d start) in writes ((!) bl) (\<lambda>t. d (log_slot start t)) (length bl) @ [(start, enc [] (d start))])"

definition recovered :: "(u32 list \<Rightarrow> block \<Rightarrow> block) \<Rightarrow> (block \<Rightarrow> u32 list) \<Rightarrow> u32 \<Rightarrow> disk \<Rightarrow> disk" where
  "recovered enc dec start d = write_all (recover_writes enc dec start d) d"

locale redo_log =
  fixes enc :: "u32 list \<Rightarrow> block \<Rightarrow> block" and dec :: "block \<Rightarrow> u32 list"
  assumes dec_enc: "length bl \<le> 30 \<Longrightarrow> length d = 512 \<Longrightarrow> dec (enc bl d) = bl"
    and length_enc: "length (enc bl d) = length d"
begin

lemma recovered_empty: "dec (d start) = [] \<Longrightarrow> b \<noteq> start \<Longrightarrow> recovered enc dec start d b = d b"
  by (simp add: recovered_def recover_writes_def writes_def)

lemma recovered_full:
  assumes "dec (d start) = bl" "distinct bl" "b \<noteq> start" "start \<notin> set bl"
  shows "recovered enc dec start d b = (if b \<in> set bl then d (log_slot start (THE t. t < length bl \<and> bl ! t = b)) else d b)"
proof (cases "b \<in> set bl")
  case True
  then obtain t where t: "t < length bl" "bl ! t = b" by (auto simp: in_set_conv_nth)
  then have the: "(THE t. t < length bl \<and> bl ! t = b) = t" using assms(2) by (auto simp: nth_eq_iff_index_eq)
  have "inj_on ((!) bl) {..<length bl}" using assms(2) by (auto simp: inj_on_def nth_eq_iff_index_eq)
  then have "write_all (writes ((!) bl) (\<lambda>t. d (log_slot start t)) (length bl)) d (bl ! t) = d (log_slot start t)"
    using t(1) by (rule write_all_writes)
  then show ?thesis using True assms(1,3) t the by (simp add: recovered_def recover_writes_def Let_def)
next
  case False
  then have "b \<notin> fst ` set (writes ((!) bl) (\<lambda>t. d (log_slot start t)) (length bl))" by (intro writes_nth) simp_all
  then show ?thesis using False assms(1,3) by (simp add: recovered_def recover_writes_def Let_def write_all_other)
qed

text \<open>
  A crash after any number of the writes of a commit, followed by recovery: before the header is
  written the old contents, from then on the new ones.
\<close>

lemma crash_safe:
  assumes "dec (d start) = []" "length (d start) = 512" "length bl \<le> 30" "distinct bl" "set bl \<inter> log_area start = {}"
    "unat start + 30 < 2 ^ 32" "b \<notin> log_area start"
  shows "recovered enc dec start (write_all (take k (commit_writes enc start bl v (d start))) d) b =
    (if k \<le> length bl then d b else if b \<in> set bl then v b else d b)"
proof -
  let ?n = "length bl" and ?hd = "enc bl (d start)"
  let ?L = "writes (log_slot start) (\<lambda>t. v (bl ! t))" and ?I = "writes ((!) bl) (\<lambda>t. v (bl ! t))"
  have bs: "b \<noteq> start" and bslot: "\<And>t. t < 30 \<Longrightarrow> b \<noteq> log_slot start t" using assms(7) by (auto simp: log_area_def)
  have sbl: "start \<notin> set bl" and slbl: "\<And>t. t < 30 \<Longrightarrow> log_slot start t \<notin> set bl" using assms(5) by (auto simp: log_area_def)
  have inj: "inj_on ((!) bl) {..<?n}" using assms(4) by (auto simp: inj_on_def nth_eq_iff_index_eq)
  have keep: "write_all (?L m) d b = d b" "write_all (?L m) d start = d start" if "m \<le> ?n" for m
  proof -
    have "t < m \<Longrightarrow> t < 30" for t using that assms(3) by simp
    then have "b \<notin> log_slot start ` {..<m}" "start \<notin> log_slot start ` {..<m}"
      using bslot log_slot_start [OF assms(6)] by (blast, metis imageE lessThan_iff)
    then show "write_all (?L m) d b = d b" "write_all (?L m) d start = d start" by (simp_all add: write_all_other)
  qed
  show ?thesis
  proof (cases "k \<le> ?n")
    case True
    then have tk: "take k (commit_writes enc start bl v (d start)) = ?L k" by (simp add: commit_writes_def take_writes)
    show ?thesis using True keep [OF True] recovered_empty [of "write_all (?L k) d" start b] bs assms(1) by (simp add: tk)
  next
    case False
    define d1 where "d1 = (write_all (?L ?n) d)(start := ?hd)"
    have slot1: "d1 (log_slot start t) = v (bl ! t)" if "t < ?n" for t
      using write_all_writes [OF log_slot_inj [OF assms(6,3)] that] log_slot_start [OF assms(6)] that assms(3) by (simp add: d1_def)
    have hd1: "dec (d1 start) = bl" using dec_enc [OF assms(3,2)] by (simp add: d1_def)
    show ?thesis
    proof (cases "k \<le> 2 * ?n + 1")
      case True
      define m where "m = k - ?n - 1"
      have m: "m \<le> ?n" using True by (simp add: m_def)
      have tk: "take k (commit_writes enc start bl v (d start)) = ?L ?n @ [(start, ?hd)] @ ?I m"
      proof -
        have k: "k = ?n + (Suc m)" and "min m ?n = m" using False m by (simp_all add: m_def)
        then show ?thesis unfolding commit_writes_def k by (simp add: take_writes)
      qed
      let ?d = "write_all (?I m) d1"
      have eq: "write_all (take k (commit_writes enc start bl v (d start))) d = ?d" unfolding tk by (simp add: d1_def)
      have "start \<notin> fst ` set (?I m)" by (rule writes_nth [OF m sbl])
      then have h: "dec (?d start) = bl" using hd1 by (simp add: write_all_other)
      have s: "?d (log_slot start t) = v (bl ! t)" if "t < ?n" for t
      proof -
        have "log_slot start t \<notin> fst ` set (?I m)" using that assms(3) by (intro writes_nth [OF m] slbl) simp
        then show ?thesis using slot1 [OF that] by (simp add: write_all_other)
      qed
      have "?d b = d b" if "b \<notin> set bl"
      proof -
        have "b \<notin> fst ` set (?I m)" by (rule writes_nth [OF m that])
        then show ?thesis using bs keep(1) [of ?n] by (simp add: write_all_other d1_def)
      qed
      moreover have "?d (log_slot start (THE t. t < ?n \<and> bl ! t = b)) = v b" if bm: "b \<in> set bl"
      proof -
        obtain t where t: "t < ?n" "bl ! t = b" using bm by (auto simp: in_set_conv_nth)
        then have "(THE t. t < ?n \<and> bl ! t = b) = t" using assms(4) by (auto simp: nth_eq_iff_index_eq)
        then show ?thesis using s t by simp
      qed
      ultimately show ?thesis
        using False recovered_full [where d = ?d, OF h assms(4) bs sbl] eq by simp
    next
      case k: False
      have len: "length (commit_writes enc start bl v (d start)) = 2 * ?n + 2" by (simp add: commit_writes_def)
      then have tk: "take k (commit_writes enc start bl v (d start)) = commit_writes enc start bl v (d start)" using k by simp
      let ?d = "(write_all (?I ?n) d1)(start := enc [] ?hd)"
      have eq: "write_all (take k (commit_writes enc start bl v (d start))) d = ?d" unfolding tk by (simp add: commit_writes_def d1_def)
      have "dec (?d start) = []" using dec_enc [of "[]" ?hd] length_enc assms(2) by simp
      then have r: "recovered enc dec start ?d b = write_all (?I ?n) d1 b" using recovered_empty [of ?d start b] bs by simp
      have "write_all (?I ?n) d1 b = (if b \<in> set bl then v b else d b)"
      proof (cases "b \<in> set bl")
        case True
        then obtain t where t: "t < ?n" "bl ! t = b" by (auto simp: in_set_conv_nth)
        then show ?thesis using write_all_writes [OF inj t(1), of "\<lambda>t. v (bl ! t)" d1] True by simp
      next
        case nb: False
        then have "b \<notin> fst ` set (?I ?n)" by (intro writes_nth) simp_all
        then show ?thesis using nb bs keep(1) [of ?n] by (simp add: write_all_other d1_def)
      qed
      then show ?thesis using k r eq by simp
    qed
  qed
qed

end

text \<open>The header block after any number of the writes of a commit.\<close>

lemma write_all_last: "write_all ws d b = d b \<or> (b, write_all ws d b) \<in> set ws"
proof (induction ws arbitrary: d)
  case (Cons w ws)
  obtain c v where w: "w = (c, v)" by (cases w)
  show ?case using Cons [of "d(c := v)"] by (cases "c = b") (auto simp: w fun_upd_def)
qed simp

lemma header_after:
  assumes "length bl \<le> 30" "start \<notin> set bl" "unat start + 30 < 2 ^ 32"
  shows "write_all (take k (commit_writes enc start bl v hb)) d start \<in> {d start, enc bl hb, enc [] (enc bl hb)}"
proof -
  let ?L = "writes (log_slot start) (\<lambda>t. v (bl ! t)) (length bl)" and ?I = "writes ((!) bl) (\<lambda>t. v (bl ! t)) (length bl)"
  let ?x = "write_all (take k (commit_writes enc start bl v hb)) d start"
  have "start \<notin> fst ` set ?I" by (rule writes_nth) (use assms in simp_all)
  then have I: "(start, ?x) \<notin> set ?I" by (metis fst_conv image_eqI)
  have "start \<notin> fst ` set ?L" using log_slot_start [OF assms(3)] assms(1) unfolding fst_writes by (metis imageE lessThan_iff less_le_trans)
  then have L: "(start, ?x) \<notin> set ?L" by (metis fst_conv image_eqI)
  have "?x = d start \<or> (start, ?x) \<in> set (commit_writes enc start bl v hb)"
    using write_all_last [of "take k (commit_writes enc start bl v hb)" d start] in_set_takeD by fast
  moreover have "(start, ?x) \<in> set (commit_writes enc start bl v hb) \<Longrightarrow> ?x = enc bl hb \<or> ?x = enc [] (enc bl hb)"
    using I L unfolding commit_writes_def by auto
  ultimately show ?thesis by blast
qed

lemma commit_writes_other:
  assumes "length bl \<le> 30" "b \<notin> set bl" "b \<notin> log_area start"
  shows "write_all (take k (commit_writes enc start bl v hb)) d b = d b"
proof -
  have "b \<notin> log_slot start ` {..<length bl}" "b \<noteq> start" using assms(1,3) by (auto simp: log_area_def)
  moreover have "b \<notin> (!) bl ` {..<length bl}" using assms(2) by (auto simp: in_set_conv_nth)
  ultimately have "b \<notin> fst ` set (commit_writes enc start bl v hb)"
    unfolding commit_writes_def set_append image_Un fst_writes by simp
  then have "b \<notin> fst ` set (take k (commit_writes enc start bl v hb))" by (metis (no_types, lifting) image_iff in_set_takeD)
  then show ?thesis by (rule write_all_other)
qed

section \<open>The header block\<close>

definition enc_head :: "u32 list \<Rightarrow> block \<Rightarrow> block" where
  "enc_head bl d = fold (\<lambda>i d. put d (4 + 4 * i) (bytes32 (bl ! i))) [0..<length bl] (put d 0 (bytes32 (word_of_nat (length bl))))"

definition dec_head :: "block \<Rightarrow> u32 list" where
  "dec_head d = map (\<lambda>i. get32 d (4 + 4 * i)) [0..<nat (sint (get32 d 0))]"

lemma length_puts [simp]: "length (fold (\<lambda>i d. put d (p i) (v i)) xs d) = length d" for d :: "u8 list"
  by (induction xs arbitrary: d) simp_all

lemma get32_puts:
  assumes "length d = 512"
  shows "n \<le> 30 \<Longrightarrow> get32 (fold (\<lambda>i d. put d (4 + 4 * i) (bytes32 (f i))) [0..<n] d) 0 = get32 d 0 \<and>
    (\<forall>j < n. get32 (fold (\<lambda>i d. put d (4 + 4 * i) (bytes32 (f i))) [0..<n] d) (4 + 4 * j) = f j)"
proof (induction n)
  case (Suc n)
  let ?d = "fold (\<lambda>i d. put d (4 + 4 * i) (bytes32 (f i))) [0..<n] d"
  have len: "length ?d = 512" using assms by simp
  have "get32 (put ?d (4 + 4 * n) (bytes32 (f n))) 0 = get32 ?d 0" using Suc.prems len by (intro get32_put_other) auto
  moreover have "get32 (put ?d (4 + 4 * n) (bytes32 (f n))) (4 + 4 * j) = f j" if "j < Suc n" for j
  proof (cases "j = n")
    case True
    then show ?thesis using len Suc.prems by simp
  next
    case False
    then have "get32 (put ?d (4 + 4 * n) (bytes32 (f n))) (4 + 4 * j) = get32 ?d (4 + 4 * j)"
      using that Suc.prems len by (intro get32_put_other) auto
    then show ?thesis using False Suc that by simp
  qed
  ultimately show ?case using Suc by simp
qed simp

lemma sint_small: "n < 2 ^ 31 \<Longrightarrow> sint (word_of_nat n :: u32) = int n"
  by (simp add: signed_of_nat signed_take_bit_int_eq_self)

lemma enc_head_props:
  assumes "length bl \<le> 30" "length d = 512"
  shows "dec_head (enc_head bl d) = bl" "length (enc_head bl d) = 512" "sint (get32 (enc_head bl d) 0) = int (length bl)"
proof -
  let ?d = "put d 0 (bytes32 (word_of_nat (length bl)))"
  have len: "length ?d = 512" using assms by simp
  have "get32 (enc_head bl d) 0 = word_of_nat (length bl)"
    using get32_puts [OF len assms(1)] assms(2) by (simp add: enc_head_def)
  then show i: "sint (get32 (enc_head bl d) 0) = int (length bl)" using sint_small [of "length bl"] assms(1) by simp
  then have n: "nat (sint (get32 (enc_head bl d) 0)) = length bl" by simp
  have "get32 (enc_head bl d) (4 + 4 * j) = bl ! j" if "j < length bl" for j
    using get32_puts [OF len assms(1)] that by (simp add: enc_head_def)
  then show "dec_head (enc_head bl d) = bl" unfolding dec_head_def n by (intro nth_equalityI) simp_all
  show "length (enc_head bl d) = 512" using assms by (simp add: enc_head_def)
qed

interpretation hd_log: redo_log enc_head dec_head
proof unfold_locales
  fix bl :: "u32 list" and d :: block
  show "length bl \<le> 30 \<Longrightarrow> length d = 512 \<Longrightarrow> dec_head (enc_head bl d) = bl" by (rule enc_head_props)
  show "length (enc_head bl d) = length d" by (simp add: enc_head_def)
qed

end
