(* ===== verification/Log_Commit.thy ===== *)
theory Log_Commit
  imports Log_Crash
begin

text \<open>
  \<open>log.c\<close> refines the redo log: \<open>commit\<close> performs the writes of \<open>commit_writes\<close> in that order and
  \<open>recover_from_log\<close> leaves the disk \<open>recovered\<close>, both without a panic. With the abstract argument of
  \<open>redo_log\<close> this gives crash safety of the code.
\<close>

section \<open>The state between two accesses\<close>

text \<open>No buffer is in use, and the blocks \<open>D\<close>, at most 29, are pinned: one of the 30 buffers is always free.\<close>

definition quiet :: "'a fsys_scheme \<Rightarrow> u32 set \<Rightarrow> bool" where
  "quiet s D \<longleftrightarrow> cache_ok s \<and> in_use s = (\<lambda>_. False) \<and> dirty s = (\<lambda>b. b \<in> D) \<and> finite D \<and> card D \<le> 29"

text \<open>From \<open>s\<close> to \<open>t\<close> the blocks \<open>ws\<close> were written to the disk, and nothing else outside the cache changed.\<close>

definition wrote :: "(u32 \<times> block) list \<Rightarrow> 'a fsys_scheme \<Rightarrow> 'a fsys_scheme \<Rightarrow> bool" where
  "wrote ws s t \<longleftrightarrow> view t = write_all ws (view s)
     \<and> same_but_cache (s\<lparr>disk := write_all ws (disk s), disk_writes := disk_writes s @ ws\<rparr>) t"

lemma same_but_cache_disk:
  assumes "same_but_cache s t"
  shows "same_but_cache (s\<lparr>disk := d, disk_writes := w\<rparr>) (t\<lparr>disk := d, disk_writes := w\<rparr>)"
proof -
  from assms obtain bs nx pv k where eq: "t = s\<lparr>bufs := bs, bnext := nx, bprev := pv, wakeups := k\<rparr>" unfolding same_but_cache_def by blast
  show ?thesis unfolding eq same_but_cache_def
    by (intro exI [of _ bs] exI [of _ nx] exI [of _ pv] exI [of _ k]) simp
qed

lemma wroteD:
  assumes "wrote ws s t"
  shows "view t = write_all ws (view s)" "disk t = write_all ws (disk s)" "disk_writes t = disk_writes s @ ws" "logs t = logs s"
    "disksize t = disksize s" "sb t = sb s" "icache t = icache s" "fs_pid t = fs_pid s"
  using assms same_but_cacheD [of "s\<lparr>disk := write_all ws (disk s), disk_writes := disk_writes s @ ws\<rparr>" t] by (simp_all add: wrote_def)

lemma wrote_nil: "wrote [] s s"
  unfolding wrote_def same_but_cache_def
  by (intro conjI exI [of _ "bufs s"] exI [of _ "bnext s"] exI [of _ "bprev s"] exI [of _ "wakeups s"]) simp_all

lemma wrote_trans:
  assumes "wrote xs s t" "wrote ys t u"
  shows "wrote (xs @ ys) s u"
proof -
  note d = wroteD [OF assms(1)]
  have "same_but_cache (s\<lparr>disk := write_all ys (disk t), disk_writes := disk_writes t @ ys\<rparr>) (t\<lparr>disk := write_all ys (disk t), disk_writes := disk_writes t @ ys\<rparr>)"
    using same_but_cache_disk [of "s\<lparr>disk := write_all xs (disk s), disk_writes := disk_writes s @ xs\<rparr>" t] assms(1) by (simp add: wrote_def)
  then have "same_but_cache (s\<lparr>disk := write_all ys (disk t), disk_writes := disk_writes t @ ys\<rparr>) u"
    using assms(2) same_but_cache_trans unfolding wrote_def by blast
  then show ?thesis using assms(2) d unfolding wrote_def by simp
qed

lemma quiet_view_clean: "quiet s D \<Longrightarrow> b \<notin> D \<Longrightarrow> view s b = disk s b"
  using view_clean [of s b] by (simp add: quiet_def)

section \<open>Copying a block, writing the header\<close>

lemma read_two:
  assumes "quiet s D" "x \<noteq> y" "x < disksize s" "y < disksize s" "y \<in> D \<or> D = {}"
  obtains i t j u where "bread 1 x s = Some (i, t)" "bread 1 y t = Some (j, u)" "owned u x i" "owned u y j" "cache_ok u" "view u = view s"
    "dirty u = dirty s" "in_use u = (\<lambda>_. False)(x := True, y := True)" "same_but_cache s t" "same_but_cache s u"
proof -
  have q: "cache_ok s" "in_use s = (\<lambda>_. False)" "dirty s = (\<lambda>b. b \<in> D)" "finite D" "card D \<le> 29" using assms(1) by (simp_all add: quiet_def)
  have ax: "avail s x" by (rule avail_card [OF q(1)]) (use q assms(3) in simp_all)
  obtain i t where t: "bread 1 x s = Some (i, t)" "owned t x i" "b_data (bufs t ! i) = view s x" "cache_ok t" "view t = view s"
      "dirty t = dirty s" "in_use t = (in_use s)(x := True)" "same_but_cache s t"
    by (rule bread_avail [OF q(1) ax])
  have "dirty t y \<or> finite {c. dirty t c \<or> in_use t c} \<and> card {c. dirty t c \<or> in_use t c} < 30"
    using assms(5) t(6,7) q(2,3) by auto
  then have ay: "avail t y" using avail_card [OF t(4)] t(7) q(2) assms(2,4) same_but_cacheD(3) [OF t(8)] by simp
  show thesis
  proof (rule bread_avail [OF t(4) ay])
    fix j u assume u: "bread 1 y t = Some (j, u)" "owned u y j" "b_data (bufs u ! j) = view t y" "cache_ok u" "view u = view t" "dirty u = dirty t"
      "in_use u = (in_use t)(y := True)" "same_but_cache t u" "\<And>a k. owned t a k \<Longrightarrow> k \<noteq> j \<and> owned u a k \<and> bufs u ! k = bufs t ! k"
    have "owned u x i" using u(9) [OF t(2)] by blast
    then show thesis using t(1,5,6,7,8) u(1,2,4,5,6,7) q(2) same_but_cache_trans [OF t(8) u(8)] by (intro that [of i t j u]) simp_all
  qed
qed

text \<open>The source \<open>a\<close> and the target \<open>b\<close> are read in either order.\<close>

lemma copy_two:
  assumes "quiet s D" "owned u a i" "owned u b j" "cache_ok u" "view u = view s" "dirty u = dirty s"
    "in_use u = (\<lambda>_. False)(a := True, b := True)" "same_but_cache s u" "a \<noteq> b" "b < disksize s"
  obtains x y z where "bwrite j (upd_buf j (\<lambda>bf. bf\<lparr>b_data := b_data (bufs u ! i)\<rparr>) u) = Some x" "brelse i x = Some y" "brelse j y = Some z"
    "quiet z (D - {b})" "wrote [(b, view s a)] s z"
proof -
  note su = same_but_cacheD [OF assms(8)]
  have "dirty u a \<or> view u a = disk u a"
    using quiet_view_clean [OF assms(1), of a] assms(1,5,6) su(1) by (cases "a \<in> D") (simp_all add: quiet_def)
  moreover have "b < disksize u" using assms(10) su(3) by simp
  ultimately obtain x y z where z: "bwrite j (upd_buf j (\<lambda>bf. bf\<lparr>b_data := b_data (bufs u ! i)\<rparr>) u) = Some x" "brelse i x = Some y" "brelse j y = Some z"
      "cache_ok z" "view z = (view u)(b := view u a)" "dirty z = (dirty u)(b := False)" "in_use z = (in_use u)(a := False, b := False)"
      "same_but_cache (u\<lparr>disk := (disk u)(b := view u a), disk_writes := disk_writes u @ [(b, view u a)]\<rparr>) z"
    by - (rule copy_block [OF assms(4,2,3,9)])
  have "in_use z = (\<lambda>_. False)" "dirty z = (\<lambda>c. c \<in> D - {b})" using z(6,7) assms(1,6,7) by (auto simp: quiet_def fun_eq_iff)
  moreover have "card (D - {b}) \<le> 29" using assms(1) card_Diff1_le [of D b] by (auto simp: quiet_def)
  ultimately have "quiet z (D - {b})" using z(4) assms(1) by (simp add: quiet_def)
  moreover have "wrote [(b, view s a)] s z"
    using z(5,8) same_but_cache_trans [OF same_but_cache_disk [where d = "(disk u)(b := view u a)" and w = "disk_writes u @ [(b, view u a)]", OF assms(8)]]
      assms(5) su(1,2) by (simp add: wrote_def)
  ultimately show thesis using that z(1-3) by blast
qed

text \<open>The log is at \<open>start\<close> and its header in memory lists the blocks \<open>bl\<close>.\<close>

definition log_at :: "'a fsys_scheme \<Rightarrow> u32 \<Rightarrow> u32 list \<Rightarrow> bool" where
  "log_at s start bl \<longleftrightarrow> log_dev (logs s) = 1 \<and> log_start (logs s) = start \<and> lh_n (logs s) = int (length bl)
     \<and> length bl \<le> length (lh_block (logs s)) \<and> take (length bl) (lh_block (logs s)) = bl"

text \<open>Every block of the log and of \<open>bl\<close> is on the disk, and they are different.\<close>

definition layout :: "'a fsys_scheme \<Rightarrow> u32 \<Rightarrow> u32 list \<Rightarrow> bool" where
  "layout s start bl \<longleftrightarrow> unat start + 30 < unat (disksize s) \<and> length bl \<le> 30 \<and> distinct bl \<and> set bl \<inter> log_area start = {}
     \<and> (\<forall>b \<in> set bl. b < disksize s)"

lemma log_at_nth: "log_at s start bl \<Longrightarrow> t < length bl \<Longrightarrow> lh_nth t s = Some (bl ! t)"
  unfolding log_at_def lh_nth_def by (metis less_le_trans nth_take)

lemma log_at_cong: "log_at s start bl \<Longrightarrow> logs t = logs s \<Longrightarrow> log_at t start bl"
  by (simp add: log_at_def)

lemma layout_cong: "layout s start bl \<Longrightarrow> disksize t = disksize s \<Longrightarrow> layout t start bl"
  by (simp add: layout_def)

lemma layoutD:
  assumes "layout s start bl"
  shows "start < disksize s" "t < 30 \<Longrightarrow> log_slot start t < disksize s" "t < length bl \<Longrightarrow> bl ! t < disksize s"
    "t < length bl \<Longrightarrow> bl ! t \<noteq> start" "t < length bl \<Longrightarrow> u < 30 \<Longrightarrow> bl ! t \<noteq> log_slot start u" "unat start + 30 < 2 ^ 32" "length bl \<le> 30" "distinct bl"
proof -
  have l: "unat start + 30 < unat (disksize s)" using assms by (simp add: layout_def)
  moreover have "unat (disksize s) < 2 ^ 32" using unsigned_less [of "disksize s"] by simp
  ultimately show big: "unat start + 30 < 2 ^ 32" by linarith
  show "start < disksize s" using l by (simp add: word_less_nat_alt)
  show "log_slot start t < disksize s" if "t < 30" using l log_slot_unat [OF big that] that by (simp add: word_less_nat_alt)
  show "t < length bl \<Longrightarrow> bl ! t < disksize s" using assms by (simp add: layout_def)
  show "bl ! t \<noteq> start" if "t < length bl" using assms nth_mem [OF that] by (auto simp: layout_def log_area_def)
  show "bl ! t \<noteq> log_slot start u" if "t < length bl" "u < 30" using assms nth_mem [OF that(1)] that(2) by (auto simp: layout_def log_area_def)
qed (use assms in \<open>simp_all add: layout_def\<close>)

lemma write_log_block_ok:
  assumes "quiet s (set bl)" "log_at s start bl" "layout s start bl" "t < length bl"
  obtains u where "write_log_block t s = Some u" "quiet u (set bl)" "wrote [(log_slot start t, view s (bl ! t))] s u"
proof -
  let ?a = "bl ! t" and ?b = "log_slot start t"
  note l = layoutD [OF assms(3)]
  have t30: "t < 30" using assms(4) l(7) by simp
  have ab: "?b \<noteq> ?a" "?a \<noteq> ?b" using l(5) [OF assms(4) t30] by auto
  have D: "?a \<in> set bl \<or> set bl = {}" using assms(4) by simp
  obtain j x i y where r: "bread 1 ?b s = Some (j, x)" "bread 1 ?a x = Some (i, y)" "owned y ?b j" "owned y ?a i" "cache_ok y" "view y = view s"
      "dirty y = dirty s" "in_use y = (\<lambda>_. False)(?b := True, ?a := True)" "same_but_cache s x" "same_but_cache s y"
    by (rule read_two [OF assms(1) ab(1) l(2) [OF t30] l(3) [OF assms(4)] D])
  have iu: "in_use y = (\<lambda>_. False)(?a := True, ?b := True)" using r(8) by (simp add: fun_upd_twist [OF ab(1)])
  obtain p q z where z: "bwrite j (upd_buf j (\<lambda>bf. bf\<lparr>b_data := b_data (bufs y ! i)\<rparr>) y) = Some p" "brelse i p = Some q" "brelse j q = Some z"
      "quiet z (set bl - {?b})" "wrote [(?b, view s ?a)] s z"
    by (rule copy_two [OF assms(1) r(4,3,5,6,7) iu r(10) ab(2) l(2) [OF t30]])
  have "?b \<notin> set bl" using assms(3) t30 by (auto simp: layout_def log_area_def)
  then have "set bl - {?b} = set bl" by simp
  moreover have lx: "logs x = logs s" by (rule same_but_cacheD(6) [OF r(9)])
  have "write_log_block t s = Some z"
    using r(1,2) z(1-3) assms(2) lx log_at_nth [OF log_at_cong [OF assms(2) lx] assms(4)]
    by (simp add: write_log_block_def log_at_def log_slot_def)
  ultimately show thesis using that z(4,5) by simp
qed

lemma install_block_ok:
  assumes "quiet s D" "log_at s start bl" "layout s start bl" "t < length bl" "bl ! t \<in> D \<or> D = {}"
  obtains u where "install_block t s = Some u" "quiet u (D - {bl ! t})" "wrote [(bl ! t, view s (log_slot start t))] s u"
proof -
  let ?b = "bl ! t" and ?a = "log_slot start t"
  note l = layoutD [OF assms(3)]
  have t30: "t < 30" using assms(4) l(7) by simp
  have ab: "?a \<noteq> ?b" using l(5) [OF assms(4) t30] by auto
  obtain i x j y where r: "bread 1 ?a s = Some (i, x)" "bread 1 ?b x = Some (j, y)" "owned y ?a i" "owned y ?b j" "cache_ok y" "view y = view s"
      "dirty y = dirty s" "in_use y = (\<lambda>_. False)(?a := True, ?b := True)" "same_but_cache s x" "same_but_cache s y"
    by (rule read_two [OF assms(1) ab l(2) [OF t30] l(3) [OF assms(4)] assms(5)])
  obtain p q z where z: "bwrite j (upd_buf j (\<lambda>bf. bf\<lparr>b_data := b_data (bufs y ! i)\<rparr>) y) = Some p" "brelse i p = Some q" "brelse j q = Some z"
      "quiet z (D - {?b})" "wrote [(?b, view s ?a)] s z"
    by (rule copy_two [OF assms(1) r(3,4,5,6,7,8,10) ab l(3) [OF assms(4)]])
  have lx: "logs x = logs s" by (rule same_but_cacheD(6) [OF r(9)])
  have "install_block t s = Some z"
    using r(1,2) z(1-3) assms(2) lx log_at_nth [OF log_at_cong [OF assms(2) lx] assms(4)]
    by (simp add: install_block_def log_at_def log_slot_def)
  then show thesis using that z(4,5) by simp
qed

lemma encode_head_eq: "log_at s start bl \<Longrightarrow> encode_head (logs s) d = enc_head bl d"
proof -
  assume a: "log_at s start bl"
  have "fold (\<lambda>i d. put d (4 + 4 * i) (bytes32 (lh_block (logs s) ! i))) [0..<length bl] e
      = fold (\<lambda>i d. put d (4 + 4 * i) (bytes32 (bl ! i))) [0..<length bl] e" for e
  proof (rule fold_cong)
    fix i assume "i \<in> set [0..<length bl]"
    then have "lh_block (logs s) ! i = bl ! i" using a unfolding log_at_def by (metis atLeastLessThan_iff nth_take set_upt)
    then show "(\<lambda>d. put d (4 + 4 * i) (bytes32 (lh_block (logs s) ! i))) = (\<lambda>d. put d (4 + 4 * i) (bytes32 (bl ! i)))" by simp
  qed simp_all
  then show ?thesis using a by (simp add: encode_head_def enc_head_def log_at_def)
qed

lemma write_head_ok:
  assumes "quiet s D" "log_at s start bl" "layout s start bl'" "start \<notin> D"
  obtains u where "write_head s = Some u" "quiet u D" "wrote [(start, enc_head bl (view s start))] s u"
proof -
  have q: "cache_ok s" "in_use s = (\<lambda>_. False)" "dirty s = (\<lambda>b. b \<in> D)" "finite D" "card D \<le> 29" using assms(1) by (simp_all add: quiet_def)
  have av: "avail s start" by (rule avail_card [OF q(1)]) (use q layoutD(1) [OF assms(3)] in simp_all)
  have len: "length (enc_head bl d) = 512" if "length d = 512" for d using that hd_log.length_enc by simp
  obtain i t u v where v: "bread 1 start s = Some (i, t)" "b_data (bufs t ! i) = view s start" "same_but_cache s t"
    "bwrite i (upd_buf i (\<lambda>bf. bf\<lparr>b_data := enc_head bl (b_data bf)\<rparr>) t) = Some u" "brelse i u = Some v"
    "cache_ok v" "view v = (view s)(start := enc_head bl (view s start))" "dirty v = (dirty s)(start := False)" "in_use v = in_use s"
    "same_but_cache (s\<lparr>disk := (disk s)(start := enc_head bl (view s start)), disk_writes := disk_writes s @ [(start, enc_head bl (view s start))]\<rparr>) v"
    by (rule write_block [OF q(1) av len])
  have lt: "logs t = logs s" by (rule same_but_cacheD(6) [OF v(3)])
  have "write_head s = Some v"
    using v(1,4,5) encode_head_eq [OF assms(2)] assms(2) by (simp add: write_head_def log_at_def lt)
  moreover have "quiet v D" using v(6,8,9) q assms(4) by (auto simp: quiet_def fun_eq_iff)
  moreover have "wrote [(start, enc_head bl (view s start))] s v" using v(7,10) by (simp add: wrote_def)
  ultimately show thesis by (rule that)
qed

section \<open>Commit\<close>

lemma write_log_ok:
  assumes "quiet s (set bl)" "log_at s start bl" "layout s start bl"
  obtains u where "write_log s = Some u" "quiet u (set bl)" "wrote (writes (log_slot start) (\<lambda>t. view s (bl ! t)) (length bl)) s u"
proof -
  have "m \<le> length bl \<Longrightarrow> \<exists>u. for_each write_log_block [0..<m] s = Some u \<and> quiet u (set bl)
      \<and> wrote (writes (log_slot start) (\<lambda>t. view s (bl ! t)) m) s u" for m
  proof (induction m)
    case 0
    then show ?case using assms(1) wrote_nil by (simp add: writes_def)
  next
    case (Suc m)
    let ?w = "writes (log_slot start) (\<lambda>t. view s (bl ! t)) m"
    obtain u where u: "for_each write_log_block [0..<m] s = Some u" "quiet u (set bl)" "wrote ?w s u" using Suc by auto
    note w = wroteD [OF u(3)]
    have m: "m < length bl" using Suc.prems by simp
    obtain v where v: "write_log_block m u = Some v" "quiet v (set bl)" "wrote [(log_slot start m, view u (bl ! m))] u v"
      by (rule write_log_block_ok [OF u(2) log_at_cong [OF assms(2) w(4)] layout_cong [OF assms(3) w(5)] m])
    have "bl ! m \<notin> fst ` set ?w" using layoutD(5,7) [OF assms(3)] m by auto
    then have "view u (bl ! m) = view s (bl ! m)" using w(1) by (simp add: write_all_other)
    then have "wrote (writes (log_slot start) (\<lambda>t. view s (bl ! t)) (Suc m)) s v" using wrote_trans [OF u(3) v(3)] by (simp add: writes_Suc)
    then show ?case using u(1) v by (auto simp: for_each_append)
  qed
  from this [of "length bl"] that show thesis using assms(2) by (auto simp: write_log_def log_at_def)
qed

lemma install_trans_ok:
  assumes "quiet s D" "log_at s start bl" "layout s start bl" "D = set bl \<or> D = {}"
  obtains u where "install_trans s = Some u" "quiet u {}" "wrote (writes ((!) bl) (\<lambda>t. view s (log_slot start t)) (length bl)) s u"
proof -
  have "m \<le> length bl \<Longrightarrow> \<exists>u. for_each install_block [0..<m] s = Some u \<and> quiet u (D - set (take m bl))
      \<and> wrote (writes ((!) bl) (\<lambda>t. view s (log_slot start t)) m) s u" for m
  proof (induction m)
    case 0
    then show ?case using assms(1) wrote_nil by (simp add: writes_def)
  next
    case (Suc m)
    let ?w = "writes ((!) bl) (\<lambda>t. view s (log_slot start t)) m" and ?D = "D - set (take m bl)"
    obtain u where u: "for_each install_block [0..<m] s = Some u" "quiet u ?D" "wrote ?w s u" using Suc by auto
    note w = wroteD [OF u(3)]
    have m: "m < length bl" using Suc.prems by simp
    have "bl ! m \<notin> set (take m bl)" using m layoutD(8) [OF assms(3)] by (auto simp: in_set_conv_nth nth_eq_iff_index_eq)
    then have D: "bl ! m \<in> ?D \<or> ?D = {}" using assms(4) m by auto
    obtain v where v: "install_block m u = Some v" "quiet v (?D - {bl ! m})" "wrote [(bl ! m, view u (log_slot start m))] u v"
      by (rule install_block_ok [OF u(2) log_at_cong [OF assms(2) w(4)] layout_cong [OF assms(3) w(5)] m D])
    have "log_slot start m \<notin> fst ` set ?w"
      using m layoutD(7) [OF assms(3)] assms(3) by (intro writes_nth) (auto simp: layout_def log_area_def)
    then have "view u (log_slot start m) = view s (log_slot start m)" using w(1) by (simp add: write_all_other)
    then have "wrote (writes ((!) bl) (\<lambda>t. view s (log_slot start t)) (Suc m)) s v" using wrote_trans [OF u(3) v(3)] by (simp add: writes_Suc)
    moreover have "?D - {bl ! m} = D - set (take (Suc m) bl)" using m by (auto simp: take_Suc_conv_app_nth)
    ultimately show ?case using u(1) v by (auto simp: for_each_append)
  qed
  moreover have "D - set (take (length bl) bl) = {}" using assms(4) by auto
  ultimately obtain u where "for_each install_block [0..<length bl] s = Some u" "quiet u {}"
      "wrote (writes ((!) bl) (\<lambda>t. view s (log_slot start t)) (length bl)) s u"
    by (metis order_refl)
  then show thesis using that assms(2) by (auto simp: install_trans_def log_at_def)
qed

lemma upd_log_quiet [simp]: "quiet (upd_log f s) D = quiet s D" "view (upd_log f s) = view s" "disk (upd_log f s) = disk s"
    "disk_writes (upd_log f s) = disk_writes s" "disksize (upd_log f s) = disksize s" "logs (upd_log f s) = f (logs s)" "sb (upd_log f s) = sb s"
    "icache (upd_log f s) = icache s" "fs_pid (upd_log f s) = fs_pid s"
proof -
  have b: "bufs (upd_log f s) = bufs s" "disk (upd_log f s) = disk s" "bnext (upd_log f s) = bnext s" "bprev (upd_log f s) = bprev s"
    by (simp_all add: upd_log_def)
  note c = contents_cong [OF b(1,2)]
  show "quiet (upd_log f s) D = quiet s D" unfolding quiet_def cache_ok_def c mru_def b ..
  show "view (upd_log f s) = view s" by (rule c)
qed (simp_all add: upd_log_def)

lemma commit_ok:
  assumes "quiet s (set bl)" "log_at s start bl" "layout s start bl" "bl \<noteq> []"
  obtains u where "commit s = Some u" "quiet u {}" "disk_writes u = disk_writes s @ commit_writes enc_head start bl (view s) (view s start)"
    "disk u = write_all (commit_writes enc_head start bl (view s) (view s start)) (disk s)" "logs u = (logs s)\<lparr>lh_n := 0\<rparr>"
    "disksize u = disksize s" "icache u = icache s" "sb u = sb s"
proof -
  note l = layoutD [OF assms(3)]
  let ?h = "view s start"
  let ?L = "writes (log_slot start) (\<lambda>t. view s (bl ! t)) (length bl)" and ?I = "writes ((!) bl) (\<lambda>t. view s (bl ! t)) (length bl)"
  have sD: "start \<notin> set bl" using assms(3) by (auto simp: layout_def log_area_def)
  obtain a where a: "write_log s = Some a" "quiet a (set bl)" "wrote ?L s a" by (rule write_log_ok [OF assms(1-3)])
  note wa = wroteD [OF a(3)]
  have "start \<notin> fst ` set ?L" using log_slot_start [OF l(6)] l(7) unfolding fst_writes by (metis imageE lessThan_iff less_le_trans)
  then have va: "view a start = ?h" using wa(1) by (simp add: write_all_other)
  obtain b where b: "write_head a = Some b" "quiet b (set bl)" "wrote [(start, enc_head bl ?h)] a b"
    using write_head_ok [OF a(2) log_at_cong [OF assms(2) wa(4)] layout_cong [OF assms(3) wa(5)] sD] va by metis
  note wb = wroteD [OF b(3)]
  have slot: "view b (log_slot start t) = view s (bl ! t)" if "t < length bl" for t
    using write_all_writes [OF log_slot_inj [OF l(6,7)] that, of "\<lambda>t. view s (bl ! t)" "view s"] log_slot_start [OF l(6), of t] that l(7) wa(1) wb(1) by simp
  have lb: "logs b = logs s" "disksize b = disksize s" using wa(4,5) wb(4,5) by simp_all
  obtain c where c: "install_trans b = Some c" "quiet c {}" "wrote (writes ((!) bl) (\<lambda>t. view b (log_slot start t)) (length bl)) b c"
    using install_trans_ok [OF b(2) log_at_cong [OF assms(2) lb(1)] layout_cong [OF assms(3) lb(2)]] by metis
  have "writes ((!) bl) (\<lambda>t. view b (log_slot start t)) (length bl) = ?I" by (rule writes_cong) (rule slot)
  then have c3: "wrote ?I b c" using c(3) by simp
  note wc = wroteD [OF c3]
  have "start \<notin> fst ` set ?I" by (rule writes_nth) (use sD in simp_all)
  then have vc: "view c start = enc_head bl ?h" using wb(1) wc(1) by (simp add: write_all_other)
  let ?c = "upd_log (\<lambda>l. l\<lparr>lh_n := 0\<rparr>) c"
  have at0: "log_at ?c start []" using assms(2) lb(1) wc(4) by (simp add: log_at_def)
  have lay: "layout ?c start bl" using layout_cong [OF assms(3), of ?c] lb(2) wc(5) by simp
  have q: "quiet ?c {}" using c(2) by simp
  obtain u where u: "write_head ?c = Some u" "quiet u {}" "wrote [(start, enc_head [] (enc_head bl ?h))] ?c u"
    using write_head_ok [OF q at0 lay] vc by auto
  note wu = wroteD [OF u(3)]
  have "commit s = Some u" using a(1) b(1) c(1) u(1) assms(2,4) by (simp add: commit_def log_at_def)
  moreover have "disk_writes u = disk_writes s @ commit_writes enc_head start bl (view s) ?h"
    using wa(3) wb(3) wc(3) wu(3) by (simp add: commit_writes_def)
  moreover have "disk u = write_all (commit_writes enc_head start bl (view s) ?h) (disk s)"
    using wa(2) wb(2) wc(2) wu(2) by (simp add: commit_writes_def)
  ultimately show thesis using u(2) wa wb wc wu lb by (intro that [of u]) simp_all
qed

section \<open>Recovery\<close>

lemma brelse_upd_log: "brelse b (upd_log f s) = map_option (upd_log f) (brelse b s)"
  by (simp add: brelse_def panic_def upd_log_def upd_buf_def wake_def link_first_def unlink_buf_def Let_def)

lemma decode_head_eq:
  assumes "m \<le> length l"
  shows "length (fold (\<lambda>i bl. bl[i := get32 d (4 + 4 * i)]) [0..<m] l) = length l
    \<and> take m (fold (\<lambda>i bl. bl[i := get32 d (4 + 4 * i)]) [0..<m] l) = map (\<lambda>i. get32 d (4 + 4 * i)) [0..<m]"
  using assms by (induction m) (simp_all add: take_Suc_conv_app_nth)

lemma read_head_ok:
  assumes "quiet s D" "log_dev (logs s) = 1" "log_start (logs s) = start" "length (lh_block (logs s)) = 30" "start < disksize s"
    "dec_head (view s start) = bl" "sint (get32 (view s start) 0) = int (length bl)" "length bl \<le> 30"
  obtains u where "read_head s = Some u" "quiet u D" "log_at u start bl" "view u = view s" "disk u = disk s" "disk_writes u = disk_writes s"
    "disksize u = disksize s" "icache u = icache s" "sb u = sb s" "length (lh_block (logs u)) = 30"
proof -
  have q: "cache_ok s" "in_use s = (\<lambda>_. False)" "dirty s = (\<lambda>b. b \<in> D)" "finite D" "card D \<le> 29" using assms(1) by (simp_all add: quiet_def)
  have av: "avail s start" by (rule avail_card [OF q(1)]) (use q assms(5) in simp_all)
  let ?d = "view s start" and ?b = "lh_block (logs s)"
  obtain i t u where u: "bread 1 start s = Some (i, t)" "b_data (bufs t ! i) = ?d" "brelse i t = Some u"
    "cache_ok u" "view u = view s" "dirty u = dirty s" "in_use u = in_use s" "same_but_cache s t" "same_but_cache s u"
    by (rule read_block [OF q(1) av])
  note su = same_but_cacheD [OF u(9)]
  have lt: "logs t = logs s" by (rule same_but_cacheD(6) [OF u(8)])
  let ?f = "\<lambda>l. l\<lparr>lh_n := sint (get32 ?d 0), lh_block := decode_head ?d (lh_block l)\<rparr>"
  have r: "read_head s = Some (upd_log ?f u)"
    using u(1-3) assms(2-4,7,8) lt by (simp add: read_head_def brelse_upd_log)
  have dh: "length (decode_head ?d ?b) = 30" "take (length bl) (decode_head ?d ?b) = bl"
    using decode_head_eq [of "length bl" ?b ?d] assms(4,6,7,8) by (simp_all add: decode_head_def dec_head_def)
  then have "log_at (upd_log ?f u) start bl" using assms(2,3,7,8) su(6) by (simp add: log_at_def)
  moreover have "quiet u D" using u(4,6,7) q by (simp add: quiet_def)
  ultimately show thesis using r u(5) su dh(1) by (intro that [of "upd_log ?f u"]) simp_all
qed

lemma recover_ok:
  assumes "quiet s {}" "log_dev (logs s) = 1" "log_start (logs s) = start" "length (lh_block (logs s)) = 30"
    "dec_head (disk s start) = bl" "sint (get32 (disk s start) 0) = int (length bl)" "layout s start bl"
  obtains u where "recover_from_log s = Some u" "quiet u {}" "disk u = recovered enc_head dec_head start (disk s)" "lh_n (logs u) = 0"
    "icache u = icache s" "sb u = sb s"
proof -
  note l = layoutD [OF assms(7)]
  have v: "view s = disk s" using quiet_view_clean [OF assms(1)] by auto
  have dec: "dec_head (view s start) = bl" "sint (get32 (view s start) 0) = int (length bl)" using assms(5,6) v by simp_all
  obtain a where a: "read_head s = Some a" "quiet a {}" "log_at a start bl" "view a = view s" "disk a = disk s" "disk_writes a = disk_writes s"
    "disksize a = disksize s" "icache a = icache s" "sb a = sb s" "length (lh_block (logs a)) = 30"
    by (rule read_head_ok [OF assms(1-4) l(1) dec l(7)])
  let ?I = "writes ((!) bl) (\<lambda>t. disk s (log_slot start t)) (length bl)"
  obtain b where b: "install_trans a = Some b" "quiet b {}" "wrote ?I a b"
    using install_trans_ok [OF a(2,3) layout_cong [OF assms(7) a(7)]] a(4) v by metis
  note wb = wroteD [OF b(3)]
  let ?b = "upd_log (\<lambda>l. l\<lparr>lh_n := 0\<rparr>) b"
  have "start \<notin> set bl" using assms(7) by (auto simp: layout_def log_area_def)
  then have "start \<notin> fst ` set ?I" by (intro writes_nth) simp_all
  then have vb: "view b start = disk s start" using wb(1) a(4) v by (simp add: write_all_other)
  have at0: "log_at ?b start []" using a(3) wb(4) by (simp add: log_at_def)
  have lay: "layout ?b start bl" using layout_cong [OF assms(7), of ?b] a(7) wb(5) by simp
  have q: "quiet ?b {}" using b(2) by simp
  obtain u where u: "write_head ?b = Some u" "quiet u {}" "wrote [(start, enc_head [] (disk s start))] ?b u"
    using write_head_ok [OF q at0 lay] vb by auto
  note wu = wroteD [OF u(3)]
  have "recover_from_log s = Some u" using a(1) b(1) u(1) by (simp add: recover_from_log_def)
  moreover have "disk u = recovered enc_head dec_head start (disk s)"
    using wu(2) wb(2) a(5) assms(5) by (simp add: recovered_def recover_writes_def)
  ultimately show thesis using u(2) wu wb a(8,9) by (intro that [of u]) simp_all
qed

lemma booted_quiet: "booted s \<Longrightarrow> (\<And>b. length (disk s b) = 512) \<Longrightarrow> quiet s {}"
  using booted_cache [of s] by (simp add: quiet_def)

section \<open>Crash safety\<close>

lemma initlog_ok:
  assumes "quiet s {}" "length (lh_block (logs s)) = 30" "sb_logstart (decode_sb (disk s 1)) = start" "1 < disksize s"
    "dec_head (disk s start) = bl" "sint (get32 (disk s start) 0) = int (length bl)" "layout s start bl"
  obtains u where "initlog 1 s = Some u" "quiet u {}" "disk u = recovered enc_head dec_head start (disk s)" "lh_n (logs u) = 0"
proof -
  have q: "cache_ok s" "in_use s = (\<lambda>_. False)" "dirty s = (\<lambda>b. b \<in> {})" using assms(1) by (simp_all add: quiet_def)
  have av: "avail s 1" by (rule avail_card [OF q(1)]) (use q assms(4) in simp_all)
  have v: "view s 1 = disk s 1" using quiet_view_clean [OF assms(1)] by simp
  obtain i t u where u: "bread 1 1 s = Some (i, t)" "b_data (bufs t ! i) = view s 1" "brelse i t = Some u"
    "cache_ok u" "view u = view s" "dirty u = dirty s" "in_use u = in_use s" "same_but_cache s t" "same_but_cache s u"
    by (rule read_block [OF q(1) av])
  note su = same_but_cacheD [OF u(9)]
  let ?r = "decode_sb (disk s 1)"
  let ?u = "upd_log (\<lambda>l. l\<lparr>log_start := sb_logstart ?r, log_size := sint (sb_nlog ?r), log_dev := 1\<rparr>) u"
  have "quiet u {}" using u(4,6,7) q by (simp add: quiet_def)
  then have qu: "quiet ?u {}" by simp
  have f: "log_dev (logs ?u) = 1" "log_start (logs ?u) = start" "length (lh_block (logs ?u)) = 30" "dec_head (disk ?u start) = bl"
    "sint (get32 (disk ?u start) 0) = int (length bl)" using assms su by simp_all
  have lay: "layout ?u start bl" using layout_cong [OF assms(7), of ?u] su(3) by simp
  obtain z where z: "recover_from_log ?u = Some z" "quiet z {}" "disk z = recovered enc_head dec_head start (disk ?u)" "lh_n (logs z) = 0"
    "icache z = icache ?u" "sb z = sb ?u" by (rule recover_ok [OF qu f lay])
  have "initlog 1 s = Some z" using u(1-3) v z(1) by (simp add: initlog_def readsb_def)
  then show thesis using that z(2-4) su(1) by simp
qed

lemma commit_writes_length:
  assumes "\<And>b. length (v b) = 512" "\<And>b. length (d b) = 512"
  shows "length (write_all (take k (commit_writes enc_head start bl v (d start))) d b) = 512"
proof -
  let ?w = "commit_writes enc_head start bl v (d start)"
  have "length x = 512" if "(c, x) \<in> set ?w" for c x
    using that assms hd_log.length_enc by (auto simp: commit_writes_def writes_def)
  then show ?thesis using write_all_last [of "take k ?w" d b] assms(2) by (metis in_set_takeD)
qed

lemma reboot_ok:
  assumes lay: "layout s start bl" and len: "\<And>b. length (disk s b) = 512" "\<And>b. length (v b) = 512"
    and sb: "get32 (disk s start) 0 = 0" "sb_logstart (decode_sb (disk s 1)) = start"
    and one_ok: "1 < disksize s" "1 \<notin> set bl" "1 \<notin> log_area start"
    and r: "booted r" "disk r = write_all (take k (commit_writes enc_head start bl v (disk s start))) (disk s)" "disksize r = disksize s" "length (lh_block (logs r)) = 30"
  shows "\<exists>r'. initlog 1 r = Some r' \<and> disk r' = recovered enc_head dec_head start (disk r)"
proof -
  note l = layoutD [OF lay]
  have sD: "start \<notin> set bl" using lay by (auto simp: layout_def log_area_def)
  have dec0: "dec_head (disk s start) = []" using sb(1) by (simp add: dec_head_def)
  have one: "disk r 1 = disk s 1" using commit_writes_other [OF l(7) one_ok(2,3)] r(2) by simp
  have q: "quiet r {}" by (rule booted_quiet [OF r(1)], unfold r(2), rule commit_writes_length [where d = "disk s", OF len(2,1)])
  have "disk r start \<in> {disk s start, enc_head bl (disk s start), enc_head [] (enc_head bl (disk s start))}"
    using header_after [OF l(7) sD l(6), of k enc_head v "disk s start" "disk s"] r(2) by simp
  then obtain bl' where h: "dec_head (disk r start) = bl'" "sint (get32 (disk r start) 0) = int (length bl')" "bl' = [] \<or> bl' = bl"
    using dec0 sb(1) enc_head_props [OF l(7) len(1)] enc_head_props [of "[]"] by fastforce
  have lay': "layout r start bl'" using lay h(3) r(3) by (auto simp: layout_def)
  show ?thesis using initlog_ok [OF q r(4) _ _ h(1,2) lay'] one sb(2) one_ok(1) r(3) by metis
qed


section \<open>Building a transaction\<close>

lemma absorb_eq: "absorb xs b i = i + (if b \<in> set xs then length (takeWhile (\<lambda>x. x \<noteq> b) xs) else length xs)"
  by (induction xs arbitrary: i) auto

lemma absorb_hit: "b \<in> set xs \<Longrightarrow> absorb xs b 0 < length xs \<and> xs ! absorb xs b 0 = b"
  unfolding absorb_eq by (induction xs) auto

lemma absorb_miss: "b \<notin> set xs \<Longrightarrow> absorb xs b 0 = length xs"
  by (simp add: absorb_eq)

lemma log_write_ok:
  assumes "cache_ok s" "owned s b i" "log_at s start bl" "length bl < 29" "log_size (logs s) = 30" "length (lh_block (logs s)) = 30"
    "1 \<le> log_outstanding (logs s)"
  obtains t where "log_write i s = Some t" "cache_ok t" "view t = view s" "dirty t = (dirty s)(b := True)" "in_use t = in_use s" "owned t b i"
    "log_at t start (if b \<in> set bl then bl else bl @ [b])" "disk t = disk s" "disk_writes t = disk_writes s"
proof -
  note o = owned_fields [OF assms(2)] and len = cache_okD(1) [OF assms(1)]
  have bok: "buf_ok (disk s) (bufs s ! i)" using cache_okD(2) [OF assms(1)] o(1) by blast
  let ?n = "length bl" and ?i = "absorb bl b 0"
  have tk: "take ?n (lh_block (logs s)) = bl" and n: "lh_n (logs s) = int ?n" using assms(3) by (simp_all add: log_at_def)
  let ?f = "\<lambda>l. l\<lparr>lh_block := (lh_block l)[?i := b], lh_n := (if int ?i = lh_n l then lh_n l + 1 else lh_n l)\<rparr>"
  let ?bf = "(bufs s ! i)\<lparr>b_flags := 6\<rparr>"
  let ?t = "upd_buf i (\<lambda>bf. bf\<lparr>b_flags := b_flags bf OR B_DIRTY\<rparr>) (upd_log ?f s)"
  have w: "log_write i s = Some ?t" using assms(4,5,7) tk n o(3) by (simp add: log_write_def Let_def)
  have fl: "b_flags (bufs s ! i) OR 4 = 6" using bok o(4) by (auto simp: buf_ok_def)
  have bt: "bufs ?t = (bufs s)[i := ?bf]" "disk ?t = disk s" "bnext ?t = bnext s" "bprev ?t = bprev s"
    using fl by (simp_all add: upd_buf_def upd_log_def)
  have bf: "b_dev ?bf = 1" "b_blockno ?bf = b" "b_flags ?bf \<in> {2, 6}" "length (b_data ?bf) = 512" "b_refcnt ?bf = 1" "sl_locked (b_lock ?bf)"
    using o bok by (auto simp: buf_ok_def)
  note up = owned_upd [OF assms(1,2) bt bf]
  have "view ?t = view s" using up(2) view_held [OF assms(1) o(7,4)] by (simp add: fun_upd_idem)
  moreover have "owned ?t b i" using o len fl by (simp add: owned_def holds_def holdingsleep_def upd_log_def upd_buf_def)
  moreover have "log_at ?t start (if b \<in> set bl then bl else bl @ [b])"
  proof (cases "b \<in> set bl")
    case True
    note h = absorb_hit [OF True]
    have "take ?n ((lh_block (logs s))[?i := b]) = bl" using tk h by (simp add: take_update_swap list_update_same_conv)
    then show ?thesis using True h assms(3) n by (auto simp: log_at_def)
  next
    case False
    note h = absorb_miss [OF False]
    have "take (Suc ?n) ((lh_block (logs s))[?n := b]) = bl @ [b]" using tk assms(4,6) by (simp add: take_Suc_conv_app_nth)
    then show ?thesis using False h assms(3,4,6) n by (simp add: log_at_def)
  qed
  ultimately show thesis using w up(1,3,4) by (intro that [of ?t]) simp_all
qed

text \<open>
  C27: one write inside a transaction. Reading a block, changing it, passing it to \<open>log_write\<close> and releasing it succeeds, makes the
  new contents visible to later reads, leaves the disk alone, keeps the buffer pinned in the cache, and puts the block in the list of the
  header once, a second write of the same block being absorbed.
\<close>

theorem log_write_pins:
  assumes "quiet s (set bl)" "log_at s start bl" "length bl < 29" "log_size (logs s) = 30" "length (lh_block (logs s)) = 30"
    "1 \<le> log_outstanding (logs s)" "b < disksize s" "length v = 512"
  shows "\<exists>i t u w. bread 1 b s = Some (i, t) \<and> log_write i (upd_buf i (\<lambda>bf. bf\<lparr>b_data := v\<rparr>) t) = Some u \<and> brelse i u = Some w \<and>
    quiet w (insert b (set bl)) \<and> log_at w start (if b \<in> set bl then bl else bl @ [b]) \<and> view w = (view s)(b := v) \<and>
    disk w = disk s \<and> disk_writes w = disk_writes s"
proof -
  have q: "cache_ok s" "in_use s = (\<lambda>_. False)" "dirty s = (\<lambda>b. b \<in> set bl)" "card (set bl) \<le> 29" using assms(1) by (simp_all add: quiet_def)
  have av: "avail s b" by (rule avail_card [OF q(1)]) (use q assms(7) in simp_all)
  obtain i t where t: "bread 1 b s = Some (i, t)" "owned t b i" "b_data (bufs t ! i) = view s b" "cache_ok t" "view t = view s"
    "dirty t = dirty s" "in_use t = (in_use s)(b := True)" "same_but_cache s t" by (rule bread_avail [OF q(1) av])
  note o = owned_fields [OF t(2)] and st = same_but_cacheD [OF t(8)]
  let ?bf = "(bufs t ! i)\<lparr>b_data := v\<rparr>" and ?t = "upd_buf i (\<lambda>bf. bf\<lparr>b_data := v\<rparr>) t"
  have bok: "buf_ok (disk t) (bufs t ! i)" using cache_okD(2) [OF t(4)] o(1) by blast
  have bt: "bufs ?t = (bufs t)[i := ?bf]" "disk ?t = disk t" "bnext ?t = bnext t" "bprev ?t = bprev t" by (simp_all add: upd_buf_def)
  have bf: "b_dev ?bf = 1" "b_blockno ?bf = b" "b_flags ?bf \<in> {2, 6}" "length (b_data ?bf) = 512" "b_refcnt ?bf = 1" "sl_locked (b_lock ?bf)"
    using o bok assms(8) by (auto simp: buf_ok_def)
  note up = owned_upd [OF t(4,2) bt bf]
  have ow: "owned ?t b i" using o cache_okD(1) [OF t(4)] by (auto simp: owned_def holds_def holdingsleep_def)
  have lt: "logs ?t = logs s" using st(6) by simp
  obtain u where u: "log_write i ?t = Some u" "cache_ok u" "view u = view ?t" "dirty u = (dirty ?t)(b := True)" "in_use u = in_use ?t" "owned u b i"
    "log_at u start (if b \<in> set bl then bl else bl @ [b])" "disk u = disk ?t" "disk_writes u = disk_writes ?t"
    by (rule log_write_ok [OF up(1) ow log_at_cong [OF assms(2) lt] assms(3)]) (use assms(4-6) lt in simp_all)
  have "dirty u b \<or> view u b = disk u b" using u(4) by simp
  then obtain w where w: "brelse i u = Some w" "cache_ok w" "view w = view u" "dirty w = dirty u" "in_use w = (in_use u)(b := False)" "same_but_cache u w"
    by (rule brelse_spec [OF u(2,6)])
  have "card (insert b (set bl)) \<le> 29" using card_insert_le_m1 [of 29 "set bl" b] card_length [of bl] assms(3) by simp
  moreover have "in_use w = (\<lambda>_. False)" "dirty w = (\<lambda>c. c \<in> insert b (set bl))" using w(4,5) u(4,5) up(3,4) t(6,7) q(2,3) by (auto simp: fun_eq_iff)
  ultimately have "quiet w (insert b (set bl))" using w(2) by (simp add: quiet_def)
  moreover have "view w = (view s)(b := v)" using w(3) u(3) up(2) t(5) by simp
  moreover note sw = same_but_cacheD [OF w(6)]
  have "disk w = disk s" "disk_writes w = disk_writes s" "log_at w start (if b \<in> set bl then bl else bl @ [b])"
    using sw u(8,9) bt(2) st(1,2) log_at_cong [OF u(7) sw(6)] by simp_all
  ultimately show ?thesis using t(1) u(1) w(1) by blast
qed

section \<open>An example\<close>

lemma sample_boot_quiet: "quiet sample_boot {}"
  using sample_boot_cache by (simp add: quiet_def)

text \<open>The state in which a transaction has changed block 40.\<close>

definition sample_dirty :: fsys where
  "sample_dirty = upd_buf 0 (\<lambda>bf. bf\<lparr>b_flags := 6, b_dev := 1, b_blockno := 40, b_data := replicate 512 1\<rparr>)
     (upd_log (\<lambda>l. l\<lparr>lh_n := 1, lh_block := 40 # replicate 29 0\<rparr>) sample_boot)"

lemma sample_dirty_quiet: "quiet sample_dirty {40}"
proof -
  let ?bf = "(bufs sample_boot ! 0)\<lparr>b_flags := 6, b_dev := 1, b_blockno := 40, b_data := replicate 512 1\<rparr>"
  have c: "cache_ok sample_boot" "in_use sample_boot = (\<lambda>_. False)" "dirty sample_boot = (\<lambda>_. False)"
    using sample_boot_quiet by (simp_all add: quiet_def)
  have b0: "bufs sample_boot ! 0 = (bufs sample_raw ! 0)\<lparr>b_lock := initsleeplock ''buffer'' (b_lock (bufs sample_raw ! 0))\<rparr>"
    unfolding sample_boot_def by (rule binit_fields) (simp_all add: sample_raw_def)
  have bd: "bufs sample_dirty = (bufs sample_boot)[0 := ?bf]" "disk sample_dirty = disk sample_boot" "bnext sample_dirty = bnext sample_boot"
    "bprev sample_dirty = bprev sample_boot" by (simp_all add: sample_dirty_def upd_buf_def upd_log_def)
  have f: "sl_locked (b_lock ?bf) = False" "b_refcnt ?bf = 0" "b_flags (bufs sample_boot ! 0) = 0" using b0 by (simp_all add: sample_raw_def initsleeplock_def)
  have m: "\<exists>xs. mru sample_dirty xs \<and> set xs = {0..<30}" using c(1) bd by (auto simp: cache_ok_def mru_def)
  have bok: "buf_ok (disk sample_boot) ?bf" using f by (simp add: buf_ok_def)
  have u: "\<And>j. holds sample_boot (b_blockno ?bf) j \<Longrightarrow> j = 0" using sample_nothing by blast
  have sp: "holds sample_boot (b_blockno ?bf) 0 \<or> spare sample_boot 0" using f by (simp add: spare_def)
  have "cache_ok sample_dirty" by (rule cache_ok_upd [OF c(1) bd(1,2) m _ bok _ u]) simp_all
  moreover have "dirty sample_dirty = (\<lambda>b. b \<in> {40})" "in_use sample_dirty = (\<lambda>_. False)"
    using flags_upd [OF c(1) bd(1) _ _ u sp] c(2,3) f(1) by (auto simp: fun_eq_iff)
  ultimately show ?thesis by (simp add: quiet_def)
qed

lemma sample_dirty_fields: "disk sample_dirty = sample_disk" "disksize sample_dirty = 1000" "disk_writes sample_dirty = []"
    "logs sample_dirty = sample_log\<lparr>lh_n := 1, lh_block := 40 # replicate 29 0\<rparr>"
  using sample_boot_fields by (simp_all add: sample_dirty_def)

lemma zero_block_get: "get32 zero_block i = 0"
  by (simp add: get32_def get8_def zero_block_def)

lemma sample_log_area: "40 \<notin> log_area 2" "1 \<notin> log_area 2"
proof -
  have "unat (log_slot 2 t) = t + 3" if "t < 30" for t using log_slot_unat [of 2 t] that by simp
  then have "log_slot 2 t \<noteq> 40" "log_slot 2 t \<noteq> 1" if "t < 30" for t using that by force+
  then show "40 \<notin> log_area 2" "1 \<notin> log_area 2" by (auto simp: log_area_def)
qed

theorem log_write_pins_witness:
  "\<exists>i t u w. bread 1 40 sample_boot = Some (i, t) \<and> log_write i (upd_buf i (\<lambda>bf. bf\<lparr>b_data := replicate 512 1\<rparr>) t) = Some u \<and> brelse i u = Some w \<and>
    quiet w {40} \<and> log_at w 2 [40] \<and> view w 40 = replicate 512 1 \<and> disk w = sample_disk"
proof -
  have "quiet sample_boot (set [])" "log_at sample_boot 2 []"
    using sample_boot_quiet by (simp_all add: sample_boot_fields log_at_def sample_log_def)
  from log_write_pins [OF this, of 40 "replicate 512 1"] show ?thesis by (auto simp: sample_boot_fields sample_log_def)
qed


end
