(* ===== verification/Fs.thy ===== *)
theory Fs
  imports Log
begin

text \<open>
  The file system proper, \<open>fs.c\<close>: block allocator, inodes, file contents, directories and path names. Reads return
  the bytes they would store through the destination pointer and writes take the bytes of the source. A
  path is the list of its characters before the terminating zero; a path element is the list of its characters, at most
  \<open>DIRSIZ\<close>, with no zero. The device functions of the console, \<open>consoleread\<close> and \<open>consolewrite\<close> of
  \<open>console.c\<close>, are here because they lock and unlock the inode.
\<close>

section \<open>Blocks\<close>

definition bzero :: "u32 \<Rightarrow> u32 \<Rightarrow> 'a fsys_scheme \<Rightarrow> 'a fsys_scheme option" where
  "bzero dev bno s = do {
     (b, s) \<leftarrow> bread dev bno s;
     let s = upd_buf b (\<lambda>bf. bf\<lparr>b_data := replicate BSIZE 0\<rparr>) s;
     s \<leftarrow> log_write b s;
     brelse b s }"

definition BBLOCK :: "u32 \<Rightarrow> superblock \<Rightarrow> u32" where
  "BBLOCK b r = b div BPB + sb_bmapstart r"

definition bit_mask :: "nat \<Rightarrow> u8" where
  "bit_mask bi = push_bit (bi mod 8) 1"

definition bit_free :: "block \<Rightarrow> nat \<Rightarrow> bool" where
  "bit_free d bi \<longleftrightarrow> get8 d (bi div 8) AND bit_mask bi = 0"

definition set_bit_used :: "nat \<Rightarrow> block \<Rightarrow> block" where
  "set_bit_used bi d = d[bi div 8 := get8 d (bi div 8) OR bit_mask bi]"

definition set_bit_free :: "nat \<Rightarrow> block \<Rightarrow> block" where
  "set_bit_free bi d = d[bi div 8 := get8 d (bi div 8) AND NOT (bit_mask bi)]"

text \<open>The outer loop of \<open>balloc\<close>, over the first block numbers of the bitmap blocks.\<close>

fun balloc_loop :: "u32 \<Rightarrow> nat list \<Rightarrow> 'a fsys_scheme \<Rightarrow> (u32 \<times> 'a fsys_scheme) option" where
  "balloc_loop dev [] s = panic ''balloc: out of blocks''"
| "balloc_loop dev (b # bs) s = do {
     (bp, s) \<leftarrow> bread dev (BBLOCK (word_of_nat b) (sb s)) s;
     case find (bit_free (b_data (bufs s ! bp))) [0..<min 4096 (unat (sb_size (sb s)) - b)] of
       Some bi \<Rightarrow> do {
         s \<leftarrow> log_write bp (upd_buf bp (\<lambda>bf. bf\<lparr>b_data := set_bit_used bi (b_data bf)\<rparr>) s);
         s \<leftarrow> brelse bp s;
         s \<leftarrow> bzero dev (word_of_nat (b + bi)) s;
         Some (word_of_nat (b + bi), s) }
     | None \<Rightarrow> do { s \<leftarrow> brelse bp s; balloc_loop dev bs s } }"

definition balloc :: "u32 \<Rightarrow> 'a fsys_scheme \<Rightarrow> (u32 \<times> 'a fsys_scheme) option" where
  "balloc dev s = balloc_loop dev (map (\<lambda>k. 4096 * k) [0..<(unat (sb_size (sb s)) + 4095) div 4096]) s"

definition bfree :: "u32 \<Rightarrow> u32 \<Rightarrow> 'a fsys_scheme \<Rightarrow> 'a fsys_scheme option" where
  "bfree dev b s = do {
     (bp, s) \<leftarrow> bread dev (BBLOCK b (sb s)) s;
     let bi = unat (b mod BPB);
     if bit_free (b_data (bufs s ! bp)) bi then panic ''freeing free block''
     else do {
       s \<leftarrow> log_write bp (upd_buf bp (\<lambda>bf. bf\<lparr>b_data := set_bit_free bi (b_data bf)\<rparr>) s);
       brelse bp s } }"

section \<open>Inodes\<close>

definition IBLOCK :: "u32 \<Rightarrow> superblock \<Rightarrow> u32" where
  "IBLOCK i r = i div IPB + sb_inodestart r"

definition inode_off :: "u32 \<Rightarrow> nat" where
  "inode_off inum = 64 * unat (inum mod IPB)"

definition decode_dinode :: "block \<Rightarrow> nat \<Rightarrow> dinode" where
  "decode_dinode d off = \<lparr>di_type = get16 d off, di_major = get16 d (off + 2), di_minor = get16 d (off + 4),
     di_nlink = get16 d (off + 6), di_size = get32 d (off + 8),
     di_addrs = map (\<lambda>k. get32 d (off + 12 + 4 * k)) [0..<NDIRECT + 1]\<rparr>"

definition dinode_bytes :: "dinode \<Rightarrow> u8 list" where
  "dinode_bytes di = bytes16 (di_type di) @ bytes16 (di_major di) @ bytes16 (di_minor di) @ bytes16 (di_nlink di)
     @ bytes32 (di_size di) @ concat (map bytes32 (di_addrs di))"

definition iinit :: "u32 \<Rightarrow> 'a fsys_scheme \<Rightarrow> 'a fsys_scheme option" where
  "iinit dev s = do {
     let s = s\<lparr>icache := map (\<lambda>ip. ip\<lparr>i_lock := initsleeplock ''inode'' (i_lock ip)\<rparr>) (icache s)\<rparr>;
     (r, s) \<leftarrow> readsb dev s;
     Some (s\<lparr>sb := r\<rparr>) }"

fun iget_cached :: "inode list \<Rightarrow> u32 \<Rightarrow> u32 \<Rightarrow> nat \<Rightarrow> nat option" where
  "iget_cached [] dev inum k = None"
| "iget_cached (ip # ips) dev inum k =
     (if 0 < i_ref ip \<and> i_dev ip = dev \<and> i_inum ip = inum then Some k else iget_cached ips dev inum (Suc k))"

fun iget_empty :: "inode list \<Rightarrow> nat \<Rightarrow> nat option" where
  "iget_empty [] k = None"
| "iget_empty (ip # ips) k = (if i_ref ip = 0 then Some k else iget_empty ips (Suc k))"

definition iget :: "u32 \<Rightarrow> u32 \<Rightarrow> 'a fsys_scheme \<Rightarrow> (nat \<times> 'a fsys_scheme) option" where
  "iget dev inum s =
     (case iget_cached (icache s) dev inum 0 of
        Some i \<Rightarrow> Some (i, upd_inode i (\<lambda>ip. ip\<lparr>i_ref := i_ref ip + 1\<rparr>) s)
      | None \<Rightarrow>
          (case iget_empty (icache s) 0 of
             None \<Rightarrow> panic ''iget: no inodes''
           | Some i \<Rightarrow> Some (i, upd_inode i (\<lambda>ip. ip\<lparr>i_dev := dev, i_inum := inum, i_ref := 1, i_valid := False\<rparr>) s)))"

fun ialloc_loop :: "u32 \<Rightarrow> u16 \<Rightarrow> nat list \<Rightarrow> 'a fsys_scheme \<Rightarrow> (nat \<times> 'a fsys_scheme) option" where
  "ialloc_loop dev type [] s = panic ''ialloc: no inodes''"
| "ialloc_loop dev type (n # ns) s = do {
     let inum = word_of_nat n;
     (bp, s) \<leftarrow> bread dev (IBLOCK inum (sb s)) s;
     if get16 (b_data (bufs s ! bp)) (inode_off inum) = 0 then do {
       s \<leftarrow> log_write bp (upd_buf bp (\<lambda>bf. bf\<lparr>b_data :=
              put (put (b_data bf) (inode_off inum) (replicate 64 0)) (inode_off inum) (bytes16 type)\<rparr>) s);
       s \<leftarrow> brelse bp s;
       iget dev inum s }
     else do { s \<leftarrow> brelse bp s; ialloc_loop dev type ns s } }"

definition ialloc :: "u32 \<Rightarrow> u16 \<Rightarrow> 'a fsys_scheme \<Rightarrow> (nat \<times> 'a fsys_scheme) option" where
  "ialloc dev type s = ialloc_loop dev type [1..<unat (sb_ninodes (sb s))] s"

definition inode_dinode :: "inode \<Rightarrow> dinode" where
  "inode_dinode ip = \<lparr>di_type = i_type ip, di_major = i_major ip, di_minor = i_minor ip, di_nlink = i_nlink ip,
     di_size = i_size ip, di_addrs = i_addrs ip\<rparr>"

definition iupdate :: "nat \<Rightarrow> 'a fsys_scheme \<Rightarrow> 'a fsys_scheme option" where
  "iupdate i s = do {
     let ip = icache s ! i;
     (bp, s) \<leftarrow> bread (i_dev ip) (IBLOCK (i_inum ip) (sb s)) s;
     s \<leftarrow> log_write bp (upd_buf bp (\<lambda>bf. bf\<lparr>b_data :=
            put (b_data bf) (inode_off (i_inum ip)) (dinode_bytes (inode_dinode ip))\<rparr>) s);
     brelse bp s }"

definition idup :: "nat \<Rightarrow> 'a fsys_scheme \<Rightarrow> nat \<times> 'a fsys_scheme" where
  "idup i s = (i, upd_inode i (\<lambda>ip. ip\<lparr>i_ref := i_ref ip + 1\<rparr>) s)"

definition ilock_read :: "nat \<Rightarrow> 'a fsys_scheme \<Rightarrow> 'a fsys_scheme option" where
  "ilock_read i s = do {
     let ip = icache s ! i;
     (bp, s) \<leftarrow> bread (i_dev ip) (IBLOCK (i_inum ip) (sb s)) s;
     let di = decode_dinode (b_data (bufs s ! bp)) (inode_off (i_inum ip));
     let s = upd_inode i (\<lambda>ip. ip\<lparr>i_type := di_type di, i_major := di_major di, i_minor := di_minor di,
            i_nlink := di_nlink di, i_size := di_size di, i_addrs := di_addrs di\<rparr>) s;
     s \<leftarrow> brelse bp s;
     let s = upd_inode i (\<lambda>ip. ip\<lparr>i_valid := True\<rparr>) s;
     if di_type di = 0 then panic ''ilock: no type'' else Some s }"

definition acquire_inode :: "nat \<Rightarrow> 'a fsys_scheme \<Rightarrow> 'a fsys_scheme option" where
  "acquire_inode i s = do {
     lk \<leftarrow> acquiresleep (fs_pid s) (i_lock (icache s ! i));
     Some (upd_inode i (\<lambda>ip. ip\<lparr>i_lock := lk\<rparr>) s) }"

definition release_inode :: "nat \<Rightarrow> 'a fsys_scheme \<Rightarrow> 'a fsys_scheme" where
  "release_inode i s = wake (SleeplockChan i) (upd_inode i (\<lambda>ip. ip\<lparr>i_lock := releasesleep (i_lock ip)\<rparr>) s)"

definition ilock :: "nat \<Rightarrow> 'a fsys_scheme \<Rightarrow> 'a fsys_scheme option" where
  "ilock i s =
     (if i_ref (icache s ! i) < 1 then panic ''ilock''
      else do {
        s \<leftarrow> acquire_inode i s;
        if i_valid (icache s ! i) then Some s else ilock_read i s })"

definition iunlock :: "nat \<Rightarrow> 'a fsys_scheme \<Rightarrow> 'a fsys_scheme option" where
  "iunlock i s =
     (if \<not> holdingsleep (fs_pid s) (i_lock (icache s ! i)) \<or> i_ref (icache s ! i) < 1 then panic ''iunlock''
      else Some (release_inode i s))"

section \<open>Inode content\<close>

definition bmap :: "nat \<Rightarrow> u32 \<Rightarrow> 'a fsys_scheme \<Rightarrow> (u32 \<times> 'a fsys_scheme) option" where
  "bmap i bn s =
     (let dev = i_dev (icache s ! i) in
      if bn < 12 then
        (if i_addrs (icache s ! i) ! unat bn = 0 then do {
           (a, s) \<leftarrow> balloc dev s;
           Some (a, upd_inode i (\<lambda>ip. ip\<lparr>i_addrs := (i_addrs ip)[unat bn := a]\<rparr>) s) }
         else Some (i_addrs (icache s ! i) ! unat bn, s))
      else
        let bn = bn - 12 in
        if bn < 128 then do {
          (ind, s) \<leftarrow>
            (if i_addrs (icache s ! i) ! NDIRECT = 0 then do {
               (a, s) \<leftarrow> balloc dev s;
               Some (a, upd_inode i (\<lambda>ip. ip\<lparr>i_addrs := (i_addrs ip)[NDIRECT := a]\<rparr>) s) }
             else Some (i_addrs (icache s ! i) ! NDIRECT, s));
          (bp, s) \<leftarrow> bread dev ind s;
          let a = get32 (b_data (bufs s ! bp)) (4 * unat bn);
          (a, s) \<leftarrow>
            (if a = 0 then do {
               (a, s) \<leftarrow> balloc dev s;
               s \<leftarrow> log_write bp (upd_buf bp (\<lambda>bf. bf\<lparr>b_data := put (b_data bf) (4 * unat bn) (bytes32 a)\<rparr>) s);
               Some (a, s) }
             else Some (a, s));
          s \<leftarrow> brelse bp s;
          Some (a, s) }
        else panic ''bmap: out of range'')"

definition itrunc_direct :: "nat \<Rightarrow> nat \<Rightarrow> 'a fsys_scheme \<Rightarrow> 'a fsys_scheme option" where
  "itrunc_direct i k s =
     (let ip = icache s ! i in
      if i_addrs ip ! k = 0 then Some s
      else do {
        s \<leftarrow> bfree (i_dev ip) (i_addrs ip ! k) s;
        Some (upd_inode i (\<lambda>ip. ip\<lparr>i_addrs := (i_addrs ip)[k := 0]\<rparr>) s) })"

definition itrunc_indirect :: "u32 \<Rightarrow> nat \<Rightarrow> nat \<Rightarrow> 'a fsys_scheme \<Rightarrow> 'a fsys_scheme option" where
  "itrunc_indirect dev bp j s =
     (let a = get32 (b_data (bufs s ! bp)) (4 * j) in
      if a = 0 then Some s else bfree dev a s)"

definition itrunc :: "nat \<Rightarrow> 'a fsys_scheme \<Rightarrow> 'a fsys_scheme option" where
  "itrunc i s = do {
     s \<leftarrow> for_each (itrunc_direct i) [0..<NDIRECT] s;
     let ip = icache s ! i;
     s \<leftarrow>
       (if i_addrs ip ! NDIRECT = 0 then Some s
        else do {
          (bp, s) \<leftarrow> bread (i_dev ip) (i_addrs ip ! NDIRECT) s;
          s \<leftarrow> for_each (itrunc_indirect (i_dev ip) bp) [0..<NINDIRECT] s;
          s \<leftarrow> brelse bp s;
          s \<leftarrow> bfree (i_dev ip) (i_addrs ip ! NDIRECT) s;
          Some (upd_inode i (\<lambda>ip. ip\<lparr>i_addrs := (i_addrs ip)[NDIRECT := 0]\<rparr>) s) });
     iupdate i (upd_inode i (\<lambda>ip. ip\<lparr>i_size := 0\<rparr>) s) }"

definition iput :: "nat \<Rightarrow> 'a fsys_scheme \<Rightarrow> 'a fsys_scheme option" where
  "iput i s = do {
     s \<leftarrow> acquire_inode i s;
     s \<leftarrow>
       (if i_valid (icache s ! i) \<and> i_nlink (icache s ! i) = 0 \<and> i_ref (icache s ! i) = 1 then do {
          s \<leftarrow> itrunc i s;
          s \<leftarrow> iupdate i (upd_inode i (\<lambda>ip. ip\<lparr>i_type := 0\<rparr>) s);
          Some (upd_inode i (\<lambda>ip. ip\<lparr>i_valid := False\<rparr>) s) }
        else Some s);
     Some (upd_inode i (\<lambda>ip. ip\<lparr>i_ref := i_ref ip - 1\<rparr>) (release_inode i s)) }"

definition iunlockput :: "nat \<Rightarrow> 'a fsys_scheme \<Rightarrow> 'a fsys_scheme option" where
  "iunlockput i s = do { s \<leftarrow> iunlock i s; iput i s }"

record stat =
  st_type :: u16
  st_dev :: u32
  st_ino :: u32
  st_nlink :: u16
  st_size :: u32

definition stati :: "inode \<Rightarrow> stat" where
  "stati ip = \<lparr>st_type = i_type ip, st_dev = i_dev ip, st_ino = i_inum ip, st_nlink = i_nlink ip, st_size = i_size ip\<rparr>"

section \<open>The console device\<close>

definition consoleread :: "nat \<Rightarrow> int \<Rightarrow> 'a fsys_scheme \<Rightarrow> (int \<times> u8 list \<times> 'a fsys_scheme) option" where
  "consoleread i n s = do {
     s \<leftarrow> iunlock i s;
     (case consoleread_loop (nat n) (nat n) (fs_killed s) (cons s) of
        (ReadWaits, _, _) \<Rightarrow> None
      | (ReadKilled, xs, c) \<Rightarrow> do { s \<leftarrow> ilock i (s\<lparr>cons := c\<rparr>); Some (-1, xs, s) }
      | (ReadDone, xs, c) \<Rightarrow> do { s \<leftarrow> ilock i (s\<lparr>cons := c\<rparr>); Some (int (length xs), xs, s) }) }"

definition consolewrite :: "nat \<Rightarrow> u8 list \<Rightarrow> 'a fsys_scheme \<Rightarrow> (int \<times> 'a fsys_scheme) option" where
  "consolewrite i xs s = do {
     s \<leftarrow> iunlock i s;
     c \<leftarrow> for_each (\<lambda>x. consputc (ucast x)) xs (cons s);
     s \<leftarrow> ilock i (s\<lparr>cons := c\<rparr>);
     Some (int (length xs), s) }"

definition consoleinit :: "'a fsys_scheme \<Rightarrow> 'a fsys_scheme" where
  "consoleinit s = s\<lparr>devsw := (devsw s)[CONSOLE := Some ConsoleOps], cons := (cons s)\<lparr>cons_locking := True\<rparr>\<rparr>"

text \<open>The entry of \<open>devsw\<close> for a major device number, if the number is one and the entry is set.\<close>

definition device :: "u16 \<Rightarrow> 'a fsys_scheme \<Rightarrow> devops option" where
  "device major s = (if sint major < 0 \<or> int NDEV \<le> sint major then None else devsw s ! unat major)"

section \<open>Reading and writing\<close>

definition chunk :: "u32 \<Rightarrow> u32 \<Rightarrow> u32" where
  "chunk n off = (if n < 512 - off mod 512 then n else 512 - off mod 512)"

partial_function (option) readi_loop :: "nat \<Rightarrow> u32 \<Rightarrow> u32 \<Rightarrow> u8 list \<Rightarrow> 'a fsys_scheme \<Rightarrow> (u8 list \<times> 'a fsys_scheme) option" where
  "readi_loop i off n acc s =
     (if n = 0 then Some (acc, s)
      else do {
        let dev = i_dev (icache s ! i);
        (a, s) \<leftarrow> bmap i (off div 512) s;
        (bp, s) \<leftarrow> bread dev a s;
        let m = chunk n off;
        let xs = take (unat m) (drop (unat (off mod 512)) (b_data (bufs s ! bp)));
        s \<leftarrow> brelse bp s;
        readi_loop i (off + m) (n - m) (acc @ xs) s })"

definition readi :: "nat \<Rightarrow> u32 \<Rightarrow> u32 \<Rightarrow> 'a fsys_scheme \<Rightarrow> (int \<times> u8 list \<times> 'a fsys_scheme) option" where
  "readi i off n s =
     (let ip = icache s ! i in
      if i_type ip = T_DEV then
        (case device (i_major ip) s of None \<Rightarrow> Some (-1, [], s) | Some ConsoleOps \<Rightarrow> consoleread i (sint n) s)
      else if i_size ip < off \<or> off + n < off then Some (-1, [], s)
      else do {
        let n = (if i_size ip < off + n then i_size ip - off else n);
        (xs, s) \<leftarrow> readi_loop i off n [] s;
        Some (sint n, xs, s) })"

partial_function (option) writei_loop :: "nat \<Rightarrow> u32 \<Rightarrow> u8 list \<Rightarrow> 'a fsys_scheme \<Rightarrow> (u32 \<times> 'a fsys_scheme) option" where
  "writei_loop i off src s =
     (if src = [] then Some (off, s)
      else do {
        let dev = i_dev (icache s ! i);
        (a, s) \<leftarrow> bmap i (off div 512) s;
        (bp, s) \<leftarrow> bread dev a s;
        let m = chunk (word_of_nat (length src)) off;
        s \<leftarrow> log_write bp (upd_buf bp (\<lambda>bf. bf\<lparr>b_data := put (b_data bf) (unat (off mod 512)) (take (unat m) src)\<rparr>) s);
        s \<leftarrow> brelse bp s;
        writei_loop i (off + m) (drop (unat m) src) s })"

definition writei :: "nat \<Rightarrow> u8 list \<Rightarrow> u32 \<Rightarrow> 'a fsys_scheme \<Rightarrow> (int \<times> 'a fsys_scheme) option" where
  "writei i src off s =
     (let ip = icache s ! i; n = word_of_nat (length src) in
      if i_type ip = T_DEV then
        (case device (i_major ip) s of None \<Rightarrow> Some (-1, s) | Some ConsoleOps \<Rightarrow> consolewrite i src s)
      else if i_size ip < off \<or> off + n < off then Some (-1, s)
      else if 71680 < off + n then Some (-1, s)
      else do {
        (off, s) \<leftarrow> writei_loop i off src s;
        s \<leftarrow> (if 0 < n \<and> i_size (icache s ! i) < off then iupdate i (upd_inode i (\<lambda>ip. ip\<lparr>i_size := off\<rparr>) s) else Some s);
        Some (sint n, s) })"

section \<open>Directories\<close>

fun namecmp_loop :: "nat \<Rightarrow> u8 list \<Rightarrow> u8 list \<Rightarrow> int" where
  "namecmp_loop 0 p q = 0"
| "namecmp_loop (Suc n) p q =
     (let a = get8 p 0; b = get8 q 0 in
      if a \<noteq> 0 \<and> a = b then namecmp_loop n (tl p) (tl q) else uint a - uint b)"

definition namecmp :: "u8 list \<Rightarrow> u8 list \<Rightarrow> int" where
  "namecmp p q = namecmp_loop DIRSIZ p q"

definition decode_dirent :: "u8 list \<Rightarrow> dirent" where
  "decode_dirent d = \<lparr>de_inum = get16 d 0, de_name = take DIRSIZ (drop 2 d)\<rparr>"

definition dirent_bytes :: "dirent \<Rightarrow> u8 list" where
  "dirent_bytes de = bytes16 (de_inum de) @ de_name de"

partial_function (option) dirlookup_loop ::
  "nat \<Rightarrow> u8 list \<Rightarrow> u32 \<Rightarrow> 'a fsys_scheme \<Rightarrow> ((nat \<times> u32) option \<times> 'a fsys_scheme) option" where
  "dirlookup_loop i nm off s =
     (if \<not> off < i_size (icache s ! i) then Some (None, s)
      else do {
        (r, xs, s) \<leftarrow> readi i off 16 s;
        if r \<noteq> 16 then panic ''dirlookup read''
        else
          let de = decode_dirent xs in
          if de_inum de = 0 then dirlookup_loop i nm (off + 16) s
          else if namecmp nm (de_name de) = 0 then do {
            (j, s) \<leftarrow> iget (i_dev (icache s ! i)) (ucast (de_inum de)) s;
            Some (Some (j, off), s) }
          else dirlookup_loop i nm (off + 16) s })"

definition dirlookup :: "nat \<Rightarrow> u8 list \<Rightarrow> 'a fsys_scheme \<Rightarrow> ((nat \<times> u32) option \<times> 'a fsys_scheme) option" where
  "dirlookup i nm s =
     (if i_type (icache s ! i) \<noteq> T_DIR then panic ''dirlookup not DIR'' else dirlookup_loop i nm 0 s)"

partial_function (option) dirlink_slot :: "nat \<Rightarrow> u32 \<Rightarrow> 'a fsys_scheme \<Rightarrow> (u32 \<times> 'a fsys_scheme) option" where
  "dirlink_slot i off s =
     (if \<not> off < i_size (icache s ! i) then Some (off, s)
      else do {
        (r, xs, s) \<leftarrow> readi i off 16 s;
        if r \<noteq> 16 then panic ''dirlink read''
        else if de_inum (decode_dirent xs) = 0 then Some (off, s)
        else dirlink_slot i (off + 16) s })"

definition dirlink :: "nat \<Rightarrow> u8 list \<Rightarrow> u32 \<Rightarrow> 'a fsys_scheme \<Rightarrow> (int \<times> 'a fsys_scheme) option" where
  "dirlink i nm inum s = do {
     (r, s) \<leftarrow> dirlookup i nm s;
     case r of
       Some (j, _) \<Rightarrow> do { s \<leftarrow> iput j s; Some (-1, s) }
     | None \<Rightarrow> do {
         (off, s) \<leftarrow> dirlink_slot i 0 s;
         (n, s) \<leftarrow> writei i (dirent_bytes \<lparr>de_inum = ucast inum, de_name = take DIRSIZ (nm @ replicate DIRSIZ 0)\<rparr>) off s;
         if n \<noteq> 16 then panic ''dirlink'' else Some (0, s) } }"

section \<open>Paths\<close>

definition skipelem :: "u8 list \<Rightarrow> (u8 list \<times> u8 list) option" where
  "skipelem path =
     (let path = dropWhile (\<lambda>c. c = 47) path in
      if path = [] then None
      else
        let el = takeWhile (\<lambda>c. c \<noteq> 47) path;
            path = dropWhile (\<lambda>c. c \<noteq> 47) path
        in Some (take DIRSIZ el, dropWhile (\<lambda>c. c = 47) path))"

text \<open>The loop of \<open>namex\<close>; the last path element is returned with the inode.\<close>

partial_function (option) namex_loop ::
  "bool \<Rightarrow> u8 list \<Rightarrow> u8 list \<Rightarrow> nat \<Rightarrow> 'a fsys_scheme \<Rightarrow> ((nat \<times> u8 list) option \<times> 'a fsys_scheme) option" where
  "namex_loop parent path nm i s =
     (case skipelem path of
        None \<Rightarrow> if parent then do { s \<leftarrow> iput i s; Some (None, s) } else Some (Some (i, nm), s)
      | Some (nm, path) \<Rightarrow> do {
          s \<leftarrow> ilock i s;
          if i_type (icache s ! i) \<noteq> T_DIR then do { s \<leftarrow> iunlockput i s; Some (None, s) }
          else if parent \<and> path = [] then do { s \<leftarrow> iunlock i s; Some (Some (i, nm), s) }
          else do {
            (r, s) \<leftarrow> dirlookup i nm s;
            case r of
              None \<Rightarrow> do { s \<leftarrow> iunlockput i s; Some (None, s) }
            | Some (j, _) \<Rightarrow> do { s \<leftarrow> iunlockput i s; namex_loop parent path nm j s } } })"

text \<open>\<open>cwd\<close> is the current directory of the process.\<close>

definition namex :: "nat option \<Rightarrow> u8 list \<Rightarrow> bool \<Rightarrow> 'a fsys_scheme \<Rightarrow> ((nat \<times> u8 list) option \<times> 'a fsys_scheme) option" where
  "namex cwd path parent s = do {
     (i, s) \<leftarrow> (if path \<noteq> [] \<and> hd path = 47 then iget ROOTDEV ROOTINO s
       else case cwd of None \<Rightarrow> ub | Some c \<Rightarrow> Some (idup c s));
     namex_loop parent path [] i s }"

definition namei :: "nat option \<Rightarrow> u8 list \<Rightarrow> 'a fsys_scheme \<Rightarrow> (nat option \<times> 'a fsys_scheme) option" where
  "namei cwd path s = do { (r, s) \<leftarrow> namex cwd path False s; Some (map_option fst r, s) }"

definition nameiparent :: "nat option \<Rightarrow> u8 list \<Rightarrow> 'a fsys_scheme \<Rightarrow> ((nat \<times> u8 list) option \<times> 'a fsys_scheme) option" where
  "nameiparent cwd path s = namex cwd path True s"

end
