(* ===== verification/Fs_Trans.thy ===== *)
theory Fs_Trans
  imports Log_Commit Fs
begin

text \<open>
  File system operations inside a transaction: what reading a block and what changing a block through the log do
  to the contents of the blocks, with other buffers of the caller still locked. On top of it, the block allocator refines a set of
  used blocks, and an inode written by \<open>iupdate\<close> is read back by \<open>ilock\<close>.
\<close>

section \<open>Transactions\<close>

text \<open>
  Inside a transaction of the blocks \<open>bl\<close>, with the buffers of the blocks \<open>U\<close> locked. \<open>room n s bl U\<close>: there is room for \<open>n\<close> more
  blocks in the log and in the cache.
\<close>

definition in_trans :: "'a fsys_scheme \<Rightarrow> u32 \<Rightarrow> u32 list \<Rightarrow> u32 set \<Rightarrow> bool" where
  "in_trans s start bl U \<longleftrightarrow> cache_ok s \<and> log_at s start bl \<and> dirty s = (\<lambda>b. b \<in> set bl) \<and> in_use s = (\<lambda>b. b \<in> U) \<and> finite U \<and> distinct bl
     \<and> log_size (logs s) = 30 \<and> length (lh_block (logs s)) = 30 \<and> 1 \<le> log_outstanding (logs s)"

definition room :: "nat \<Rightarrow> u32 list \<Rightarrow> u32 set \<Rightarrow> bool" where
  "room n bl U \<longleftrightarrow> length bl + n \<le> 29 \<and> card (set bl \<union> U) + n \<le> 29"

definition add_block :: "u32 \<Rightarrow> u32 list \<Rightarrow> u32 list" where
  "add_block b bl = (if b \<in> set bl then bl else bl @ [b])"

lemma set_add_block [simp]: "set (add_block b bl) = insert b (set bl)"
  by (auto simp: add_block_def)

lemma distinct_add_block [simp]: "distinct (add_block b bl) = distinct bl"
  by (auto simp: add_block_def)

lemma room_add:
  assumes "room (Suc n) bl U" "finite U"
  shows "room n (add_block b bl) U" "room n bl U"
proof -
  have "card (insert b (set bl \<union> U)) \<le> Suc (card (set bl \<union> U))" using assms(2) by (intro card_insert_le_m1) simp_all
  moreover have "length (add_block b bl) \<le> Suc (length bl)" by (simp add: add_block_def)
  ultimately show "room n (add_block b bl) U" "room n bl U" using assms by (auto simp: room_def)
qed

text \<open>Nothing but the buffer cache and the log header in memory differs.\<close>

definition same_meta :: "'a fsys_scheme \<Rightarrow> 'a fsys_scheme \<Rightarrow> bool" where
  "same_meta s t \<longleftrightarrow> sb t = sb s \<and> icache t = icache s \<and> devsw t = devsw s \<and> cons t = cons s \<and> disk t = disk s \<and> disksize t = disksize s
     \<and> fs_pid t = fs_pid s \<and> fs_killed t = fs_killed s \<and> disk_writes t = disk_writes s"

lemma same_metaD:
  assumes "same_meta s t"
  shows "sb t = sb s" "icache t = icache s" "devsw t = devsw s" "cons t = cons s" "disk t = disk s" "disksize t = disksize s" "fs_pid t = fs_pid s"
  using assms by (simp_all add: same_meta_def)

lemma same_meta_trans [trans]: "same_meta s t \<Longrightarrow> same_meta t u \<Longrightarrow> same_meta s u"
  by (simp add: same_meta_def)

lemma same_cache_meta: "same_but_cache s t \<Longrightarrow> same_meta s t"
  using same_but_cacheD [of s t] by (simp add: same_meta_def)

text \<open>The buffers of the caller keep their contents.\<close>

definition keeps :: "'a fsys_scheme \<Rightarrow> 'a fsys_scheme \<Rightarrow> bool" where
  "keeps s t \<longleftrightarrow> (\<forall>a k. owned s a k \<longrightarrow> owned t a k \<and> bufs t ! k = bufs s ! k)"

lemma keeps_trans [trans]: "keeps s t \<Longrightarrow> keeps t u \<Longrightarrow> keeps s u"
  unfolding keeps_def by metis

lemma trans_avail:
  assumes "in_trans s start bl U" "room 0 bl U" "b \<notin> U" "b < disksize s"
  shows "avail s b"
proof (rule avail_card)
  have eq: "{c. dirty s c \<or> in_use s c} = set bl \<union> U" using assms(1) by (auto simp: in_trans_def)
  show "dirty s b \<or> finite {c. dirty s c \<or> in_use s c} \<and> card {c. dirty s c \<or> in_use s c} < 30"
    unfolding eq using assms(1,2) by (simp add: in_trans_def room_def)
qed (use assms in \<open>simp_all add: in_trans_def\<close>)

section \<open>Reading a block\<close>

lemma trans_read:
  assumes "in_trans s start bl U" "room 0 bl U" "b \<notin> U" "b < disksize s"
  obtains i t u where "bread 1 b s = Some (i, t)" "b_data (bufs t ! i) = view s b" "brelse i t = Some u"
    "in_trans u start bl U" "view u = view s" "same_meta s t" "same_meta s u" "keeps s u"
proof -
  have c: "cache_ok s" "in_use s = (\<lambda>b. b \<in> U)" "dirty s = (\<lambda>b. b \<in> set bl)" using assms(1) by (simp_all add: in_trans_def)
  have nu: "\<not> in_use s b" using c(2) assms(3) by simp
  note av = trans_avail [OF assms]
  show thesis
  proof (rule bread_avail [OF c(1) av])
    fix i t assume t: "bread 1 b s = Some (i, t)" "owned t b i" "b_data (bufs t ! i) = view s b" "cache_ok t" "view t = view s" "dirty t = dirty s"
      "in_use t = (in_use s)(b := True)" "same_but_cache s t" and keep: "\<And>a k. owned s a k \<Longrightarrow> k \<noteq> i \<and> owned t a k \<and> bufs t ! k = bufs s ! k"
    have "dirty t b \<or> view t b = disk t b"
      using view_clean [OF c(1) _ nu] t(5,6) same_but_cacheD(1) [OF t(8)] by (cases "dirty s b") simp_all
    then obtain u where u: "brelse i t = Some u" "cache_ok u" "view u = view t" "dirty u = dirty t" "in_use u = (in_use t)(b := False)" "same_but_cache t u"
      "bufs u = (bufs t)[i := released_buf (bufs t ! i)]"
      by (rule brelse_spec [OF t(4,2)])
    have su: "same_but_cache s u" using t(8) u(6) by (rule same_but_cache_trans)
    have "in_use u = in_use s" using u(5) t(7) nu by (simp add: fun_upd_idem)
    then have "in_trans u start bl U" using assms(1) u(2,4) t(6) same_but_cacheD(6) [OF su] log_at_cong [of s start bl u] by (simp add: in_trans_def)
    moreover have "keeps s u" unfolding keeps_def
    proof (intro allI impI)
      fix a k assume "owned s a k"
      from keep [OF this] have k: "k \<noteq> i" "owned t a k" "bufs t ! k = bufs s ! k" by auto
      show "owned u a k \<and> bufs u ! k = bufs s ! k"
        using owned_other [OF k(2) u(7)] k(1,3) same_but_cacheD(4) [OF u(6)] by auto
    qed
    ultimately show thesis using that t(1,3) u(1,3) t(5) same_cache_meta [OF t(8)] same_cache_meta [OF su] by simp
  qed
qed

section \<open>Changing a block\<close>

lemma upd_owned:
  assumes "cache_ok s" "owned s b i" "length v = 512"
  defines "t \<equiv> upd_buf i (\<lambda>bf. bf\<lparr>b_data := v\<rparr>) s"
  shows "cache_ok t" "view t = (view s)(b := v)" "dirty t = dirty s" "in_use t = in_use s" "owned t b i"
proof -
  note o = owned_fields [OF assms(2)]
  let ?bf = "(bufs s ! i)\<lparr>b_data := v\<rparr>"
  have bok: "buf_ok (disk s) (bufs s ! i)" using cache_okD(2) [OF assms(1)] o(1) by blast
  have bt: "bufs t = (bufs s)[i := ?bf]" "disk t = disk s" "bnext t = bnext s" "bprev t = bprev s" by (simp_all add: t_def upd_buf_def)
  have bf: "b_dev ?bf = 1" "b_blockno ?bf = b" "b_flags ?bf \<in> {2, 6}" "length (b_data ?bf) = 512" "b_refcnt ?bf = 1" "sl_locked (b_lock ?bf)"
    using o bok assms(3) by (auto simp: buf_ok_def)
  note up = owned_upd [OF assms(1,2) bt bf]
  show "cache_ok t" by (rule up)
  show "view t = (view s)(b := v)" "in_use t = in_use s" using up(2,4) by simp_all
  have "dirty s b = (b_flags (bufs s ! i) = 6)" unfolding dirty_def using o(7) cache_okD(3) [OF assms(1)] by blast
  then show "dirty t = dirty s" using up(3) by (simp add: fun_upd_idem)
  show "owned t b i" using o cache_okD(1) [OF assms(1)] by (auto simp: t_def owned_def holds_def holdingsleep_def)
qed

text \<open>A buffer of the caller is changed and logged, and stays locked.\<close>

lemma log_owned:
  assumes "in_trans s start bl U" "length bl < 29" "owned s b i" "length v = 512"
  obtains t where "log_write i (upd_buf i (\<lambda>bf. bf\<lparr>b_data := v\<rparr>) s) = Some t" "in_trans t start (add_block b bl) U" "view t = (view s)(b := v)"
    "owned t b i" "same_meta s t" "\<forall>k. k \<noteq> i \<longrightarrow> bufs t ! k = bufs s ! k" "b_data (bufs t ! i) = v"
proof -
  let ?s = "upd_buf i (\<lambda>bf. bf\<lparr>b_data := v\<rparr>) s"
  have c: "cache_ok s" "log_at s start bl" "length bl < 29" using assms(1,2) by (simp_all add: in_trans_def)
  note up = upd_owned [OF c(1) assms(3,4)]
  obtain t where t: "log_write i ?s = Some t" "cache_ok t" "view t = view ?s" "dirty t = (dirty ?s)(b := True)" "in_use t = in_use ?s" "owned t b i"
    "log_at t start (if b \<in> set bl then bl else bl @ [b])" "disk t = disk ?s" "disk_writes t = disk_writes ?s"
    by (rule log_write_ok [OF up(1,5) log_at_cong [OF c(2)] c(3)]) (use assms(1) in \<open>simp_all add: in_trans_def\<close>)
  have tt: "bufs t = (bufs ?s)[i := (bufs ?s ! i)\<lparr>b_flags := b_flags (bufs ?s ! i) OR 4\<rparr>]" "same_meta ?s t" "log_size (logs t) = log_size (logs s)"
    "length (lh_block (logs t)) = length (lh_block (logs s))" "log_outstanding (logs t) = log_outstanding (logs s)"
    using t(1) by (auto simp: log_write_def Let_def upd_log_def upd_buf_def same_meta_def panic_def split: if_splits)
  have "same_meta s ?s" by (simp add: same_meta_def upd_buf_def)
  then have sm: "same_meta s t" using tt(2) by (rule same_meta_trans)
  have "in_trans t start (add_block b bl) U"
    using assms(1) t(2,4,5,7) tt(3-5) up(3,4) by (auto simp: in_trans_def add_block_def fun_eq_iff split: if_splits)
  moreover have "view t = (view s)(b := v)" using t(3) up(2) by simp
  moreover have "i < 30" "length (bufs s) = 30" using owned_fields(1) [OF assms(3)] cache_okD(1) [OF c(1)] by simp_all
  ultimately show thesis using that t(1,6) sm tt(1) by simp
qed

lemma trans_update:
  assumes "in_trans s start bl U" "room (Suc 0) bl U" "b \<notin> U" "b < disksize s" "length (f (view s b)) = 512"
  obtains i t u w where "bread 1 b s = Some (i, t)" "b_data (bufs t ! i) = view s b" "same_meta s t"
    "log_write i (upd_buf i (\<lambda>bf. bf\<lparr>b_data := f (b_data bf)\<rparr>) t) = Some u" "brelse i u = Some w"
    "in_trans w start (add_block b bl) U" "view w = (view s)(b := f (view s b))" "same_meta s w" "keeps s w"
proof -
  have c: "cache_ok s" "in_use s = (\<lambda>b. b \<in> U)" "finite U" using assms(1) by (simp_all add: in_trans_def)
  have nu: "\<not> in_use s b" using c(2) assms(3) by simp
  have r0: "room 0 bl U" using assms(2) by (simp add: room_def)
  show thesis
  proof (rule bread_avail [OF c(1) trans_avail [OF assms(1) r0 assms(3,4)]])
    fix i t assume t: "bread 1 b s = Some (i, t)" "owned t b i" "b_data (bufs t ! i) = view s b" "cache_ok t" "view t = view s" "dirty t = dirty s"
      "in_use t = (in_use s)(b := True)" "same_but_cache s t" and keep: "\<And>a k. owned s a k \<Longrightarrow> k \<noteq> i \<and> owned t a k \<and> bufs t ! k = bufs s ! k"
    have tt: "in_trans t start bl (insert b U)"
      using assms(1) t(4,6,7) same_but_cacheD(6) [OF t(8)] log_at_cong [of s start bl t] by (auto simp: in_trans_def fun_eq_iff)
    have eq: "upd_buf i (\<lambda>bf. bf\<lparr>b_data := f (b_data bf)\<rparr>) t = upd_buf i (\<lambda>bf. bf\<lparr>b_data := f (view s b)\<rparr>) t" by (simp add: upd_buf_def t(3))
    have bl: "length bl < 29" using assms(2) by (simp add: room_def)
    obtain u where u: "log_write i (upd_buf i (\<lambda>bf. bf\<lparr>b_data := f (view s b)\<rparr>) t) = Some u" "in_trans u start (add_block b bl) (insert b U)"
      "view u = (view t)(b := f (view s b))" "owned u b i" "same_meta t u" "\<forall>k. k \<noteq> i \<longrightarrow> bufs u ! k = bufs t ! k" "b_data (bufs u ! i) = f (view s b)"
      by (rule log_owned [OF tt bl t(2) assms(5)])
    have cu: "cache_ok u" "dirty u b \<or> view u b = disk u b" using u(2) by (simp_all add: in_trans_def)
    obtain w where w: "brelse i u = Some w" "cache_ok w" "view w = view u" "dirty w = dirty u" "in_use w = (in_use u)(b := False)" "same_but_cache u w"
      "bufs w = (bufs u)[i := released_buf (bufs u ! i)]"
      by (rule brelse_spec [OF cu(1) u(4) cu(2)])
    have "in_use w = (\<lambda>c. c \<in> U)" using w(5) u(2) assms(3) by (auto simp: in_trans_def fun_eq_iff)
    then have "in_trans w start (add_block b bl) U"
      using u(2) w(2,4) same_but_cacheD(6) [OF w(6)] log_at_cong [of u start "add_block b bl" w] c(3) by (simp add: in_trans_def)
    moreover have "same_meta s w" using same_cache_meta [OF t(8)] u(5) same_cache_meta [OF w(6)] same_meta_trans by blast
    moreover have "keeps s w" unfolding keeps_def
    proof (intro allI impI)
      fix a k assume "owned s a k"
      from keep [OF this] have k: "k \<noteq> i" "owned t a k" "bufs t ! k = bufs s ! k" by auto
      have "bufs w ! k = bufs t ! k" using w(7) u(6) k(1) by simp
      moreover have "fs_pid w = fs_pid t" using same_metaD(7) [OF u(5)] same_but_cacheD(4) [OF w(6)] by simp
      ultimately show "owned w a k \<and> bufs w ! k = bufs s ! k" using k by (simp add: owned_def holds_def)
    qed
    moreover have "view w = (view s)(b := f (view s b))" using w(3) u(3) t(5) by simp
    ultimately show thesis using that t(1,3) same_cache_meta [OF t(8)] u(1) eq w(1) by simp
  qed
qed

section \<open>The bitmap\<close>

lemma bit_free_iff: "bit_free d i \<longleftrightarrow> \<not> bit (get8 d (i div 8)) (i mod 8)"
  by (simp add: bit_free_def bit_mask_def push_bit_eq_mult and_exp_eq_0_iff_not_bit)

lemma bit_pos: "i \<noteq> j \<Longrightarrow> i div 8 = j div 8 \<Longrightarrow> i mod 8 \<noteq> j mod (8 :: nat)"
  by (metis div_mod_decomp)

lemma bit_free_used:
  assumes "length d = 512" "i < 4096" "j < 4096"
  shows "bit_free (set_bit_used i d) j \<longleftrightarrow> j \<noteq> i \<and> bit_free d j" "length (set_bit_used i d) = 512"
proof -
  have "i div 8 < 512" using assms(2) by (simp add: less_mult_imp_div_less)
  then show "bit_free (set_bit_used i d) j \<longleftrightarrow> j \<noteq> i \<and> bit_free d j"
    using assms(1) bit_pos [of i j] unfolding bit_free_iff set_bit_used_def bit_mask_def
    by (cases "i div 8 = j div 8") (auto simp: get8_def bit_simps nth_list_update)
qed (simp add: set_bit_used_def assms)

lemma bit_free_freed:
  assumes "length d = 512" "i < 4096" "j < 4096"
  shows "bit_free (set_bit_free i d) j \<longleftrightarrow> j = i \<or> bit_free d j" "length (set_bit_free i d) = 512"
proof -
  have "i div 8 < 512" using assms(2) by (simp add: less_mult_imp_div_less)
  moreover have "i mod 8 < 8" by simp
  ultimately show "bit_free (set_bit_free i d) j \<longleftrightarrow> j = i \<or> bit_free d j"
    using assms(1) bit_pos [of i j] unfolding bit_free_iff set_bit_free_def bit_mask_def
    by (cases "i div 8 = j div 8") (auto simp: get8_def bit_simps nth_list_update)
qed (simp add: set_bit_free_def assms)

text \<open>Block \<open>b\<close> is marked in use; the blocks of the bitmap.\<close>

definition block_used :: "'a fsys_scheme \<Rightarrow> u32 \<Rightarrow> bool" where
  "block_used s b \<longleftrightarrow> \<not> bit_free (view s (BBLOCK b (sb s))) (unat (b mod 4096))"

definition bitmap_blocks :: "'a fsys_scheme \<Rightarrow> u32 set" where
  "bitmap_blocks s = (\<lambda>b. BBLOCK b (sb s)) ` {b. b < sb_size (sb s)}"

text \<open>The file system fits on the disk, the bitmap is marked in use, and the caller has no buffer of the bitmap or of a free block.\<close>

definition bitmap_ok :: "'a fsys_scheme \<Rightarrow> u32 set \<Rightarrow> bool" where
  "bitmap_ok s U \<longleftrightarrow> sb_size (sb s) \<le> disksize s \<and> (\<forall>b \<in> bitmap_blocks s. b < disksize s \<and> b \<notin> U)
     \<and> (\<forall>b < sb_size (sb s). \<not> block_used s b \<longrightarrow> b \<notin> U \<and> b \<notin> bitmap_blocks s)"

lemma same_bitmap: "BBLOCK a r = BBLOCK b r \<longleftrightarrow> a div 4096 = b div 4096"
  by (simp add: BBLOCK_def)

lemma u32_parts: "a div 4096 = b div 4096 \<Longrightarrow> unat (a mod 4096) = unat (b mod 4096) \<longleftrightarrow> a = (b :: u32)"
  by (metis div_mult_mod_eq word_unat_eq_iff)

lemma unat_word_small: "x < 4294967296 \<Longrightarrow> unat (word_of_nat x :: u32) = x"
  by (simp add: unat_of_nat)

lemma mod_small: "unat (b mod 4096 :: u32) < 4096"
  by (simp add: unat_mod)

section \<open>Freeing a block\<close>

lemma bfree_ok:
  assumes "in_trans s start bl U" "room 1 bl U" "bitmap_ok s U" "b < sb_size (sb s)"
  shows "if block_used s b then \<exists>w. bfree 1 b s = Some w \<and> in_trans w start (add_block (BBLOCK b (sb s)) bl) U \<and>
        (\<forall>c < sb_size (sb s). block_used w c \<longleftrightarrow> block_used s c \<and> c \<noteq> b) \<and> (\<forall>c. c \<notin> bitmap_blocks s \<longrightarrow> view w c = view s c) \<and> same_meta s w
     else bfree 1 b s = None"
proof -
  let ?B = "BBLOCK b (sb s)" and ?i = "unat (b mod 4096)"
  have B: "?B \<in> bitmap_blocks s" using assms(4) by (simp add: bitmap_blocks_def)
  then have B': "?B < disksize s" "?B \<notin> U" using assms(3) by (simp_all add: bitmap_ok_def)
  have len: "length (view s ?B) = 512" using assms(1) length_view by (auto simp: in_trans_def)
  show ?thesis
  proof (cases "block_used s b")
    case False
    have r0: "room 0 bl U" using assms(2) by (simp add: room_def)
    obtain i t u where "bread 1 ?B s = Some (i, t)" "b_data (bufs t ! i) = view s ?B"
      using trans_read [OF assms(1) r0 B'(2,1)] by metis
    then show ?thesis using False by (simp add: bfree_def block_used_def panic_def)
  next
    case True
    have r1: "room (Suc 0) bl U" using assms(2) by simp
    note fl = bit_free_freed [OF len mod_small]
    have lf: "length (set_bit_free ?i (view s ?B)) = 512" using fl(2) [of 0] by simp
    obtain i t u w where w: "bread 1 ?B s = Some (i, t)" "b_data (bufs t ! i) = view s ?B" "same_meta s t"
        "log_write i (upd_buf i (\<lambda>bf. bf\<lparr>b_data := set_bit_free ?i (b_data bf)\<rparr>) t) = Some u" "brelse i u = Some w"
        "in_trans w start (add_block ?B bl) U" "view w = (view s)(?B := set_bit_free ?i (view s ?B))" "same_meta s w" "keeps s w"
      by (rule trans_update [where f = "set_bit_free (unat (b mod 4096))", OF assms(1) r1 B'(2,1) lf])
    have "bfree 1 b s = Some w" using w(1,2,4,5) True same_metaD(1) [OF w(3)] by (simp add: bfree_def block_used_def)
    moreover have "block_used w c \<longleftrightarrow> block_used s c \<and> c \<noteq> b" for c
    proof (cases "c div 4096 = b div 4096")
      case True
      then have "BBLOCK c (sb s) = ?B" by (simp add: same_bitmap)
      then show ?thesis using w(7) same_metaD(1) [OF w(8)] fl(1) [OF mod_small] u32_parts [OF True] by (auto simp: block_used_def)
    next
      case False
      then have "BBLOCK c (sb s) \<noteq> ?B" by (simp add: same_bitmap)
      then show ?thesis using w(7) same_metaD(1) [OF w(8)] False by (auto simp: block_used_def)
    qed
    moreover have "view w c = view s c" if "c \<notin> bitmap_blocks s" for c using that B w(7) by auto
    ultimately show ?thesis using True w(6,8) by auto
  qed
qed

section \<open>Allocating a block\<close>

text \<open>The search of \<open>balloc\<close>: the first bitmap block with a free bit, and the first such bit.\<close>

fun find_free :: "(u32 \<Rightarrow> block) \<Rightarrow> superblock \<Rightarrow> nat list \<Rightarrow> (nat \<times> nat) option" where
  "find_free v r [] = None"
| "find_free v r (b # bs) =
     (case find (bit_free (v (BBLOCK (word_of_nat b) r))) [0..<min 4096 (unat (sb_size r) - b)] of
        Some i \<Rightarrow> Some (b, i)
      | None \<Rightarrow> find_free v r bs)"

lemma bzero_ok:
  assumes "in_trans s start bl U" "room 1 bl U" "b \<notin> U" "b < disksize s"
  obtains w where "bzero 1 b s = Some w" "in_trans w start (add_block b bl) U" "view w = (view s)(b := replicate 512 0)" "same_meta s w" "keeps s w"
proof -
  have r1: "room (Suc 0) bl U" using assms(2) by simp
  obtain i t u w where w: "bread 1 b s = Some (i, t)" "b_data (bufs t ! i) = view s b" "same_meta s t"
      "log_write i (upd_buf i (\<lambda>bf. bf\<lparr>b_data := replicate 512 0\<rparr>) t) = Some u" "brelse i u = Some w"
      "in_trans w start (add_block b bl) U" "view w = (view s)(b := replicate 512 0)" "same_meta s w" "keeps s w"
    by (rule trans_update [where f = "\<lambda>_. replicate 512 0", OF assms(1) r1 assms(3,4)]) simp_all
  then show thesis using that by (simp add: bzero_def)
qed

lemma balloc_loop_ok:
  assumes "in_trans s start bl U" "room 2 bl U" "\<And>b. b \<in> set bs \<Longrightarrow> BBLOCK (word_of_nat b) (sb s) \<notin> U \<and> BBLOCK (word_of_nat b) (sb s) < disksize s"
    "\<And>b i. find_free (view s) (sb s) bs = Some (b, i) \<Longrightarrow> word_of_nat (b + i) \<notin> U \<and> word_of_nat (b + i) < disksize s"
  shows "case find_free (view s) (sb s) bs of None \<Rightarrow> balloc_loop 1 bs s = None
    | Some (b, i) \<Rightarrow> \<exists>w. balloc_loop 1 bs s = Some (word_of_nat (b + i), w) \<and>
        in_trans w start (add_block (word_of_nat (b + i)) (add_block (BBLOCK (word_of_nat b) (sb s)) bl)) U \<and>
        view w = (view s)(BBLOCK (word_of_nat b) (sb s) := set_bit_used i (view s (BBLOCK (word_of_nat b) (sb s))), word_of_nat (b + i) := replicate 512 0) \<and>
        same_meta s w \<and> keeps s w"
  using assms
proof (induction bs arbitrary: s)
  case Nil
  then show ?case by (simp add: panic_def)
next
  case (Cons b bs)
  let ?B = "BBLOCK (word_of_nat b) (sb s)"
  let ?P = "bit_free (view s ?B)" and ?n = "min 4096 (unat (sb_size (sb s)) - b)"
  have B: "?B \<notin> U" "?B < disksize s" using Cons.prems(3) [of b] by simp_all
  have len: "length (view s ?B) = 512" using Cons.prems(1) length_view by (auto simp: in_trans_def)
  have fin: "finite U" using Cons.prems(1) by (simp add: in_trans_def)
  have r: "room 0 bl U" "room (Suc 0) bl U" "room (Suc (Suc 0)) bl U" using Cons.prems(2) by (simp_all add: room_def)
  show ?case
  proof (cases "find ?P [0..<?n]")
    case None
    obtain k t u where u: "bread 1 ?B s = Some (k, t)" "b_data (bufs t ! k) = view s ?B" "brelse k t = Some u"
      "in_trans u start bl U" "view u = view s" "same_meta s t" "same_meta s u" "keeps s u"
      by (rule trans_read [OF Cons.prems(1) r(1) B])
    note mt = same_metaD [OF u(6)] and mu = same_metaD [OF u(7)]
    have eq: "balloc_loop 1 (b # bs) s = balloc_loop 1 bs u" using u(1-3) None mt(1) by simp
    have ff: "find_free (view s) (sb s) (b # bs) = find_free (view u) (sb u) bs" using None mu(1) u(5) by simp
    have IH: "case find_free (view u) (sb u) bs of None \<Rightarrow> balloc_loop 1 bs u = None
      | Some (b, i) \<Rightarrow> \<exists>w. balloc_loop 1 bs u = Some (word_of_nat (b + i), w) \<and>
          in_trans w start (add_block (word_of_nat (b + i)) (add_block (BBLOCK (word_of_nat b) (sb u)) bl)) U \<and>
          view w = (view u)(BBLOCK (word_of_nat b) (sb u) := set_bit_used i (view u (BBLOCK (word_of_nat b) (sb u))), word_of_nat (b + i) := replicate 512 0) \<and>
          same_meta u w \<and> keeps u w"
      by (rule Cons.IH [OF u(4) Cons.prems(2)]) (use Cons.prems(3,4) ff mu in simp_all)
    then show ?thesis
    proof (cases "find_free (view u) (sb u) bs")
      case (Some p)
      obtain c i where p: "p = (c, i)" by (cases p)
      from IH obtain w where w: "balloc_loop 1 bs u = Some (word_of_nat (c + i), w)"
        "in_trans w start (add_block (word_of_nat (c + i)) (add_block (BBLOCK (word_of_nat c) (sb u)) bl)) U"
        "view w = (view u)(BBLOCK (word_of_nat c) (sb u) := set_bit_used i (view u (BBLOCK (word_of_nat c) (sb u))), word_of_nat (c + i) := replicate 512 0)"
        "same_meta u w" "keeps u w" unfolding Some p by auto
      show ?thesis unfolding eq ff Some p prod.case option.case
        using w mu(1) u(5) same_meta_trans [OF u(7) w(4)] keeps_trans [OF u(8) w(5)] by (intro exI [of _ w]) simp
    qed (use eq ff IH in simp)
  next
    case (Some i)
    from find_SomeD [OF this] have i: "i < 4096" "?P i" by auto
    let ?x = "word_of_nat (b + i) :: u32"
    have ff: "find_free (view s) (sb s) (b # bs) = Some (b, i)" using Some by simp
    then have x: "?x \<notin> U" "?x < disksize s" using Cons.prems(4) by simp_all
    have lu: "length (set_bit_used i (view s ?B)) = 512" using bit_free_used(2) [OF len i(1), of 0] by simp
    obtain k t u w where w: "bread 1 ?B s = Some (k, t)" "b_data (bufs t ! k) = view s ?B" "same_meta s t"
        "log_write k (upd_buf k (\<lambda>bf. bf\<lparr>b_data := set_bit_used i (b_data bf)\<rparr>) t) = Some u" "brelse k u = Some w"
        "in_trans w start (add_block ?B bl) U" "view w = (view s)(?B := set_bit_used i (view s ?B))" "same_meta s w" "keeps s w"
      by (rule trans_update [where f = "set_bit_used i", OF Cons.prems(1) r(2) B lu])
    have rw: "room 1 (add_block ?B bl) U" using room_add(1) [OF r(3) fin] by simp
    obtain z where z: "bzero 1 ?x w = Some z" "in_trans z start (add_block ?x (add_block ?B bl)) U" "view z = (view w)(?x := replicate 512 0)" "same_meta w z" "keeps w z"
      by (rule bzero_ok [OF w(6) rw x(1)]) (use x(2) same_metaD(6) [OF w(8)] in simp)
    have "balloc_loop 1 (b # bs) s = Some (?x, z)" using w(1,2,4,5) z(1) Some same_metaD(1) [OF w(3)] by simp
    then show ?thesis unfolding ff using z w(7) same_meta_trans [OF w(8) z(4)] keeps_trans [OF w(9) z(5)] by simp
  qed
qed

text \<open>On the list of all bitmap blocks the search finds the first free block.\<close>

lemma find_free_spec:
  fixes r :: superblock
  defines "N \<equiv> unat (sb_size r)"
  shows "case find_free v r (map (\<lambda>k. 4096 * k) [j..<(N + 4095) div 4096]) of
      None \<Rightarrow> \<forall>x. 4096 * j \<le> x \<and> x < N \<longrightarrow> \<not> bit_free (v (BBLOCK (word_of_nat x) r)) (x mod 4096)
    | Some (b, i) \<Rightarrow> b + i < N \<and> i < 4096 \<and> b mod 4096 = 0 \<and> bit_free (v (BBLOCK (word_of_nat (b + i)) r)) ((b + i) mod 4096)
        \<and> (\<forall>x. 4096 * j \<le> x \<and> x < b + i \<longrightarrow> \<not> bit_free (v (BBLOCK (word_of_nat x) r)) (x mod 4096))"
proof (induction "(N + 4095) div 4096 - j" arbitrary: j)
  case 0
  then have "N \<le> 4096 * j" by linarith
  then show ?case using 0 by auto
next
  case (Suc m)
  then have j: "j < (N + 4095) div 4096" by simp
  then have sz: "4096 * j < N" by linarith
  have szb: "N < 2 ^ 32" unfolding N_def using unsigned_less [of "sb_size r"] by simp
  let ?P = "bit_free (v (BBLOCK (word_of_nat (4096 * j)) r))" and ?n = "min 4096 (N - 4096 * j)"
  have up: "[j..<(N + 4095) div 4096] = j # [Suc j..<(N + 4095) div 4096]" using j by (rule upt_conv_Cons)
  have same: "BBLOCK (word_of_nat (4096 * j + i)) r = BBLOCK (word_of_nat (4096 * j)) r" if "i < ?n" for i
  proof -
    have "unat (word_of_nat (4096 * j + i) :: u32) = 4096 * j + i" by (rule unat_word_small) (use that szb sz in auto)
    moreover have "unat (word_of_nat (4096 * j) :: u32) = 4096 * j" by (rule unat_word_small) (use that szb sz in auto)
    ultimately have "unat (word_of_nat (4096 * j + i) div 4096 :: u32) = j" "unat (word_of_nat (4096 * j) div 4096 :: u32) = j"
      using that by (simp_all add: unat_div del: of_nat_add of_nat_mult)
    then have "word_of_nat (4096 * j + i) div 4096 = (word_of_nat (4096 * j) div 4096 :: u32)" unfolding word_unat_eq_iff by simp
    then show ?thesis by (simp only: same_bitmap)
  qed
  show ?case
  proof (cases "find ?P [0..<?n]")
    case (Some i)
    then have "i < ?n" "?P i" "\<forall>x < i. \<not> ?P x" by (auto simp: find_Some_iff nth_append dest: order_less_trans)
    moreover have "\<not> bit_free (v (BBLOCK (word_of_nat x) r)) (x mod 4096)" if "4096 * j \<le> x" "x < 4096 * j + i" for x
    proof -
      define y where "y = x - 4096 * j"
      have y: "x = 4096 * j + y" "y < i" using that by (simp_all add: y_def)
      then have "y < ?n" using \<open>i < ?n\<close> by linarith
      from same [OF this] show ?thesis using y \<open>y < ?n\<close> \<open>\<forall>x < i. \<not> ?P x\<close> by simp
    qed
    moreover have "4096 * j + i < N" using \<open>i < ?n\<close> by auto
    ultimately show ?thesis using Some same by (simp add: up N_def [symmetric])
  next
    case None
    have none: "\<not> bit_free (v (BBLOCK (word_of_nat x) r)) (x mod 4096)" if "4096 * j \<le> x" "x < 4096 * Suc j" "x < N" for x
    proof -
      define y where "y = x - 4096 * j"
      have y: "x = 4096 * j + y" "y < ?n" using that by (auto simp: y_def)
      have "\<not> ?P y" using None y(2) by (auto simp: find_None_iff)
      then show ?thesis using same [OF y(2)] y by simp
    qed
    have "m = (N + 4095) div 4096 - Suc j" using Suc.hyps(2) by simp
    note IH = Suc.hyps(1) [OF this]
    have "find_free v r (map (\<lambda>k. 4096 * k) [j..<(N + 4095) div 4096]) = find_free v r (map (\<lambda>k. 4096 * k) [Suc j..<(N + 4095) div 4096])"
      using None by (simp add: up N_def [symmetric])
    moreover have "\<not> bit_free (v (BBLOCK (word_of_nat x) r)) (x mod 4096)"
      if "\<forall>x. 4096 * Suc j \<le> x \<and> x < M \<longrightarrow> \<not> bit_free (v (BBLOCK (word_of_nat x) r)) (x mod 4096)" "M \<le> N" "4096 * j \<le> x" "x < M" for x M
      using none [OF that(3)] that by (cases "x < 4096 * Suc j") auto
    ultimately show ?thesis using IH by (auto split: option.splits)
  qed
qed

lemma used_after:
  assumes "view w = (view s)(BBLOCK x (sb s) := set_bit_used i (view s (BBLOCK x (sb s))), x := replicate 512 0)" "sb w = sb s"
    "x \<notin> bitmap_blocks s \<and> unat (x mod 4096) = i \<and> length (view s (BBLOCK x (sb s))) = 512" "c < sb_size (sb s)"
  shows "block_used w c \<longleftrightarrow> block_used s c \<or> c = x"
proof -
  have "BBLOCK c (sb s) \<noteq> x" using assms(3,4) by (auto simp: bitmap_blocks_def)
  then have v: "view w (BBLOCK c (sb s)) = (if c div 4096 = x div 4096 then set_bit_used i (view s (BBLOCK x (sb s))) else view s (BBLOCK c (sb s)))"
    using assms(1) by (simp add: same_bitmap)
  show ?thesis
  proof (cases "c div 4096 = x div 4096")
    case True
    then have "BBLOCK c (sb s) = BBLOCK x (sb s)" by (simp only: same_bitmap)
    then show ?thesis using v True assms(2,3) bit_free_used(1) [of _ "unat (x mod 4096)", OF _ mod_small mod_small] u32_parts [OF True] by (auto simp: block_used_def)
  next
    case False
    then show ?thesis using v assms(2) by (auto simp: block_used_def)
  qed
qed

lemma balloc_ok:
  assumes "in_trans s start bl U" "room 2 bl U" "bitmap_ok s U"
  shows "if \<exists>b < sb_size (sb s). \<not> block_used s b
    then \<exists>b w. balloc 1 s = Some (b, w) \<and> b < sb_size (sb s) \<and> \<not> block_used s b \<and> (\<forall>c < b. block_used s c) \<and>
        in_trans w start (add_block b (add_block (BBLOCK b (sb s)) bl)) U \<and> (\<forall>c < sb_size (sb s). block_used w c \<longleftrightarrow> block_used s c \<or> c = b) \<and>
        view w b = replicate 512 0 \<and> (\<forall>c. c \<notin> bitmap_blocks s \<and> c \<noteq> b \<longrightarrow> view w c = view s c) \<and> same_meta s w \<and> keeps s w
    else balloc 1 s = None"
proof -
  let ?N = "unat (sb_size (sb s))"
  let ?bs = "map (\<lambda>k. 4096 * k) [0..<(?N + 4095) div 4096]"
  have N: "?N < 4294967296" using unsigned_less [of "sb_size (sb s)"] by simp
  have used: "block_used s (word_of_nat x) \<longleftrightarrow> \<not> bit_free (view s (BBLOCK (word_of_nat x) (sb s))) (x mod 4096)" if "x < ?N" for x
    using unat_word_small [of x] that N by (simp add: block_used_def unat_mod)
  have small: "word_of_nat x < sb_size (sb s) \<longleftrightarrow> x < ?N" if "x < 4294967296" for x using unat_word_small [OF that] by (simp add: word_less_nat_alt)
  have ex: "(\<exists>b < sb_size (sb s). \<not> block_used s b) \<longleftrightarrow> (\<exists>x < ?N. \<not> block_used s (word_of_nat x))"
  proof
    assume "\<exists>b < sb_size (sb s). \<not> block_used s b"
    then obtain b where "b < sb_size (sb s)" "\<not> block_used s b" by blast
    then show "\<exists>x < ?N. \<not> block_used s (word_of_nat x)" by (intro exI [of _ "unat b"]) (simp add: word_less_nat_alt)
  next
    assume "\<exists>x < ?N. \<not> block_used s (word_of_nat x)"
    then obtain x where "x < ?N" "\<not> block_used s (word_of_nat x)" by blast
    then show "\<exists>b < sb_size (sb s). \<not> block_used s b" using small [of x] N by (intro exI [of _ "word_of_nat x"]) simp
  qed
  note spec = find_free_spec [where v = "view s" and r = "sb s" and j = 0]
  have free_ok: "word_of_nat (b + i) \<notin> U \<and> word_of_nat (b + i) \<notin> bitmap_blocks s \<and> word_of_nat (b + i) < sb_size (sb s) \<and> \<not> block_used s (word_of_nat (b + i))"
    if "find_free (view s) (sb s) ?bs = Some (b, i)" for b i
  proof -
    have bi: "b + i < ?N" "bit_free (view s (BBLOCK (word_of_nat (b + i)) (sb s))) ((b + i) mod 4096)" using spec that by auto
    then have "\<not> block_used s (word_of_nat (b + i))" "word_of_nat (b + i) < sb_size (sb s)" using used [OF bi(1)] small [of "b + i"] N by auto
    then show ?thesis using assms(3) by (auto simp: bitmap_ok_def)
  qed
  have "b \<in> set ?bs \<Longrightarrow> b < ?N" for b by auto
  then have blk: "BBLOCK (word_of_nat b) (sb s) \<in> bitmap_blocks s" if "b \<in> set ?bs" for b
    using that small [of b] N by (auto simp: bitmap_blocks_def)
  have loop: "case find_free (view s) (sb s) ?bs of None \<Rightarrow> balloc_loop 1 ?bs s = None
    | Some (b, i) \<Rightarrow> \<exists>w. balloc_loop 1 ?bs s = Some (word_of_nat (b + i), w) \<and>
        in_trans w start (add_block (word_of_nat (b + i)) (add_block (BBLOCK (word_of_nat b) (sb s)) bl)) U \<and>
        view w = (view s)(BBLOCK (word_of_nat b) (sb s) := set_bit_used i (view s (BBLOCK (word_of_nat b) (sb s))), word_of_nat (b + i) := replicate 512 0) \<and>
        same_meta s w \<and> keeps s w"
  proof (rule balloc_loop_ok [OF assms(1,2)])
    show "BBLOCK (word_of_nat b) (sb s) \<notin> U \<and> BBLOCK (word_of_nat b) (sb s) < disksize s" if "b \<in> set ?bs" for b
      using blk [OF that] assms(3) by (simp add: bitmap_ok_def)
    show "word_of_nat (b + i) \<notin> U \<and> word_of_nat (b + i) < disksize s" if "find_free (view s) (sb s) ?bs = Some (b, i)" for b i
      using free_ok [OF that] assms(3) by (auto simp: bitmap_ok_def)
  qed
  show ?thesis
  proof (cases "find_free (view s) (sb s) ?bs")
    case None
    then have "\<forall>x < ?N. block_used s (word_of_nat x)" using spec used by simp
    then show ?thesis using ex loop None by (simp add: balloc_def)
  next
    case (Some p)
    obtain b i where p: "p = (b, i)" by (cases p)
    let ?x = "word_of_nat (b + i) :: u32"
    have bi: "b + i < ?N" "i < 4096" "b mod 4096 = 0" "\<forall>x < b + i. \<not> bit_free (view s (BBLOCK (word_of_nat x) (sb s))) (x mod 4096)" using spec Some p by auto
    obtain k where k: "b = 4096 * k" using bi(3) by auto
    have xn: "unat ?x = b + i" by (rule unat_word_small) (use bi(1) N in simp)
    note fo = free_ok [OF Some [unfolded p]]
    have bx: "word_of_nat b div 4096 = ?x div 4096"
    proof -
      have "unat (word_of_nat b :: u32) = b" by (rule unat_word_small) (use bi(1) N in simp)
      moreover have "(b + i) div 4096 = b div 4096" using bi(2) k by simp
      ultimately have "unat (word_of_nat b div 4096 :: u32) = unat (?x div 4096)" using xn by (simp add: unat_div del: of_nat_add)
      then show ?thesis by (simp only: word_unat_eq_iff)
    qed
    then have B: "BBLOCK (word_of_nat b) (sb s) = BBLOCK ?x (sb s)" by (simp only: same_bitmap)
    have i: "unat (?x mod 4096) = i" using xn bi(2) k by (simp add: unat_mod del: of_nat_add)
    obtain w where w: "balloc_loop 1 ?bs s = Some (?x, w)" "in_trans w start (add_block ?x (add_block (BBLOCK ?x (sb s)) bl)) U"
      "view w = (view s)(BBLOCK ?x (sb s) := set_bit_used i (view s (BBLOCK ?x (sb s))), ?x := replicate 512 0)" "same_meta s w" "keeps s w"
      using loop unfolding Some p prod.case option.case B by blast
    have first: "block_used s c" if "c < ?x" for c
    proof -
      have "unat c < b + i" using that xn by (simp add: word_less_nat_alt del: of_nat_add)
      then show ?thesis using bi(1) bi(4) [rule_format, of "unat c"] used [of "unat c"] by simp
    qed
    have use: "block_used w c \<longleftrightarrow> block_used s c \<or> c = ?x" if "c < sb_size (sb s)" for c
      by (rule used_after [OF w(3) same_metaD(1) [OF w(4)] _ that]) (use fo i assms(1) length_view in \<open>auto simp: in_trans_def\<close>)
    have "BBLOCK ?x (sb s) \<in> bitmap_blocks s" using fo by (auto simp: bitmap_blocks_def)
    then have "view w c = view s c" if "c \<notin> bitmap_blocks s" "c \<noteq> ?x" for c using that w(3) by auto
    moreover have "\<exists>b < sb_size (sb s). \<not> block_used s b" using fo by blast
    moreover have "view w ?x = replicate 512 0" using w(3) by simp
    ultimately show ?thesis using w fo first use by (auto simp: balloc_def intro!: exI [of _ ?x] exI [of _ w])
  qed
qed

end
