(* ===== verification/Fs_Inode.thy ===== *)
theory Fs_Inode
  imports Fs_Trans
begin

text \<open>
  Inodes on disk: the encoding of an inode in its 64 bytes, and writing it with \<open>iupdate\<close> and reading it back with \<open>ilock\<close>.
  The claims about the block allocator are here too, with an example of a file system.
\<close>

section \<open>The encoding\<close>

lemma get_at_put:
  assumes "off + length v \<le> length d"
  shows "k < length v \<Longrightarrow> get8 (put d off v) (off + k) = get8 v k"
    "k + 2 \<le> length v \<Longrightarrow> get16 (put d off v) (off + k) = get16 v k"
    "k + 4 \<le> length v \<Longrightarrow> get32 (put d off v) (off + k) = get32 v k"
  using assms by (simp_all add: get16_def get32_def get8_put) (simp_all add: get8_def)

lemma get_append:
  "get8 (xs @ ys) (length xs + k) = get8 ys k" "get16 (xs @ ys) (length xs + k) = get16 ys k" "get32 (xs @ ys) (length xs + k) = get32 ys k"
  by (simp_all add: get16_def get32_def get8_def nth_append)

lemma get_bytes: "get16 (bytes16 h @ r) 0 = h" "get32 (bytes32 w @ r) 0 = w"
  by (simp_all add: get16_def get32_def get8_def bytes16_def bytes32_def join_bytes16 join_bytes32 nth_Cons')

lemma get32_list: "k < length ws \<Longrightarrow> get32 (concat (map bytes32 ws)) (4 * k) = ws ! k"
proof (induction ws arbitrary: k)
  case (Cons w ws)
  show ?case
  proof (cases k)
    case 0
    then show ?thesis by (simp add: get_bytes)
  next
    case (Suc j)
    then show ?thesis using Cons get_append(3) [of "bytes32 w" "concat (map bytes32 ws)" "4 * j"] by simp
  qed
qed simp

lemma length_dinode_bytes: "length (di_addrs di) = 13 \<Longrightarrow> length (dinode_bytes di) = 64"
proof -
  assume "length (di_addrs di) = 13"
  moreover have "length (concat (map bytes32 ws)) = 4 * length ws" for ws by (induction ws) simp_all
  ultimately show ?thesis by (simp add: dinode_bytes_def)
qed

lemma decode_encode_dinode:
  assumes "length (di_addrs di) = 13" "off + 64 \<le> length d"
  shows "decode_dinode (put d off (dinode_bytes di)) off = di"
proof -
  let ?v = "dinode_bytes di" and ?a = "concat (map bytes32 (di_addrs di))"
  note len = length_dinode_bytes [OF assms(1)]
  have "off + length ?v \<le> length d" using assms(2) len by simp
  note at = get_at_put [OF this, unfolded len]
  let ?r1 = "bytes16 (di_major di) @ bytes16 (di_minor di) @ bytes16 (di_nlink di) @ bytes32 (di_size di) @ ?a"
  have "get16 ?v 0 = di_type di" by (simp add: dinode_bytes_def get_bytes)
  moreover have "get16 ?v 2 = di_major di"
    using get_append(2) [of "bytes16 (di_type di)" ?r1 0] by (simp add: dinode_bytes_def get_bytes)
  moreover have "get16 ?v 4 = di_minor di"
    using get_append(2) [of "bytes16 (di_type di) @ bytes16 (di_major di)" "bytes16 (di_minor di) @ bytes16 (di_nlink di) @ bytes32 (di_size di) @ ?a" 0]
    by (simp add: dinode_bytes_def get_bytes)
  moreover have "get16 ?v 6 = di_nlink di"
    using get_append(2) [of "bytes16 (di_type di) @ bytes16 (di_major di) @ bytes16 (di_minor di)" "bytes16 (di_nlink di) @ bytes32 (di_size di) @ ?a" 0]
    by (simp add: dinode_bytes_def get_bytes)
  moreover have "get32 ?v 8 = di_size di"
    using get_append(3) [of "bytes16 (di_type di) @ bytes16 (di_major di) @ bytes16 (di_minor di) @ bytes16 (di_nlink di)" "bytes32 (di_size di) @ ?a" 0]
    by (simp add: dinode_bytes_def get_bytes)
  moreover have "get32 ?v (12 + 4 * k) = di_addrs di ! k" if "k < 13" for k
    using get_append(3) [of "bytes16 (di_type di) @ bytes16 (di_major di) @ bytes16 (di_minor di) @ bytes16 (di_nlink di) @ bytes32 (di_size di)" ?a "4 * k"]
      get32_list [of k "di_addrs di"] that assms(1) by (simp add: dinode_bytes_def)
  ultimately have "decode_dinode (put d off ?v) off = \<lparr>di_type = di_type di, di_major = di_major di, di_minor = di_minor di, di_nlink = di_nlink di,
      di_size = di_size di, di_addrs = map (\<lambda>k. di_addrs di ! k) [0..<13]\<rparr>"
    using at(2) [of 0] at(2) [of 2] at(2) [of 4] at(2) [of 6] at(3) [of 8] at(3) [of "12 + 4 * _"] by (simp add: decode_dinode_def add.assoc)
  moreover have "map (\<lambda>k. di_addrs di ! k) [0..<13] = di_addrs di" using assms(1) by (metis map_nth)
  ultimately show ?thesis by simp
qed

text \<open>The other inodes of the block are not touched.\<close>

lemma decode_other_dinode:
  assumes "off + length v \<le> length d" "j + 64 \<le> off \<or> off + length v \<le> j"
  shows "decode_dinode (put d off v) j = decode_dinode d j"
proof -
  have g: "get16 (put d off v) (j + k) = get16 d (j + k)" if "k + 2 \<le> 64" for k using assms that by (intro get16_put_other) auto
  moreover have "get32 (put d off v) (j + k) = get32 d (j + k)" if "k + 4 \<le> 64" for k using assms that by (intro get32_put_other) auto
  ultimately show ?thesis using g [of 0] g [of 2] g [of 4] g [of 6] by (simp add: decode_dinode_def add.assoc)
qed

section \<open>Writing and reading an inode\<close>

lemma upd_inode_fields [simp]:
  "bufs (upd_inode i f s) = bufs s" "disk (upd_inode i f s) = disk s" "logs (upd_inode i f s) = logs s" "sb (upd_inode i f s) = sb s"
  "disksize (upd_inode i f s) = disksize s" "fs_pid (upd_inode i f s) = fs_pid s" "icache (upd_inode i f s) = (icache s)[i := f (icache s ! i)]"
  by (simp_all add: upd_inode_def)

lemma upd_inode_trans [simp]: "in_trans (upd_inode i f s) start bl U = in_trans s start bl U" "view (upd_inode i f s) = view s"
proof -
  have b: "bufs (upd_inode i f s) = bufs s" "disk (upd_inode i f s) = disk s" "bnext (upd_inode i f s) = bnext s" "bprev (upd_inode i f s) = bprev s"
    by (simp_all add: upd_inode_def)
  note c = contents_cong [OF b(1,2)]
  show "in_trans (upd_inode i f s) start bl U = in_trans s start bl U" unfolding in_trans_def cache_ok_def c mru_def b log_at_def by simp
  show "view (upd_inode i f s) = view s" by (rule c)
qed

lemma brelse_upd_inode: "brelse b (upd_inode i f s) = map_option (upd_inode i f) (brelse b s)"
  by (simp add: brelse_def panic_def upd_inode_def upd_buf_def wake_def link_first_def unlink_buf_def Let_def)

lemma inode_off_le: "inode_off n + 64 \<le> 512"
proof -
  have "unat (n mod 8) < 8" by (simp add: unat_mod)
  then show ?thesis by (simp add: inode_off_def)
qed

lemma iupdate_ok:
  assumes "in_trans s start bl U" "room 1 bl U" "i_dev (icache s ! i) = 1" "length (i_addrs (icache s ! i)) = 13"
    "B = IBLOCK (i_inum (icache s ! i)) (sb s)" "B \<notin> U" "B < disksize s"
  obtains w where "iupdate i s = Some w" "in_trans w start (add_block B bl) U" "same_meta s w"
    "view w = (view s)(B := put (view s B) (inode_off (i_inum (icache s ! i))) (dinode_bytes (inode_dinode (icache s ! i))))"
proof -
  let ?f = "\<lambda>d. put d (inode_off (i_inum (icache s ! i))) (dinode_bytes (inode_dinode (icache s ! i)))"
  have r1: "room (Suc 0) bl U" using assms(2) by simp
  have len: "length (?f (view s B)) = 512" using assms(1) length_view by (auto simp: in_trans_def)
  obtain k t u w where w: "bread 1 B s = Some (k, t)" "b_data (bufs t ! k) = view s B" "same_meta s t"
      "log_write k (upd_buf k (\<lambda>bf. bf\<lparr>b_data := ?f (b_data bf)\<rparr>) t) = Some u" "brelse k u = Some w"
      "in_trans w start (add_block B bl) U" "view w = (view s)(B := ?f (view s B))" "same_meta s w" "keeps s w"
    by (rule trans_update [where f = ?f, OF assms(1) r1 assms(6,7) len])
  have "iupdate i s = Some w" using w(1,4,5) assms(3,5) by (simp add: iupdate_def Let_def)
  then show thesis using that w(6-8) by blast
qed

lemma ilock_read_ok:
  assumes "in_trans s start bl U" "room 0 bl U" "i < length (icache s)" "i_dev (icache s ! i) = 1"
    "B = IBLOCK (i_inum (icache s ! i)) (sb s)" "B \<notin> U" "B < disksize s" "di = decode_dinode (view s B) (inode_off (i_inum (icache s ! i)))"
  shows "if di_type di = 0 then ilock_read i s = None
    else \<exists>w. ilock_read i s = Some w \<and> in_trans w start bl U \<and> view w = view s \<and> inode_dinode (icache w ! i) = di \<and> i_valid (icache w ! i)"
proof -
  obtain k t u where u: "bread 1 B s = Some (k, t)" "b_data (bufs t ! k) = view s B" "brelse k t = Some u"
    "in_trans u start bl U" "view u = view s" "same_meta s t" "same_meta s u" "keeps s u"
    by (rule trans_read [OF assms(1,2,6,7)])
  let ?g = "\<lambda>ip. ip\<lparr>i_type := di_type di, i_major := di_major di, i_minor := di_minor di, i_nlink := di_nlink di, i_size := di_size di, i_addrs := di_addrs di\<rparr>"
  let ?w = "upd_inode i (\<lambda>ip. ip\<lparr>i_valid := True\<rparr>) (upd_inode i ?g u)"
  have "ilock_read i s = (if di_type di = 0 then panic ''ilock: no type'' else Some ?w)"
    using u(1-3) assms(4,5,8) by (simp add: ilock_read_def Let_def brelse_upd_inode)
  moreover have "icache u = icache s" by (rule same_metaD(2) [OF u(7)])
  ultimately show ?thesis using u(4,5) assms(3) by (simp add: inode_dinode_def panic_def)
qed

text \<open>
  C22: an inode survives its way through the disk. \<open>iupdate\<close> inside a transaction succeeds, changes no block but that of the inode and there
  no other inode, and a later \<open>ilock\<close> that reads the inode again finds every field that \<open>iupdate\<close> stored.
\<close>

theorem inode_roundtrip:
  assumes "in_trans s start bl U" "room 1 bl U" "i < length (icache s)" "i_dev (icache s ! i) = 1" "length (i_addrs (icache s ! i)) = 13"
    "i_type (icache s ! i) \<noteq> 0" "B = IBLOCK (i_inum (icache s ! i)) (sb s)" "B \<notin> U" "B < disksize s"
    "i_dev q = 1" "i_inum q = i_inum (icache s ! i)"
  shows "\<exists>w z. iupdate i s = Some w \<and> (\<forall>c. c \<noteq> B \<longrightarrow> view w c = view s c) \<and>
    (\<forall>n. n mod 8 \<noteq> i_inum q mod 8 \<longrightarrow> decode_dinode (view w B) (inode_off n) = decode_dinode (view s B) (inode_off n)) \<and>
    ilock_read i (upd_inode i (\<lambda>_. q) w) = Some z \<and> inode_dinode (icache z ! i) = inode_dinode (icache s ! i) \<and> i_valid (icache z ! i)"
proof -
  let ?n = "i_inum (icache s ! i)" and ?di = "inode_dinode (icache s ! i)"
  obtain w where w: "iupdate i s = Some w" "in_trans w start (add_block B bl) U" "same_meta s w" "view w = (view s)(B := put (view s B) (inode_off ?n) (dinode_bytes ?di))"
    by (rule iupdate_ok [OF assms(1,2,4,5,7-9)])
  have ad: "length (di_addrs ?di) = 13" using assms(5) by (simp add: inode_dinode_def)
  have len: "length (view s B) = 512" using assms(1) length_view by (auto simp: in_trans_def)
  have dec: "decode_dinode (view w B) (inode_off ?n) = ?di"
    using decode_encode_dinode [OF ad, of "inode_off ?n" "view s B"] inode_off_le [of ?n] len w(4) by simp
  have fit: "inode_off ?n + length (dinode_bytes ?di) \<le> length (view s B)" using length_dinode_bytes [OF ad] inode_off_le [of ?n] len by simp
  have other: "decode_dinode (view w B) (inode_off n) = decode_dinode (view s B) (inode_off n)" if "n mod 8 \<noteq> i_inum q mod 8" for n
  proof -
    have "unat (n mod 8) \<noteq> unat (?n mod 8)" using that assms(11) by (simp add: word_unat_eq_iff)
    then have "inode_off n + 64 \<le> inode_off ?n \<or> inode_off ?n + 64 \<le> inode_off n" unfolding inode_off_def by linarith
    then show ?thesis using decode_other_dinode [OF fit, of "inode_off n"] length_dinode_bytes [OF ad] w(4) by simp
  qed
  note m = same_metaD [OF w(3)]
  let ?w = "upd_inode i (\<lambda>_. q) w"
  have fin: "finite U" using assms(1) by (simp add: in_trans_def)
  have t: "in_trans ?w start (add_block B bl) U" using w(2) by simp
  have r0: "room 0 (add_block B bl) U" using room_add(1) [OF _ fin] assms(2) by simp
  have iq: "icache ?w ! i = q" "i < length (icache ?w)" using assms(3) m(2) by simp_all
  from ilock_read_ok [OF t r0 iq(2), unfolded iq(1), OF assms(10) refl _ _ refl] obtain z where
    "ilock_read i ?w = Some z" "inode_dinode (icache z ! i) = ?di" "i_valid (icache z ! i)"
    using dec assms(6-9,11) m by (auto simp: inode_dinode_def split: if_splits)
  then show ?thesis using w(1,4) other by auto
qed

text \<open>
  C14: inside a transaction the bitmap on disk is a set of used blocks. \<open>balloc\<close> returns the first free block, zeroed, and marks exactly it,
  touching no other block outside the bitmap; it panics only when every block is in use. \<open>bfree\<close> of a block in use unmarks exactly it, and of a free
  block it panics.
\<close>

theorem block_allocator:
  assumes "in_trans s start bl U" "room 2 bl U" "bitmap_ok s U"
  shows "(if \<exists>b < sb_size (sb s). \<not> block_used s b
      then \<exists>b w. balloc 1 s = Some (b, w) \<and> b < sb_size (sb s) \<and> \<not> block_used s b \<and> (\<forall>c < b. block_used s c) \<and>
        in_trans w start (add_block b (add_block (BBLOCK b (sb s)) bl)) U \<and> (\<forall>c < sb_size (sb s). block_used w c \<longleftrightarrow> block_used s c \<or> c = b) \<and>
        view w b = replicate 512 0 \<and> (\<forall>c. c \<notin> bitmap_blocks s \<and> c \<noteq> b \<longrightarrow> view w c = view s c)
      else balloc 1 s = None) \<and>
    (\<forall>b < sb_size (sb s). if block_used s b
      then \<exists>w. bfree 1 b s = Some w \<and> in_trans w start (add_block (BBLOCK b (sb s)) bl) U \<and>
        (\<forall>c < sb_size (sb s). block_used w c \<longleftrightarrow> block_used s c \<and> c \<noteq> b) \<and> (\<forall>c. c \<notin> bitmap_blocks s \<longrightarrow> view w c = view s c)
      else bfree 1 b s = None)"
proof -
  have r: "room 1 bl U" using assms(2) by (simp add: room_def)
  have a: "if \<exists>b < sb_size (sb s). \<not> block_used s b
      then \<exists>b w. balloc 1 s = Some (b, w) \<and> b < sb_size (sb s) \<and> \<not> block_used s b \<and> (\<forall>c < b. block_used s c) \<and>
        in_trans w start (add_block b (add_block (BBLOCK b (sb s)) bl)) U \<and> (\<forall>c < sb_size (sb s). block_used w c \<longleftrightarrow> block_used s c \<or> c = b) \<and>
        view w b = replicate 512 0 \<and> (\<forall>c. c \<notin> bitmap_blocks s \<and> c \<noteq> b \<longrightarrow> view w c = view s c)
      else balloc 1 s = None"
    using balloc_ok [OF assms] by (cases "\<exists>b < sb_size (sb s). \<not> block_used s b") (simp_all only: if_True if_False, blast)
  have f: "if block_used s b
      then \<exists>w. bfree 1 b s = Some w \<and> in_trans w start (add_block (BBLOCK b (sb s)) bl) U \<and>
        (\<forall>c < sb_size (sb s). block_used w c \<longleftrightarrow> block_used s c \<and> c \<noteq> b) \<and> (\<forall>c. c \<notin> bitmap_blocks s \<longrightarrow> view w c = view s c)
      else bfree 1 b s = None" if "b < sb_size (sb s)" for b
    using bfree_ok [OF assms(1) r assms(3) that] by (cases "block_used s b") (simp_all only: if_True if_False, blast)
  show ?thesis using a f by blast
qed

section \<open>An example\<close>

text \<open>A file system of 100 blocks whose bitmap, block 58, has the first 64 blocks in use; inodes start at block 32; inode 5 is in the cache.\<close>

definition sample_bitmap :: block where
  "sample_bitmap = replicate 8 0xff @ replicate 504 0"

definition sample_inode :: inode where
  "sample_inode = \<lparr>i_dev = 1, i_inum = 5, i_ref = 1, i_lock = \<lparr>sl_locked = False, sl_name = [], sl_pid = 0\<rparr>, i_valid = True, i_type = 2, i_major = 0,
     i_minor = 0, i_nlink = 1, i_size = 700, i_addrs = [70, 71] @ replicate 11 0\<rparr>"

definition sample_fs :: fsys where
  "sample_fs = binit (sample_raw\<lparr>disk := sample_disk(58 := sample_bitmap),
     sb := \<lparr>sb_size = 100, sb_nblocks = 41, sb_ninodes = 200, sb_nlog = 30, sb_logstart = 2, sb_inodestart = 32, sb_bmapstart = 58\<rparr>, icache := [sample_inode]\<rparr>)"

lemma sample_fs_fields:
  "disk sample_fs = sample_disk(58 := sample_bitmap)" "disksize sample_fs = 1000" "logs sample_fs = sample_log" "icache sample_fs = [sample_inode]"
  "sb sample_fs = \<lparr>sb_size = 100, sb_nblocks = 41, sb_ninodes = 200, sb_nlog = 30, sb_logstart = 2, sb_inodestart = 32, sb_bmapstart = 58\<rparr>"
proof -
  have b: "icache (binit s) = icache s \<and> sb (binit s) = sb s" for s :: fsys
  proof -
    have l: "icache (link_first b t) = icache t \<and> sb (link_first b t) = sb t" for b and t :: fsys using same_but_cacheD(7,8) [OF same_but_cache_link(1), of b t] by simp
    have "icache (fold (\<lambda>b s. link_first b (upd_buf b (\<lambda>bf. bf\<lparr>b_lock := initsleeplock ''buffer'' (b_lock bf)\<rparr>) s)) xs t) = icache t
      \<and> sb (fold (\<lambda>b s. link_first b (upd_buf b (\<lambda>bf. bf\<lparr>b_lock := initsleeplock ''buffer'' (b_lock bf)\<rparr>) s)) xs t) = sb t" for xs and t :: fsys
      by (induction xs arbitrary: t) (simp_all add: l)
    then show ?thesis by (simp add: binit_def Let_def)
  qed
  show "disk sample_fs = sample_disk(58 := sample_bitmap)" "disksize sample_fs = 1000" "logs sample_fs = sample_log" "icache sample_fs = [sample_inode]"
    "sb sample_fs = \<lparr>sb_size = 100, sb_nblocks = 41, sb_ninodes = 200, sb_nlog = 30, sb_logstart = 2, sb_inodestart = 32, sb_bmapstart = 58\<rparr>"
    by (simp_all add: sample_fs_def binit_fields b) (simp_all add: sample_raw_def)
qed

lemma sample_fs_trans: "in_trans sample_fs 2 [] {}"
proof -
  have "booted sample_fs" unfolding booted_def sample_fs_def
    by (intro exI conjI) (rule refl, simp_all add: sample_raw_def)
  moreover have "length (disk sample_fs b) = 512" for b using sample_disk_length by (simp add: sample_fs_fields sample_bitmap_def)
  ultimately have "cache_ok sample_fs" "dirty sample_fs = (\<lambda>_. False)" "in_use sample_fs = (\<lambda>_. False)" by (rule booted_cache)+
  then show ?thesis by (simp add: in_trans_def log_at_def sample_fs_fields) (simp add: sample_log_def)
qed

lemma sample_fs_view: "view sample_fs b = disk sample_fs b"
  using sample_fs_trans view_clean [of sample_fs b] by (simp add: in_trans_def)

lemma sample_fs_used: "b < 100 \<Longrightarrow> block_used sample_fs b \<longleftrightarrow> b < 64"
proof -
  assume b: "b < 100"
  then have n: "unat b < 100" by (simp add: word_less_nat_alt)
  then have d: "b div 4096 = 0" "unat (b mod 4096) = unat b" by (simp_all add: word_unat_eq_iff unat_div unat_mod)
  have "bit (0xff :: u8) (unat b mod 8)" using bit_mask_iff [of 8 "unat b mod 8", where 'a = "8 word"] by (simp add: mask_eq_exp_minus_1)
  moreover have "unat b div 8 < 8 \<longleftrightarrow> unat b < 64" by (simp add: div_less_iff_less_mult)
  moreover have "unat b div 8 < 512" using n by linarith
  ultimately have "bit (get8 sample_bitmap (unat b div 8)) (unat b mod 8) \<longleftrightarrow> unat b < 64"
    by (simp add: get8_def sample_bitmap_def nth_append)
  then show "block_used sample_fs b \<longleftrightarrow> b < 64"
    by (simp add: block_used_def bit_free_iff BBLOCK_def sample_fs_view sample_fs_fields d word_less_nat_alt)
qed

lemma sample_bitmap_ok: "bitmap_ok sample_fs {}"
proof -
  have "b div 4096 = 0" if "b < 100" for b :: u32 using that by (simp add: word_unat_eq_iff unat_div word_less_nat_alt)
  then have "bitmap_blocks sample_fs = {58}" by (auto simp: bitmap_blocks_def BBLOCK_def sample_fs_fields intro!: image_eqI [of _ _ 0])
  then show ?thesis using sample_fs_used [of 58] by (auto simp: bitmap_ok_def sample_fs_fields)
qed

theorem block_allocator_witness: "\<exists>w. balloc 1 sample_fs = Some (64, w) \<and> view w 64 = replicate 512 0"
proof -
  have "room 2 [] {}" by (simp add: room_def)
  note th = block_allocator [OF sample_fs_trans this sample_bitmap_ok]
  have "\<exists>b < sb_size (sb sample_fs). \<not> block_used sample_fs b" using sample_fs_used [of 64] by (intro exI [of _ 64]) (simp add: sample_fs_fields)
  then obtain b w where b: "balloc 1 sample_fs = Some (b, w)" "b < sb_size (sb sample_fs)" "\<not> block_used sample_fs b" "\<forall>c < b. block_used sample_fs c"
    "view w b = replicate 512 0" using th by auto
  have "b < 100" using b(2) by (simp add: sample_fs_fields)
  then have "64 \<le> b" using sample_fs_used [of b] b(3) by simp
  moreover have "\<not> 64 < b" using b(4) sample_fs_used [of 64] by auto
  ultimately have "b = 64" by simp
  then show ?thesis using b by simp
qed

theorem inode_roundtrip_witness:
  "\<exists>w z. iupdate 0 sample_fs = Some w \<and> ilock_read 0 (upd_inode 0 (\<lambda>_. sample_inode\<lparr>i_size := 0, i_valid := False\<rparr>) w) = Some z \<and> i_size (icache z ! 0) = 700"
proof -
  have r: "room 1 [] {}" by (simp add: room_def)
  have f: "0 < length (icache sample_fs)" "i_dev (icache sample_fs ! 0) = 1" "length (i_addrs (icache sample_fs ! 0)) = 13" "i_type (icache sample_fs ! 0) \<noteq> 0"
    "32 = IBLOCK (i_inum (icache sample_fs ! 0)) (sb sample_fs)" "32 \<notin> ({} :: u32 set)" "32 < disksize sample_fs"
    by (simp_all add: sample_fs_fields sample_inode_def IBLOCK_def)
  have q: "i_dev (sample_inode\<lparr>i_size := 0, i_valid := False\<rparr>) = 1" "i_inum (sample_inode\<lparr>i_size := 0, i_valid := False\<rparr>) = i_inum (icache sample_fs ! 0)"
    by (simp_all add: sample_fs_fields sample_inode_def)
  from inode_roundtrip [OF sample_fs_trans r f q] obtain w z where z: "iupdate 0 sample_fs = Some w"
    "ilock_read 0 (upd_inode 0 (\<lambda>_. sample_inode\<lparr>i_size := 0, i_valid := False\<rparr>) w) = Some z" "inode_dinode (icache z ! 0) = inode_dinode (icache sample_fs ! 0)"
    by blast
  have "i_size (icache z ! 0) = i_size (icache sample_fs ! 0)" using z(3) by (simp add: inode_dinode_def)
  then show ?thesis using z(1,2) by (auto simp: sample_fs_fields sample_inode_def)
qed

end
