(* ===== verification/Fs_Path.thy ===== *)
theory Fs_Path
  imports Fs Cstring
begin

text \<open>
  Path names: the elements that \<open>namex\<close> looks up one after the other are those of the path split at its slashes; and
  the comparison of names in a directory.
\<close>

section \<open>Path elements\<close>

lemma skipelem_less: "skipelem path = Some (el, rest) \<Longrightarrow> length rest < length path"
proof -
  let ?p = "dropWhile (\<lambda>c. c = 47) path"
  assume "skipelem path = Some (el, rest)"
  then have p: "?p \<noteq> []" "rest = dropWhile (\<lambda>c. c = 47) (dropWhile (\<lambda>c. c \<noteq> 47) ?p)" by (auto simp: skipelem_def Let_def split: if_splits)
  have "hd ?p \<noteq> 47" using hd_dropWhile [OF p(1)] by simp
  then obtain x xs where x: "?p = x # xs" "x \<noteq> 47" using p(1) by (cases ?p) auto
  have "length rest \<le> length xs" using p(2) x by (auto intro: order_trans [OF length_dropWhile_le] length_dropWhile_le)
  also have "\<dots> < length ?p" using x by simp
  also have "\<dots> \<le> length path" by (rule length_dropWhile_le)
  finally show ?thesis .
qed

text \<open>What the loop of \<open>namex\<close> gets from \<open>skipelem\<close> until it returns zero.\<close>

function (sequential) path_elems :: "u8 list \<Rightarrow> u8 list list" where
  "path_elems path = (case skipelem path of None \<Rightarrow> [] | Some (el, rest) \<Rightarrow> el # path_elems rest)"
  by pat_completeness auto

termination path_elems
  by (relation "measure length") (auto dest: skipelem_less)

declare path_elems.simps [simp del]

text \<open>The reference: split at every slash, drop the empty parts, cut each to \<open>DIRSIZ\<close> characters.\<close>

fun split_slash :: "u8 list \<Rightarrow> u8 list list" where
  "split_slash [] = [[]]"
| "split_slash (c # cs) = (if c = 47 then [] # split_slash cs else (case split_slash cs of p # ps \<Rightarrow> (c # p) # ps | [] \<Rightarrow> [[c]]))"

lemma split_nonempty: "split_slash cs \<noteq> []"
  by (induction cs) (auto split: list.splits)

lemma split_first:
  "47 \<notin> set el \<Longrightarrow> split_slash (el @ 47 # rest) = el # split_slash rest"
  "47 \<notin> set el \<Longrightarrow> split_slash el = [el]"
  by (induction el) auto

lemma split_skip: "filter (\<lambda>p. p \<noteq> []) (split_slash (dropWhile (\<lambda>c. c = 47) path)) = filter (\<lambda>p. p \<noteq> []) (split_slash path)"
  by (induction path) auto

lemma path_elems_split: "path_elems path = map (take 14) (filter (\<lambda>p. p \<noteq> []) (split_slash path))"
proof (induction path rule: path_elems.induct)
  case (1 path)
  let ?p = "dropWhile (\<lambda>c. c = 47) path"
  show ?case
  proof (cases "?p = []")
    case True
    then have "skipelem path = None" by (simp add: skipelem_def)
    then show ?thesis using split_skip [of path] True by (subst path_elems.simps) simp
  next
    case False
    define el where "el = takeWhile (\<lambda>c. c \<noteq> 47) ?p"
    define r where "r = dropWhile (\<lambda>c. c \<noteq> 47) ?p"
    have sk: "skipelem path = Some (take 14 el, dropWhile (\<lambda>c. c = 47) r)" using False by (simp add: skipelem_def Let_def el_def r_def)
    have el: "47 \<notin> set el" using set_takeWhileD [of 47 "\<lambda>c. c \<noteq> 47" ?p] by (auto simp: el_def)
    have ne: "el \<noteq> []" using False hd_dropWhile [OF False] by (cases ?p) (auto simp: el_def)
    have IH: "path_elems (dropWhile (\<lambda>c. c = 47) r) = map (take 14) (filter (\<lambda>p. p \<noteq> []) (split_slash r))" using 1 [OF sk refl] split_skip [of r] by simp
    have pe: "?p = el @ r" by (simp add: el_def r_def)
    have "filter (\<lambda>p. p \<noteq> []) (split_slash ?p) = el # filter (\<lambda>p. p \<noteq> []) (split_slash r)"
    proof (cases r)
      case Nil
      then show ?thesis using split_first(2) [OF el] ne pe by simp
    next
      case (Cons x xs)
      have "hd r = 47" using hd_dropWhile [of "\<lambda>c. c \<noteq> 47" ?p] Cons unfolding r_def by (metis list.distinct(1))
      then have "x = 47" using Cons by simp
      then show ?thesis using split_first(1) [OF el, of xs] ne pe Cons by simp
    qed
    then show ?thesis using split_skip [of path] IH sk by (subst path_elems.simps) simp
  qed
qed

text \<open>
  C32: \<open>skipelem\<close>, called until it returns zero as \<open>namex\<close> does, delivers the parts of the path between slashes in order, without the empty ones and
  each cut to \<open>DIRSIZ\<close> characters; it always ends, and the remaining path it returns is empty exactly at the last element, the test
  by which \<open>nameiparent\<close> stops one level early.
\<close>

theorem path_elements:
  "path_elems path = map (take 14) (filter (\<lambda>p. p \<noteq> []) (split_slash path)) \<and>
   (case skipelem path of None \<Rightarrow> path_elems path = [] | Some (el, rest) \<Rightarrow> path_elems path = el # path_elems rest \<and> (rest = [] \<longleftrightarrow> path_elems rest = []))"
proof -
  have "rest = [] \<longleftrightarrow> path_elems rest = []" if "skipelem path = Some (el, rest)" for el rest
  proof -
    have r: "rest = dropWhile (\<lambda>c. c = 47) (dropWhile (\<lambda>c. c \<noteq> 47) (dropWhile (\<lambda>c. c = 47) path))" using that by (auto simp: skipelem_def Let_def split: if_splits)
    have "dropWhile (\<lambda>c. c = 47) rest = rest" unfolding r by (rule dropWhile_idem)
    then have "skipelem rest = None \<longleftrightarrow> rest = []" by (auto simp: skipelem_def Let_def)
    then show ?thesis by (subst path_elems.simps) (auto split: option.splits)
  qed
  moreover have "case skipelem path of None \<Rightarrow> path_elems path = [] | Some (el, rest) \<Rightarrow> path_elems path = el # path_elems rest"
    by (subst (1 2) path_elems.simps) (auto split: option.splits)
  ultimately show ?thesis using path_elems_split [of path] by (cases "skipelem path") auto
qed

section \<open>Names\<close>

text \<open>\<open>namecmp\<close> on lists of characters is \<open>strncmp\<close> of the string library on the memory that holds them.\<close>

lemma namecmp_loop_strncmp: "namecmp_loop n (bytes_at m p n) (bytes_at m q n) = strncmp_loop m p q n"
  by (induction n arbitrary: p q) (simp_all add: bytes_at_Suc get8_def Let_def)

lemma namecmp_strncmp: "namecmp (bytes_at m p 14) (bytes_at m q 14) = strncmp m p q 14"
  by (simp add: namecmp_def strncmp_def namecmp_loop_strncmp)

lemma namecmp_eq: "namecmp (bytes_at m p 14) (bytes_at m q 14) = 0 \<longleftrightarrow> cstr m p 14 = cstr m q 14"
  by (simp add: namecmp_def namecmp_loop_strncmp strncmp_loop_eq_0)

end
