(* ===== verification/Pipe.thy ===== *)
theory Pipe
  imports Ring
begin

text \<open>
  Pipes, \<open>pipe.c\<close>: the operations on one \<open>struct pipe\<close>; the kernel memory of the structure and the
  processes that are woken are the business of \<open>File\<close>. Each operation runs under the lock of the pipe up to its end or
  to the point where it goes to sleep. A result of \<open>None\<close> is a process gone to sleep: for a writer
  together with the bytes it has still to write, with which its loop goes on when it is woken.
\<close>

abbreviation (input) PIPESIZE :: nat where "PIPESIZE \<equiv> 512"

record pipe =
  pp_data :: "u8 list"
  pp_nread :: u32
  pp_nwrite :: u32
  pp_readopen :: bool
  pp_writeopen :: bool

section \<open>Operations\<close>

definition pipe_init :: "pipe \<Rightarrow> pipe" where
  "pipe_init p = p\<lparr>pp_readopen := True, pp_writeopen := True, pp_nwrite := 0, pp_nread := 0\<rparr>"

text \<open>The second component is whether the structure is to be freed.\<close>

definition pipe_shut :: "bool \<Rightarrow> pipe \<Rightarrow> pipe \<times> bool" where
  "pipe_shut writable p =
     (let p = (if writable then p\<lparr>pp_writeopen := False\<rparr> else p\<lparr>pp_readopen := False\<rparr>)
      in (p, \<not> pp_readopen p \<and> \<not> pp_writeopen p))"

definition pipe_full :: "pipe \<Rightarrow> bool" where
  "pipe_full p \<longleftrightarrow> pp_nwrite p = pp_nread p + 512"

definition pipe_put :: "u8 \<Rightarrow> pipe \<Rightarrow> pipe" where
  "pipe_put x p = p\<lparr>pp_data := ring_set (pp_data p) (pp_nwrite p) x, pp_nwrite := pp_nwrite p + 1\<rparr>"

text \<open>The loop of \<open>pipewrite\<close>: the bytes left when it ends or the buffer is full.\<close>

fun pipewrite_loop :: "u8 list \<Rightarrow> pipe \<Rightarrow> u8 list \<times> pipe" where
  "pipewrite_loop [] p = ([], p)"
| "pipewrite_loop (x # xs) p = (if pipe_full p then (x # xs, p) else pipewrite_loop xs (pipe_put x p))"

text \<open>
  \<open>pipewrite killed n xs p\<close>: the result code, the bytes not yet written, whether the readers are woken, and the pipe;
  \<open>n\<close> is the length of the whole request and \<open>xs\<close> what is left of it.
\<close>

definition pipewrite :: "bool \<Rightarrow> int \<Rightarrow> u8 list \<Rightarrow> pipe \<Rightarrow> int option \<times> u8 list \<times> bool \<times> pipe" where
  "pipewrite killed n xs p =
     (let (rest, p) = pipewrite_loop xs p in
      if rest = [] then (Some n, [], True, p)
      else if \<not> pp_readopen p \<or> killed then (Some (-1), rest, False, p)
      else (None, rest, True, p))"

fun piperead_loop :: "nat \<Rightarrow> pipe \<Rightarrow> u8 list \<times> pipe" where
  "piperead_loop 0 p = ([], p)"
| "piperead_loop (Suc n) p =
     (if pp_nread p = pp_nwrite p then ([], p)
      else
        let x = ring_nth (pp_data p) (pp_nread p);
            (xs, p) = piperead_loop n (p\<lparr>pp_nread := pp_nread p + 1\<rparr>)
        in (x # xs, p))"

definition piperead :: "bool \<Rightarrow> int \<Rightarrow> pipe \<Rightarrow> int option \<times> u8 list \<times> bool \<times> pipe" where
  "piperead killed n p =
     (if pp_nread p = pp_nwrite p \<and> pp_writeopen p
      then (if killed then (Some (-1), [], False, p) else (None, [], False, p))
      else
        let (xs, p) = piperead_loop (nat n) p
        in (Some (int (length xs)), xs, True, p))"

section \<open>A pipe is a bounded queue\<close>

interpretation pp: ring 512
  by unfold_locales simp_all

definition pipe_queue :: "pipe \<Rightarrow> u8 list" where
  "pipe_queue p = ring_list (pp_data p) (pp_nread p) (pp_nwrite p)"

definition pipe_ok :: "pipe \<Rightarrow> bool" where
  "pipe_ok p \<longleftrightarrow> length (pp_data p) = 512 \<and> length (pipe_queue p) \<le> 512"

lemma pipe_full_queue: "pipe_ok p \<Longrightarrow> pipe_full p \<longleftrightarrow> length (pipe_queue p) = 512"
proof -
  have "pp_nwrite p = pp_nread p + 512 \<longleftrightarrow> pp_nwrite p - pp_nread p = 512" by (auto simp: algebra_simps)
  also have "\<dots> \<longleftrightarrow> unat (pp_nwrite p - pp_nread p) = 512" by (simp add: word_unat_eq_iff)
  finally show ?thesis by (simp add: pipe_full_def pipe_queue_def)
qed

lemma pipe_put_queue:
  assumes "pipe_ok p" "\<not> pipe_full p"
  shows "pipe_queue (pipe_put x p) = pipe_queue p @ [x]" "pipe_ok (pipe_put x p)"
proof -
  have len: "length (pp_data p) = 512" "unat (pp_nwrite p - pp_nread p) < 512"
    using assms pipe_full_queue [OF assms(1)] by (auto simp: pipe_ok_def pipe_queue_def)
  show q: "pipe_queue (pipe_put x p) = pipe_queue p @ [x]"
    using pp.append(1) [OF len] by (simp add: pipe_queue_def pipe_put_def)
  show "pipe_ok (pipe_put x p)"
    using len unfolding pipe_ok_def q by (simp add: pipe_put_def pipe_queue_def)
qed

text \<open>A write appends as much as there is room for and leaves the rest.\<close>

lemma pipewrite_loop_queue:
  assumes "pipe_ok p"
  shows "pipe_ok (snd (pipewrite_loop xs p)) \<and>
    pipe_queue (snd (pipewrite_loop xs p)) = pipe_queue p @ take (512 - length (pipe_queue p)) xs \<and>
    fst (pipewrite_loop xs p) = drop (512 - length (pipe_queue p)) xs \<and>
    pp_readopen (snd (pipewrite_loop xs p)) = pp_readopen p \<and> pp_writeopen (snd (pipewrite_loop xs p)) = pp_writeopen p \<and>
    pp_nread (snd (pipewrite_loop xs p)) = pp_nread p"
  using assms
proof (induction xs p rule: pipewrite_loop.induct)
  case (2 x xs p)
  show ?case
  proof (cases "pipe_full p")
    case True
    then show ?thesis using 2 pipe_full_queue by simp
  next
    case False
    have room: "length (pipe_queue p) < 512" using False 2 pipe_full_queue [OF 2(2)] by (auto simp: pipe_ok_def)
    then obtain k where k: "512 - length (pipe_queue p) = Suc k" by (metis Suc_diff_Suc)
    note put = pipe_put_queue [OF 2(2) False, of x]
    have "512 - length (pipe_queue (pipe_put x p)) = k" using k put by simp
    with 2(1) [OF False put(2)] k False show ?thesis
      by (simp add: put(1)) (simp add: pipe_put_def)
  qed
qed simp

text \<open>A read takes the front of the queue.\<close>

lemma piperead_loop_queue:
  assumes "pipe_ok p"
  shows "fst (piperead_loop n p) = take n (pipe_queue p) \<and> pipe_queue (snd (piperead_loop n p)) = drop n (pipe_queue p) \<and>
    pipe_ok (snd (piperead_loop n p)) \<and> pp_readopen (snd (piperead_loop n p)) = pp_readopen p \<and>
    pp_writeopen (snd (piperead_loop n p)) = pp_writeopen p"
  using assms
proof (induction n p rule: piperead_loop.induct)
  case (2 n p)
  show ?case
  proof (cases "pp_nread p = pp_nwrite p")
    case True
    then show ?thesis using 2 by (simp add: pipe_queue_def)
  next
    case False
    let ?q = "p\<lparr>pp_nread := pp_nread p + 1\<rparr>"
    have q: "pipe_queue p = ring_nth (pp_data p) (pp_nread p) # pipe_queue ?q"
      using pp.remove(1) [OF False, of "pp_data p"] by (simp add: pipe_queue_def)
    then have "pipe_ok ?q" using 2(2) by (simp add: pipe_ok_def)
    with 2(1) [OF False refl] show ?thesis using False q by (auto simp: Let_def split: prod.split)
  qed
qed simp

section \<open>Runs\<close>

text \<open>A sequence of calls by writers and readers, killed or not, and the bytes each puts in and takes out.\<close>

datatype pipe_call = Write bool "u8 list" | Read bool int | Shut bool

fun pipe_exec :: "pipe_call \<Rightarrow> pipe \<Rightarrow> u8 list \<times> u8 list \<times> pipe" where
  "pipe_exec (Write killed xs) p =
     (case pipewrite killed (int (length xs)) xs p of (_, rest, _, p') \<Rightarrow> (take (length xs - length rest) xs, [], p'))"
| "pipe_exec (Read killed n) p = (case piperead killed n p of (_, ys, _, p') \<Rightarrow> ([], ys, p'))"
| "pipe_exec (Shut writable) p = ([], [], fst (pipe_shut writable p))"

fun pipe_run :: "pipe_call list \<Rightarrow> pipe \<Rightarrow> u8 list \<times> u8 list \<times> pipe" where
  "pipe_run [] p = ([], [], p)"
| "pipe_run (c # cs) p =
     (let (w, r, p) = pipe_exec c p; (ws, rs, p) = pipe_run cs p in (w @ ws, r @ rs, p))"

lemma pipe_exec_step:
  assumes "pipe_ok p" "pipe_exec c p = (w, r, p')"
  shows "pipe_ok p' \<and> r @ pipe_queue p' = pipe_queue p @ w"
proof (cases c)
  case (Write killed xs)
  obtain rest q where q: "pipewrite_loop xs p = (rest, q)" by fastforce
  have p': "p' = q" "w = take (length xs - length rest) xs" "r = []"
    using assms(2) Write q by (auto simp: pipewrite_def split: if_splits)
  show ?thesis using pipewrite_loop_queue [OF assms(1), of xs] q p' by (cases "512 - length (pipe_queue p) \<le> length xs") auto
next
  case (Read killed n)
  then show ?thesis
    using assms piperead_loop_queue [OF assms(1), of "nat n"]
    by (auto simp: piperead_def Let_def split: if_splits prod.splits)
next
  case (Shut writable)
  then show ?thesis using assms by (auto simp: pipe_shut_def pipe_ok_def pipe_queue_def Let_def)
qed

lemma pipe_run_fifo:
  "pipe_ok p \<Longrightarrow> pipe_run cs p = (ws, rs, p') \<Longrightarrow> pipe_ok p' \<and> rs @ pipe_queue p' = pipe_queue p @ ws"
proof (induction cs arbitrary: p ws rs)
  case (Cons c cs)
  obtain w r q where c: "pipe_exec c p = (w, r, q)" by (metis prod_cases3)
  obtain ws' rs' where run: "pipe_run cs q = (ws', rs', p')" "ws = w @ ws'" "rs = r @ rs'"
    using Cons.prems(2) c by (auto simp: Let_def split: prod.splits)
  have q: "pipe_ok q" "r @ pipe_queue q = pipe_queue p @ w" using pipe_exec_step [OF Cons.prems(1) c] by simp_all
  have "pipe_ok p' \<and> rs' @ pipe_queue p' = pipe_queue q @ ws'" by (rule Cons.IH [OF q(1) run(1)])
  then show ?case using q run by (metis append.assoc)
qed simp

section \<open>Claims\<close>

text \<open>
  C18. A pipe is a first-in first-out byte stream: over any sequence of writes, reads and closes, killed
  processes and partial writes included, the bytes read so far followed by those still in the buffer are
  the bytes accepted, in order, and the buffer never holds more than \<open>PIPESIZE\<close>; this also when the counters wrap.
\<close>

theorem pipe_fifo:
  assumes "pipe_ok p" "pipe_queue p = []" "pipe_run cs p = (ws, rs, p')"
  shows "rs @ pipe_queue p' = ws \<and> length (pipe_queue p') \<le> PIPESIZE"
  using pipe_run_fifo [OF assms(1,3)] assms(2) by (simp add: pipe_ok_def)

text \<open>
  C37. The results of the two operations: a write returns the whole count exactly when all of it fits, fails
  when it does not fit and the reader is gone or the writer killed, and otherwise sleeps with the buffer
  full; a read returns up to \<open>n\<close> bytes from the front when there are any, 0 when there are none and the write
  end is closed, and otherwise fails if killed and sleeps if not.
\<close>

theorem pipe_results:
  assumes "pipe_ok p"
  shows "fst (pipewrite killed n xs p) =
      (if length xs \<le> 512 - length (pipe_queue p) then Some n else if \<not> pp_readopen p \<or> killed then Some (-1) else None)
    \<and> (fst (pipewrite killed n xs p) = None \<longrightarrow> pipe_full (snd (snd (snd (pipewrite killed n xs p)))))
    \<and> (case piperead killed k p of (r, ys, _, _) \<Rightarrow>
        ys = (if pipe_queue p = [] then [] else take (nat k) (pipe_queue p)) \<and>
        r = (if pipe_queue p \<noteq> [] \<or> \<not> pp_writeopen p then Some (int (length ys)) else if killed then Some (-1) else None))"
proof -
  obtain rest q where q: "pipewrite_loop xs p = (rest, q)" by fastforce
  note w = pipewrite_loop_queue [OF assms, of xs]
  have rest: "rest = drop (512 - length (pipe_queue p)) xs" "pipe_ok q" "pp_readopen q = pp_readopen p" using w q by simp_all
  have full: "pipe_full q" if "rest \<noteq> []"
    using w q that assms by (simp add: pipe_full_queue [OF rest(2)]) (simp add: pipe_ok_def)
  have empty: "pp_nread p = pp_nwrite p \<longleftrightarrow> pipe_queue p = []"
  proof -
    have "pipe_queue p = [] \<longleftrightarrow> unat (pp_nwrite p - pp_nread p) = 0" by (simp add: pipe_queue_def flip: length_0_conv)
    then show ?thesis by (auto simp: unat_eq_zero)
  qed
  have wr: "fst (pipewrite killed n xs p) =
      (if rest = [] then Some n else if \<not> pp_readopen p \<or> killed then Some (-1) else None)"
    "snd (snd (snd (pipewrite killed n xs p))) = q"
    by (simp_all add: pipewrite_def q rest(3))
  obtain ys u where u: "piperead_loop (nat k) p = (ys, u)" by fastforce
  have ys: "ys = take (nat k) (pipe_queue p)" using piperead_loop_queue [OF assms, of "nat k"] u by simp
  have rd: "case piperead killed k p of (r, ys, _, _) \<Rightarrow>
        ys = (if pipe_queue p = [] then [] else take (nat k) (pipe_queue p)) \<and>
        r = (if pipe_queue p \<noteq> [] \<or> \<not> pp_writeopen p then Some (int (length ys)) else if killed then Some (-1) else None)"
    using u ys by (cases "pipe_queue p = []") (simp_all add: piperead_def empty)
  have "rest = [] \<longleftrightarrow> length xs \<le> 512 - length (pipe_queue p)" by (simp add: rest(1))
  then show ?thesis using wr rd full by auto
qed

section \<open>Witnesses\<close>

text \<open>An empty pipe whose counters are about to wrap.\<close>

definition ex_pipe :: pipe where
  "ex_pipe = \<lparr>pp_data = replicate 512 0, pp_nread = 0xFFFFFFFE, pp_nwrite = 0xFFFFFFFE, pp_readopen = True, pp_writeopen = True\<rparr>"

lemma ex_pipe_ok: "pipe_ok ex_pipe" "pipe_queue ex_pipe = []"
  by (simp_all add: pipe_ok_def pipe_queue_def ex_pipe_def)

lemma ex_pipe_run:
  "\<exists>p. pipe_run [Write False [1, 2, 3, 4], Read False 3, Shut True] ex_pipe = ([1, 2, 3, 4], [1, 2, 3], p)"
proof -
  obtain q where q: "pipewrite_loop [1, 2, 3, 4] ex_pipe = ([], q)" "pipe_ok q" "pipe_queue q = [1, 2, 3, 4]"
    using pipewrite_loop_queue [OF ex_pipe_ok(1), of "[1, 2, 3, 4]"] ex_pipe_ok(2)
    by (cases "pipewrite_loop [1, 2, 3, 4] ex_pipe") simp
  have "pp_nread q \<noteq> pp_nwrite q" using q(3) by (auto simp: pipe_queue_def)
  moreover obtain u where "piperead_loop 3 q = ([1, 2, 3], u)"
    using piperead_loop_queue [OF q(2), of 3] q(3) by (cases "piperead_loop 3 q") simp
  ultimately show ?thesis using q(1) by (simp add: pipewrite_def piperead_def)
qed

theorem pipe_fifo_witness:
  "\<exists>p. pipe_run [Write False [1, 2, 3, 4], Read False 3, Shut True] ex_pipe = ([1, 2, 3, 4], [1, 2, 3], p) \<and> pipe_queue p = [4]"
proof -
  obtain p where p: "pipe_run [Write False [1, 2, 3, 4], Read False 3, Shut True] ex_pipe = ([1, 2, 3, 4], [1, 2, 3], p)"
    using ex_pipe_run by auto
  show ?thesis using pipe_fifo [OF ex_pipe_ok p] p by auto
qed

theorem pipe_results_witness:
  "fst (pipewrite False 2 [7, 8] ex_pipe) = Some 2 \<and> fst (piperead False 5 ex_pipe) = None"
  using pipe_results [OF ex_pipe_ok(1), of False 2 "[7, 8]" 5] ex_pipe_ok(2) by (auto simp: ex_pipe_def)

end
