(* ===== verification/File.thy ===== *)
theory File
  imports Fs Pipe Proc
begin

text \<open>
  Open files, \<open>file.c\<close>, with the kernel side of pipes (\<open>pipealloc\<close>, \<open>pipeclose\<close> and the calls of \<open>pipewrite\<close> and
  \<open>piperead\<close>), on the state \<open>kernel\<close> of the whole kernel: processes and memory, the file system, the table of open
  files and the pipes, each at the address of its page. A call into the file system runs with the
  identifier of the current process, and the channels it wakes are then passed to \<open>wakeup\<close>. A result \<open>None\<close> inside a
  result is a process that went to sleep.
\<close>

datatype file_type = FD_NONE | FD_PIPE | FD_INODE

record ofile =
  f_type :: file_type
  f_ref :: int
  f_readable :: bool
  f_writable :: bool
  f_pipe :: addr
  f_ip :: nat
  f_off :: u32

record kernel = ksys +
  kfs :: fsys
  ftable :: "ofile list"
  pipes :: "addr \<Rightarrow> pipe"
  fork_first :: bool

definition upd_file :: "nat \<Rightarrow> (ofile \<Rightarrow> ofile) \<Rightarrow> 'a kernel_scheme \<Rightarrow> 'a kernel_scheme" where
  "upd_file f g s = s\<lparr>ftable := (ftable s)[f := g (ftable s ! f)]\<rparr>"

definition enter_fs :: "'a kernel_scheme \<Rightarrow> fsys" where
  "enter_fs s =
     (case myproc s of
        None \<Rightarrow> (kfs s)\<lparr>wakeups := []\<rparr>
      | Some p \<Rightarrow> (kfs s)\<lparr>fs_pid := p_pid p, fs_killed := p_killed p, wakeups := []\<rparr>)"

definition leave_fs :: "fsys \<Rightarrow> 'a kernel_scheme \<Rightarrow> 'a kernel_scheme option" where
  "leave_fs t s = for_each (\<lambda>ch. wakeup (Some ch)) (wakeups t) (s\<lparr>kfs := t\<rparr>)"

definition in_fs :: "(fsys \<Rightarrow> ('r \<times> fsys) option) \<Rightarrow> 'a kernel_scheme \<Rightarrow> ('r \<times> 'a kernel_scheme) option" where
  "in_fs f s = do {
     (r, t) \<leftarrow> f (enter_fs s);
     s \<leftarrow> leave_fs t s;
     Some (r, s) }"

definition do_fs :: "(fsys \<Rightarrow> fsys option) \<Rightarrow> 'a kernel_scheme \<Rightarrow> 'a kernel_scheme option" where
  "do_fs f s = do { t \<leftarrow> f (enter_fs s); leave_fs t s }"

section \<open>The table of open files\<close>

fun find_file :: "ofile list \<Rightarrow> nat \<Rightarrow> nat option" where
  "find_file [] k = None"
| "find_file (f # fs) k = (if f_ref f = 0 then Some k else find_file fs (Suc k))"

definition filealloc :: "'a kernel_scheme \<Rightarrow> nat option \<times> 'a kernel_scheme" where
  "filealloc s =
     (case find_file (ftable s) 0 of
        None \<Rightarrow> (None, s)
      | Some f \<Rightarrow> (Some f, upd_file f (\<lambda>g. g\<lparr>f_ref := 1\<rparr>) s))"

definition filedup :: "nat \<Rightarrow> 'a kernel_scheme \<Rightarrow> 'a kernel_scheme option" where
  "filedup f s =
     (if f_ref (ftable s ! f) < 1 then panic ''filedup'' else Some (upd_file f (\<lambda>g. g\<lparr>f_ref := f_ref g + 1\<rparr>) s))"

definition pipeclose :: "addr \<Rightarrow> bool \<Rightarrow> 'a kernel_scheme \<Rightarrow> 'a kernel_scheme option" where
  "pipeclose a writable s = do {
     let (p, unused) = pipe_shut writable (pipes s a);
     s \<leftarrow> wakeup (Some (if writable then PipeReadChan a else PipeWriteChan a)) (s\<lparr>pipes := (pipes s)(a := p)\<rparr>);
     if unused then kfree s a else Some s }"

definition fileclose :: "nat \<Rightarrow> 'a kernel_scheme \<Rightarrow> 'a kernel_scheme option" where
  "fileclose f s =
     (if f_ref (ftable s ! f) < 1 then panic ''fileclose''
      else
        let s = upd_file f (\<lambda>g. g\<lparr>f_ref := f_ref g - 1\<rparr>) s in
        if 0 < f_ref (ftable s ! f) then Some s
        else
          let ff = ftable s ! f;
              s = upd_file f (\<lambda>g. g\<lparr>f_ref := 0, f_type := FD_NONE\<rparr>) s
          in (case f_type ff of
                FD_PIPE \<Rightarrow> pipeclose (f_pipe ff) (f_writable ff) s
              | FD_INODE \<Rightarrow> do { s \<leftarrow> do_fs begin_op s; s \<leftarrow> do_fs (iput (f_ip ff)) s; do_fs end_op s }
              | FD_NONE \<Rightarrow> Some s))"

text \<open>Putting a \<open>struct stat\<close> at a user address.\<close>

definition user_stat :: "addr \<Rightarrow> stat \<Rightarrow> 'a kernel_scheme \<Rightarrow> 'a kernel_scheme option" where
  "user_stat a st s = do {
     s \<leftarrow> user_stores s (a + 4) (bytes32 (st_dev st));
     s \<leftarrow> user_stores s (a + 8) (bytes32 (st_ino st));
     s \<leftarrow> user_stores s a (bytes16 (st_type st));
     s \<leftarrow> user_stores s (a + 12) (bytes16 (st_nlink st));
     user_stores s (a + 16) (bytes32 (st_size st)) }"

definition filestat :: "nat \<Rightarrow> addr \<Rightarrow> 'a kernel_scheme \<Rightarrow> (int \<times> 'a kernel_scheme) option" where
  "filestat f a s =
     (if f_type (ftable s ! f) = FD_INODE then do {
        let i = f_ip (ftable s ! f);
        s \<leftarrow> do_fs (ilock i) s;
        s \<leftarrow> user_stat a (stati (icache (kfs s) ! i)) s;
        s \<leftarrow> do_fs (iunlock i) s;
        Some (0, s) }
      else Some (-1, s))"

section \<open>Pipes\<close>

definition pipealloc_bad :: "nat option \<Rightarrow> nat option \<Rightarrow> 'a kernel_scheme \<Rightarrow> ((nat \<times> nat) option \<times> 'a kernel_scheme) option" where
  "pipealloc_bad f0 f1 s = do {
     s \<leftarrow> (case f0 of None \<Rightarrow> Some s | Some f \<Rightarrow> fileclose f s);
     s \<leftarrow> (case f1 of None \<Rightarrow> Some s | Some f \<Rightarrow> fileclose f s);
     Some (None, s) }"

definition pipealloc :: "'a kernel_scheme \<Rightarrow> ((nat \<times> nat) option \<times> 'a kernel_scheme) option" where
  "pipealloc s =
     (case filealloc s of
        (None, s) \<Rightarrow> pipealloc_bad None None s
      | (Some f0, s) \<Rightarrow>
          (case filealloc s of
             (None, s) \<Rightarrow> pipealloc_bad (Some f0) None s
           | (Some f1, s) \<Rightarrow>
               let (a, s) = kalloc s in
               if a = 0 then pipealloc_bad (Some f0) (Some f1) s
               else
                 let s = s\<lparr>pipes := (pipes s)(a := pipe_init (pipes s a))\<rparr>;
                     s = upd_file f0 (\<lambda>g. g\<lparr>f_type := FD_PIPE, f_readable := True, f_writable := False, f_pipe := a\<rparr>) s;
                     s = upd_file f1 (\<lambda>g. g\<lparr>f_type := FD_PIPE, f_readable := False, f_writable := True, f_pipe := a\<rparr>) s
                 in Some (Some (f0, f1), s)))"

text \<open>
  A writer that sleeps leaves the bytes it has still to write; \<open>pipe_write\<close> starts with the whole request. The
  process that sleeps here is the one \<open>sleep\<close> of \<open>proc.c\<close> takes off the CPU; its part after the call is in \<open>pipewrite\<close>.
\<close>

definition pipe_write :: "addr \<Rightarrow> int \<Rightarrow> u8 list \<Rightarrow> 'a kernel_scheme \<Rightarrow> ((int option \<times> u8 list) \<times> 'a kernel_scheme) option" where
  "pipe_write a n xs s = do {
     p \<leftarrow> myproc s;
     let (r, rest, woken, pp) = pipewrite (p_killed p) n xs (pipes s a);
     let s = s\<lparr>pipes := (pipes s)(a := pp)\<rparr>;
     s \<leftarrow> (if woken then wakeup (Some (PipeReadChan a)) s else Some s);
     Some ((r, rest), s) }"

definition pipe_read :: "addr \<Rightarrow> addr \<Rightarrow> int \<Rightarrow> 'a kernel_scheme \<Rightarrow> (int option \<times> 'a kernel_scheme) option" where
  "pipe_read a dst n s = do {
     p \<leftarrow> myproc s;
     let (r, xs, woken, pp) = piperead (p_killed p) n (pipes s a);
     s \<leftarrow> user_stores (s\<lparr>pipes := (pipes s)(a := pp)\<rparr>) dst xs;
     s \<leftarrow> (if woken then wakeup (Some (PipeWriteChan a)) s else Some s);
     Some (r, s) }"

section \<open>Reading and writing\<close>

definition fileread :: "nat \<Rightarrow> addr \<Rightarrow> u32 \<Rightarrow> 'a kernel_scheme \<Rightarrow> (int option \<times> 'a kernel_scheme) option" where
  "fileread f dst n s =
     (let g = ftable s ! f in
      if \<not> f_readable g then Some (Some (-1), s)
      else case f_type g of
        FD_PIPE \<Rightarrow> pipe_read (f_pipe g) dst (sint n) s
      | FD_INODE \<Rightarrow> do {
          s \<leftarrow> do_fs (ilock (f_ip g)) s;
          ((r, xs), s) \<leftarrow> in_fs (\<lambda>t. map_option (\<lambda>(r, xs, t). ((r, xs), t)) (readi (f_ip g) (f_off g) n t)) s;
          s \<leftarrow> user_stores s dst xs;
          let s = (if 0 < r then upd_file f (\<lambda>g. g\<lparr>f_off := f_off g + word_of_int r\<rparr>) s else s);
          s \<leftarrow> do_fs (iunlock (f_ip g)) s;
          Some (Some r, s) }
      | FD_NONE \<Rightarrow> panic ''fileread'')"

text \<open>One transaction of \<open>filewrite\<close>.\<close>

definition filewrite_chunk :: "nat \<Rightarrow> addr \<Rightarrow> nat \<Rightarrow> 'a kernel_scheme \<Rightarrow> (int \<times> 'a kernel_scheme) option" where
  "filewrite_chunk f src n1 s = do {
     let g = ftable s ! f;
     s \<leftarrow> do_fs begin_op s;
     s \<leftarrow> do_fs (ilock (f_ip g)) s;
     (xs, s) \<leftarrow> user_loads s src n1;
     (r, s) \<leftarrow> in_fs (writei (f_ip g) xs (f_off g)) s;
     let s = (if 0 < r then upd_file f (\<lambda>g. g\<lparr>f_off := f_off g + word_of_int r\<rparr>) s else s);
     s \<leftarrow> do_fs (iunlock (f_ip g)) s;
     s \<leftarrow> do_fs end_op s;
     Some (r, s) }"

partial_function (option) filewrite_loop :: "nat \<Rightarrow> addr \<Rightarrow> int \<Rightarrow> int \<Rightarrow> 'a kernel_scheme \<Rightarrow> (int \<times> 'a kernel_scheme) option" where
  "filewrite_loop f src n i s =
     (if \<not> i < n then Some (i, s)
      else do {
        let n1 = (if n - i > 1536 then 1536 else n - i);
        (r, s) \<leftarrow> filewrite_chunk f (src + word_of_int i) (nat n1) s;
        if r < 0 then Some (i, s)
        else if r \<noteq> n1 then panic ''short filewrite''
        else filewrite_loop f src n (i + r) s })"

definition filewrite :: "nat \<Rightarrow> addr \<Rightarrow> u32 \<Rightarrow> 'a kernel_scheme \<Rightarrow> (int option \<times> 'a kernel_scheme) option" where
  "filewrite f src n s =
     (let g = ftable s ! f in
      if \<not> f_writable g then Some (Some (-1), s)
      else case f_type g of
        FD_PIPE \<Rightarrow> do {
          (xs, s) \<leftarrow> user_loads s src (nat (sint n));
          ((r, _), s) \<leftarrow> pipe_write (f_pipe g) (sint n) xs s;
          Some (r, s) }
      | FD_INODE \<Rightarrow> do {
          (i, s) \<leftarrow> filewrite_loop f src (sint n) 0 s;
          Some (Some (if i = sint n then sint n else -1), s) }
      | FD_NONE \<Rightarrow> panic ''filewrite'')"

end
