(* ===== verification/Sysfile.thy ===== *)
theory Sysfile
  imports File
begin

text \<open>
  The system calls on files, \<open>sysfile.c\<close>, apart from \<open>sys_exec\<close>. The parts that only touch the file system are
  functions on its state: the \<open>goto bad\<close> exits are their \<open>False\<close> or \<open>None\<close> results.
\<close>

abbreviation (input) O_RDONLY :: u32 where "O_RDONLY \<equiv> 0"
abbreviation (input) O_WRONLY :: u32 where "O_WRONLY \<equiv> 1"
abbreviation (input) O_RDWR :: u32 where "O_RDWR \<equiv> 2"
abbreviation (input) O_CREATE :: u32 where "O_CREATE \<equiv> 0x200"

section \<open>Descriptors\<close>

definition argfd :: "'a ksys_scheme \<Rightarrow> nat \<Rightarrow> ((nat \<times> nat) option \<times> 'a ksys_scheme) option" where
  "argfd s n = do {
     (r, s) \<leftarrow> argint s n;
     case r of None \<Rightarrow> Some (None, s)
     | Some w \<Rightarrow> do {
         p \<leftarrow> myproc s;
         if sint w < 0 \<or> int NOFILE \<le> sint w then Some (None, s)
         else case p_ofile p ! unat w of None \<Rightarrow> Some (None, s) | Some f \<Rightarrow> Some (Some (unat w, f), s) } }"

fun find_fd :: "'f option list \<Rightarrow> nat \<Rightarrow> nat option" where
  "find_fd [] k = None"
| "find_fd (f # fs) k = (if f = None then Some k else find_fd fs (Suc k))"

definition fdalloc :: "nat \<Rightarrow> 'a ksys_scheme \<Rightarrow> (nat option \<times> 'a ksys_scheme) option" where
  "fdalloc f s = (case curproc s of None \<Rightarrow> ub
     | Some c \<Rightarrow>
         (case find_fd (p_ofile (procs s ! c)) 0 of
            None \<Rightarrow> Some (None, s)
          | Some fd \<Rightarrow> Some (Some fd, upd_proc c (\<lambda>p. p\<lparr>p_ofile := (p_ofile p)[fd := Some f]\<rparr>) s)))"

definition clear_fd :: "nat \<Rightarrow> 'a ksys_scheme \<Rightarrow> 'a ksys_scheme option" where
  "clear_fd fd s = (case curproc s of None \<Rightarrow> ub
     | Some c \<Rightarrow> Some (upd_proc c (\<lambda>p. p\<lparr>p_ofile := (p_ofile p)[fd := None]\<rparr>) s))"

definition sys_dup :: "'a kernel_scheme \<Rightarrow> (int \<times> 'a kernel_scheme) option" where
  "sys_dup s = do {
     (r, s) \<leftarrow> argfd s 0;
     case r of None \<Rightarrow> Some (-1, s)
     | Some (_, f) \<Rightarrow> do {
         (r, s) \<leftarrow> fdalloc f s;
         case r of None \<Rightarrow> Some (-1, s)
         | Some fd \<Rightarrow> do { s \<leftarrow> filedup f s; Some (int fd, s) } } }"

text \<open>The arguments of \<open>read\<close> and \<open>write\<close>: the file, the count and the buffer, fetched in this order.\<close>

definition rw_args :: "'a ksys_scheme \<Rightarrow> ((nat \<times> u32 \<times> addr) option \<times> 'a ksys_scheme) option" where
  "rw_args s = do {
     (r, s) \<leftarrow> argfd s 0;
     case r of None \<Rightarrow> Some (None, s)
     | Some (_, f) \<Rightarrow> do {
         (r, s) \<leftarrow> argint s 2;
         case r of None \<Rightarrow> Some (None, s)
         | Some n \<Rightarrow> do {
             (r, s) \<leftarrow> argptr s 1 n;
             case r of None \<Rightarrow> Some (None, s) | Some a \<Rightarrow> Some (Some (f, n, a), s) } } }"

definition sys_read :: "'a kernel_scheme \<Rightarrow> (int option \<times> 'a kernel_scheme) option" where
  "sys_read s = do {
     (r, s) \<leftarrow> rw_args s;
     case r of None \<Rightarrow> Some (Some (-1), s) | Some (f, n, a) \<Rightarrow> fileread f a n s }"

definition sys_write :: "'a kernel_scheme \<Rightarrow> (int option \<times> 'a kernel_scheme) option" where
  "sys_write s = do {
     (r, s) \<leftarrow> rw_args s;
     case r of None \<Rightarrow> Some (Some (-1), s) | Some (f, n, a) \<Rightarrow> filewrite f a n s }"

definition sys_close :: "'a kernel_scheme \<Rightarrow> (int \<times> 'a kernel_scheme) option" where
  "sys_close s = do {
     (r, s) \<leftarrow> argfd s 0;
     case r of None \<Rightarrow> Some (-1, s)
     | Some (fd, f) \<Rightarrow> do {
         s \<leftarrow> clear_fd fd s;
         s \<leftarrow> fileclose f s;
         Some (0, s) } }"

definition sys_fstat :: "'a kernel_scheme \<Rightarrow> (int \<times> 'a kernel_scheme) option" where
  "sys_fstat s = do {
     (r, s) \<leftarrow> argfd s 0;
     case r of None \<Rightarrow> Some (-1, s)
     | Some (_, f) \<Rightarrow> do {
         (r, s) \<leftarrow> argptr s 1 20;
         case r of None \<Rightarrow> Some (-1, s) | Some a \<Rightarrow> filestat f a s } }"

section \<open>Links\<close>

definition upd_nlink :: "nat \<Rightarrow> (u16 \<Rightarrow> u16) \<Rightarrow> 'a fsys_scheme \<Rightarrow> 'a fsys_scheme option" where
  "upd_nlink i g s = iupdate i (upd_inode i (\<lambda>ip. ip\<lparr>i_nlink := g (i_nlink ip)\<rparr>) s)"

definition link_bad :: "nat \<Rightarrow> 'a fsys_scheme \<Rightarrow> (int \<times> 'a fsys_scheme) option" where
  "link_bad ip s = do {
     s \<leftarrow> ilock ip s;
     s \<leftarrow> upd_nlink ip (\<lambda>n. n - 1) s;
     s \<leftarrow> iunlockput ip s;
     Some (-1, s) }"

definition link_inodes :: "nat option \<Rightarrow> u8 list \<Rightarrow> u8 list \<Rightarrow> 'a fsys_scheme \<Rightarrow> (int \<times> 'a fsys_scheme) option" where
  "link_inodes cwd old new s = do {
     (r, s) \<leftarrow> namei cwd old s;
     case r of None \<Rightarrow> Some (-1, s)
     | Some ip \<Rightarrow> do {
         s \<leftarrow> ilock ip s;
         if i_type (icache s ! ip) = T_DIR then do { s \<leftarrow> iunlockput ip s; Some (-1, s) }
         else do {
           s \<leftarrow> upd_nlink ip (\<lambda>n. n + 1) s;
           s \<leftarrow> iunlock ip s;
           (r, s) \<leftarrow> nameiparent cwd new s;
           case r of None \<Rightarrow> link_bad ip s
           | Some (dp, nm) \<Rightarrow> do {
               s \<leftarrow> ilock dp s;
               (ok, s) \<leftarrow>
                 (if i_dev (icache s ! dp) \<noteq> i_dev (icache s ! ip) then Some (False, s)
                  else do { (n, s) \<leftarrow> dirlink dp nm (i_inum (icache s ! ip)) s; Some (\<not> n < 0, s) });
               s \<leftarrow> iunlockput dp s;
               if \<not> ok then link_bad ip s
               else do { s \<leftarrow> iput ip s; Some (0, s) } } } } }"

text \<open>A part of a system call between \<open>begin_op\<close> and \<open>end_op\<close>.\<close>

definition transact :: "('a fsys_scheme \<Rightarrow> ('r \<times> 'a fsys_scheme) option) \<Rightarrow> 'a fsys_scheme \<Rightarrow> ('r \<times> 'a fsys_scheme) option" where
  "transact f s = do {
     s \<leftarrow> begin_op s;
     (r, s) \<leftarrow> f s;
     s \<leftarrow> end_op s;
     Some (r, s) }"

definition sys_link :: "'a kernel_scheme \<Rightarrow> (int \<times> 'a kernel_scheme) option" where
  "sys_link s = do {
     (r0, s) \<leftarrow> argstr s 0;
     case r0 of None \<Rightarrow> Some (-1, s)
     | Some (_, old) \<Rightarrow> do {
         (r1, s) \<leftarrow> argstr s 1;
         case r1 of None \<Rightarrow> Some (-1, s)
         | Some (_, new) \<Rightarrow> do {
             p \<leftarrow> myproc s;
             in_fs (transact (link_inodes (p_cwd p) old new)) s } } }"

partial_function (option) isdirempty_loop :: "nat \<Rightarrow> u32 \<Rightarrow> 'a fsys_scheme \<Rightarrow> (bool \<times> 'a fsys_scheme) option" where
  "isdirempty_loop dp off s =
     (if \<not> off < i_size (icache s ! dp) then Some (True, s)
      else do {
        (r, xs, s) \<leftarrow> readi dp off 16 s;
        if r \<noteq> 16 then panic ''isdirempty: readi''
        else if de_inum (decode_dirent xs) \<noteq> 0 then Some (False, s)
        else isdirempty_loop dp (off + 16) s })"

definition isdirempty :: "nat \<Rightarrow> 'a fsys_scheme \<Rightarrow> (bool \<times> 'a fsys_scheme) option" where
  "isdirempty dp s = isdirempty_loop dp 32 s"

definition unlink_bad :: "nat \<Rightarrow> 'a fsys_scheme \<Rightarrow> (int \<times> 'a fsys_scheme) option" where
  "unlink_bad dp s = do { s \<leftarrow> iunlockput dp s; Some (-1, s) }"

definition unlink_entry :: "nat \<Rightarrow> nat \<Rightarrow> u32 \<Rightarrow> 'a fsys_scheme \<Rightarrow> (int \<times> 'a fsys_scheme) option" where
  "unlink_entry dp ip off s = do {
     (n, s) \<leftarrow> writei dp (replicate 16 0) off s;
     if n \<noteq> 16 then panic ''unlink: writei''
     else do {
       s \<leftarrow> (if i_type (icache s ! ip) = T_DIR then upd_nlink dp (\<lambda>n. n - 1) s else Some s);
       s \<leftarrow> iunlockput dp s;
       s \<leftarrow> upd_nlink ip (\<lambda>n. n - 1) s;
       s \<leftarrow> iunlockput ip s;
       Some (0, s) } }"

definition unlink_path :: "nat option \<Rightarrow> u8 list \<Rightarrow> 'a fsys_scheme \<Rightarrow> (int \<times> 'a fsys_scheme) option" where
  "unlink_path cwd path s = do {
     (r, s) \<leftarrow> nameiparent cwd path s;
     case r of None \<Rightarrow> Some (-1, s)
     | Some (dp, nm) \<Rightarrow> do {
         s \<leftarrow> ilock dp s;
         if namecmp nm [46] = 0 \<or> namecmp nm [46, 46] = 0 then unlink_bad dp s
         else do {
           (r, s) \<leftarrow> dirlookup dp nm s;
           case r of None \<Rightarrow> unlink_bad dp s
           | Some (ip, off) \<Rightarrow> do {
               s \<leftarrow> ilock ip s;
               if sint (i_nlink (icache s ! ip)) < 1 then panic ''unlink: nlink < 1''
               else do {
                 (nonempty, s) \<leftarrow>
                   (if i_type (icache s ! ip) = T_DIR then do { (e, s) \<leftarrow> isdirempty ip s; Some (\<not> e, s) } else Some (False, s));
                 if nonempty then do { s \<leftarrow> iunlockput ip s; unlink_bad dp s }
                 else unlink_entry dp ip off s } } } } }"

definition sys_unlink :: "'a kernel_scheme \<Rightarrow> (int \<times> 'a kernel_scheme) option" where
  "sys_unlink s = do {
     (r, s) \<leftarrow> argstr s 0;
     case r of None \<Rightarrow> Some (-1, s)
     | Some (_, path) \<Rightarrow> do {
         p \<leftarrow> myproc s;
         in_fs (transact (unlink_path (p_cwd p) path)) s } }"

section \<open>Creating and opening\<close>

definition create_dots :: "nat \<Rightarrow> nat \<Rightarrow> 'a fsys_scheme \<Rightarrow> 'a fsys_scheme option" where
  "create_dots dp ip s = do {
     s \<leftarrow> upd_nlink dp (\<lambda>n. n + 1) s;
     (n, s) \<leftarrow> dirlink ip [46] (i_inum (icache s ! ip)) s;
     if n < 0 then panic ''create dots''
     else do {
       (n, s) \<leftarrow> dirlink ip [46, 46] (i_inum (icache s ! dp)) s;
       if n < 0 then panic ''create dots'' else Some s } }"

definition create_new :: "nat \<Rightarrow> u8 list \<Rightarrow> u16 \<Rightarrow> u16 \<Rightarrow> u16 \<Rightarrow> 'a fsys_scheme \<Rightarrow> (nat \<times> 'a fsys_scheme) option" where
  "create_new dp nm type major minor s = do {
     (ip, s) \<leftarrow> ialloc (i_dev (icache s ! dp)) type s;
     s \<leftarrow> ilock ip s;
     s \<leftarrow> iupdate ip (upd_inode ip (\<lambda>n. n\<lparr>i_major := major, i_minor := minor, i_nlink := 1\<rparr>) s);
     s \<leftarrow> (if type = T_DIR then create_dots dp ip s else Some s);
     (n, s) \<leftarrow> dirlink dp nm (i_inum (icache s ! ip)) s;
     if n < 0 then panic ''create: dirlink''
     else do { s \<leftarrow> iunlockput dp s; Some (ip, s) } }"

definition create :: "nat option \<Rightarrow> u8 list \<Rightarrow> u16 \<Rightarrow> u16 \<Rightarrow> u16 \<Rightarrow> 'a fsys_scheme \<Rightarrow> (nat option \<times> 'a fsys_scheme) option" where
  "create cwd path type major minor s = do {
     (r, s) \<leftarrow> nameiparent cwd path s;
     case r of None \<Rightarrow> Some (None, s)
     | Some (dp, nm) \<Rightarrow> do {
         s \<leftarrow> ilock dp s;
         (r, s) \<leftarrow> dirlookup dp nm s;
         case r of
           Some (ip, _) \<Rightarrow> do {
             s \<leftarrow> iunlockput dp s;
             s \<leftarrow> ilock ip s;
             if type = T_FILE \<and> i_type (icache s ! ip) = T_FILE then Some (Some ip, s)
             else do { s \<leftarrow> iunlockput ip s; Some (None, s) } }
         | None \<Rightarrow> do { (ip, s) \<leftarrow> create_new dp nm type major minor s; Some (Some ip, s) } } }"

definition open_inode :: "nat option \<Rightarrow> u8 list \<Rightarrow> u32 \<Rightarrow> 'a fsys_scheme \<Rightarrow> (nat option \<times> 'a fsys_scheme) option" where
  "open_inode cwd path omode s =
     (if omode AND O_CREATE \<noteq> 0 then create cwd path T_FILE 0 0 s
      else do {
        (r, s) \<leftarrow> namei cwd path s;
        case r of None \<Rightarrow> Some (None, s)
        | Some ip \<Rightarrow> do {
            s \<leftarrow> ilock ip s;
            if i_type (icache s ! ip) = T_DIR \<and> omode \<noteq> O_RDONLY then do { s \<leftarrow> iunlockput ip s; Some (None, s) }
            else Some (Some ip, s) } })"

definition open_fail :: "nat \<Rightarrow> 'a kernel_scheme \<Rightarrow> (int \<times> 'a kernel_scheme) option" where
  "open_fail ip s = do {
     s \<leftarrow> do_fs (iunlockput ip) s;
     s \<leftarrow> do_fs end_op s;
     Some (-1, s) }"

definition open_file :: "nat \<Rightarrow> u32 \<Rightarrow> 'a kernel_scheme \<Rightarrow> (int \<times> 'a kernel_scheme) option" where
  "open_file ip omode s =
     (case filealloc s of
        (None, s) \<Rightarrow> open_fail ip s
      | (Some f, s) \<Rightarrow> do {
          (r, s) \<leftarrow> fdalloc f s;
          case r of
            None \<Rightarrow> do { s \<leftarrow> fileclose f s; open_fail ip s }
          | Some fd \<Rightarrow> do {
              s \<leftarrow> do_fs (iunlock ip) s;
              s \<leftarrow> do_fs end_op s;
              Some (int fd, upd_file f (\<lambda>g. g\<lparr>f_type := FD_INODE, f_ip := ip, f_off := 0,
                f_readable := (omode AND O_WRONLY = 0),
                f_writable := (omode AND O_WRONLY \<noteq> 0 \<or> omode AND O_RDWR \<noteq> 0)\<rparr>) s) } })"

definition sys_open :: "'a kernel_scheme \<Rightarrow> (int \<times> 'a kernel_scheme) option" where
  "sys_open s = do {
     (r0, s) \<leftarrow> argstr s 0;
     case r0 of None \<Rightarrow> Some (-1, s)
     | Some (_, path) \<Rightarrow> do {
         (r1, s) \<leftarrow> argint s 1;
         case r1 of None \<Rightarrow> Some (-1, s)
         | Some omode \<Rightarrow> do {
             p \<leftarrow> myproc s;
             s \<leftarrow> do_fs begin_op s;
             (r, s) \<leftarrow> in_fs (open_inode (p_cwd p) path omode) s;
             case r of
               None \<Rightarrow> do { s \<leftarrow> do_fs end_op s; Some (-1, s) }
             | Some ip \<Rightarrow> open_file ip omode s } } }"

text \<open>\<open>create\<close> and then \<open>iunlockput\<close>, the common part of \<open>sys_mkdir\<close> and \<open>sys_mknod\<close> after the arguments.\<close>

definition create_put :: "nat option \<Rightarrow> u8 list \<Rightarrow> u16 \<Rightarrow> u16 \<Rightarrow> u16 \<Rightarrow> 'a fsys_scheme \<Rightarrow> (int \<times> 'a fsys_scheme) option" where
  "create_put cwd path type major minor s = do {
     (r, s) \<leftarrow> create cwd path type major minor s;
     case r of
       None \<Rightarrow> do { s \<leftarrow> end_op s; Some (-1, s) }
     | Some ip \<Rightarrow> do { s \<leftarrow> iunlockput ip s; s \<leftarrow> end_op s; Some (0, s) } }"

definition op_failed :: "'a kernel_scheme \<Rightarrow> (int \<times> 'a kernel_scheme) option" where
  "op_failed s = do { s \<leftarrow> do_fs end_op s; Some (-1, s) }"

definition sys_mkdir :: "'a kernel_scheme \<Rightarrow> (int \<times> 'a kernel_scheme) option" where
  "sys_mkdir s = do {
     s \<leftarrow> do_fs begin_op s;
     (r, s) \<leftarrow> argstr s 0;
     case r of None \<Rightarrow> op_failed s
     | Some (_, path) \<Rightarrow> do {
         p \<leftarrow> myproc s;
         in_fs (create_put (p_cwd p) path T_DIR 0 0) s } }"

definition sys_mknod :: "'a kernel_scheme \<Rightarrow> (int \<times> 'a kernel_scheme) option" where
  "sys_mknod s = do {
     s \<leftarrow> do_fs begin_op s;
     (r, s) \<leftarrow> argstr s 0;
     case r of None \<Rightarrow> op_failed s
     | Some (_, path) \<Rightarrow> do {
         (r, s) \<leftarrow> argint s 1;
         case r of None \<Rightarrow> op_failed s
         | Some major \<Rightarrow> do {
             (r, s) \<leftarrow> argint s 2;
             case r of None \<Rightarrow> op_failed s
             | Some minor \<Rightarrow> do {
                 p \<leftarrow> myproc s;
                 in_fs (create_put (p_cwd p) path T_DEV (ucast major) (ucast minor)) s } } } }"

definition chdir_inode :: "nat option \<Rightarrow> u8 list \<Rightarrow> 'a fsys_scheme \<Rightarrow> (nat option \<times> 'a fsys_scheme) option" where
  "chdir_inode cwd path s = do {
     (r, s) \<leftarrow> namei cwd path s;
     case r of None \<Rightarrow> Some (None, s)
     | Some ip \<Rightarrow> do {
         s \<leftarrow> ilock ip s;
         if i_type (icache s ! ip) \<noteq> T_DIR then do { s \<leftarrow> iunlockput ip s; Some (None, s) }
         else do {
           s \<leftarrow> iunlock ip s;
           s \<leftarrow> (case cwd of None \<Rightarrow> ub | Some c \<Rightarrow> iput c s);
           Some (Some ip, s) } } }"

definition sys_chdir :: "'a kernel_scheme \<Rightarrow> (int \<times> 'a kernel_scheme) option" where
  "sys_chdir s =
     (case curproc s of None \<Rightarrow> ub
      | Some c \<Rightarrow> do {
          s \<leftarrow> do_fs begin_op s;
          (r, s) \<leftarrow> argstr s 0;
          case r of None \<Rightarrow> op_failed s
          | Some (_, path) \<Rightarrow> do {
              (r, s) \<leftarrow> in_fs (chdir_inode (p_cwd (procs s ! c)) path) s;
              case r of None \<Rightarrow> op_failed s
              | Some ip \<Rightarrow> do {
                  s \<leftarrow> do_fs end_op s;
                  Some (0, upd_proc c (\<lambda>p. p\<lparr>p_cwd := Some ip\<rparr>) s) } } })"

section \<open>Pipes\<close>

definition sys_pipe :: "'a kernel_scheme \<Rightarrow> (int \<times> 'a kernel_scheme) option" where
  "sys_pipe s = do {
     (r, s) \<leftarrow> argptr s 0 8;
     case r of None \<Rightarrow> Some (-1, s)
     | Some a \<Rightarrow> do {
         (r, s) \<leftarrow> pipealloc s;
         case r of None \<Rightarrow> Some (-1, s)
         | Some (rfile, wfile) \<Rightarrow> do {
             (r0, s) \<leftarrow> fdalloc rfile s;
             case r0 of
               None \<Rightarrow> do { s \<leftarrow> fileclose rfile s; s \<leftarrow> fileclose wfile s; Some (-1, s) }
             | Some fd0 \<Rightarrow> do {
                 (r1, s) \<leftarrow> fdalloc wfile s;
                 case r1 of
                   None \<Rightarrow> do { s \<leftarrow> clear_fd fd0 s; s \<leftarrow> fileclose rfile s; s \<leftarrow> fileclose wfile s; Some (-1, s) }
                 | Some fd1 \<Rightarrow> do {
                     s \<leftarrow> user_store32 s a (word_of_nat fd0);
                     s \<leftarrow> user_store32 s (a + 4) (word_of_nat fd1);
                     Some (0, s) } } } } }"

end
