(* ===== verification/Exec.thy ===== *)
theory Exec
  imports Sysfile
begin

text \<open>
  Programs and process life: \<open>exec.c\<close> with \<open>loaduvm\<close> of \<open>vm.c\<close> and \<open>sys_exec\<close>, and the parts of \<open>proc.c\<close> that use
  the file system (\<open>userinit\<close>, \<open>fork\<close>, \<open>sys_cow_fork\<close>, \<open>exit\<close>, \<open>forkret\<close>). The strings of \<open>argv\<close> are given by their
  bytes. The steps of \<open>exec\<close> that can fail give \<open>None\<close> where the code jumps to \<open>bad\<close>.
\<close>

section \<open>Loading\<close>

partial_function (option) loaduvm_loop ::
  "addr \<Rightarrow> addr \<Rightarrow> nat \<Rightarrow> u32 \<Rightarrow> u32 \<Rightarrow> u32 \<Rightarrow> 'a kernel_scheme \<Rightarrow> (int \<times> 'a kernel_scheme) option" where
  "loaduvm_loop pd va ip off sz i s =
     (if \<not> i < sz then Some (0, s)
      else do {
        let pte = fst (walkpgdir s pd (va + i) False);
        if pte = 0 then panic ''loaduvm: address should exist''
        else do {
          let pa = PTE_ADDR (load32 (mem s) pte);
          let n = (if sz - i < PGSIZE then sz - i else PGSIZE);
          ((r, xs), s) \<leftarrow> in_fs (\<lambda>t. map_option (\<lambda>(r, xs, t). ((r, xs), t)) (readi ip (off + i) n t)) s;
          let s = s\<lparr>mem := put_bytes (mem s) (P2V pa) xs\<rparr>;
          if word_of_int r \<noteq> n then Some (-1, s)
          else loaduvm_loop pd va ip off sz (i + PGSIZE) s } })"

definition loaduvm :: "addr \<Rightarrow> addr \<Rightarrow> nat \<Rightarrow> u32 \<Rightarrow> u32 \<Rightarrow> 'a kernel_scheme \<Rightarrow> (int \<times> 'a kernel_scheme) option" where
  "loaduvm pd va ip off sz s =
     (if va mod PGSIZE \<noteq> 0 then panic ''loaduvm: addr must be page aligned'' else loaduvm_loop pd va ip off sz 0 s)"

record proghdr =
  ph_type :: u32
  ph_off :: u32
  ph_vaddr :: u32
  ph_filesz :: u32
  ph_memsz :: u32

definition decode_proghdr :: "u8 list \<Rightarrow> proghdr" where
  "decode_proghdr d = \<lparr>ph_type = get32 d 0, ph_off = get32 d 4, ph_vaddr = get32 d 8, ph_filesz = get32 d 16, ph_memsz = get32 d 20\<rparr>"

record elfhdr =
  e_magic :: u32
  e_entry :: u32
  e_phoff :: u32
  e_phnum :: u16

definition decode_elfhdr :: "u8 list \<Rightarrow> elfhdr" where
  "decode_elfhdr d = \<lparr>e_magic = get32 d 0, e_entry = get32 d 24, e_phoff = get32 d 28, e_phnum = get16 d 44\<rparr>"

fun exec_load :: "nat \<Rightarrow> u32 \<Rightarrow> nat \<Rightarrow> addr \<Rightarrow> u32 \<Rightarrow> 'a kernel_scheme \<Rightarrow> (u32 option \<times> 'a kernel_scheme) option" where
  "exec_load 0 off ip pd sz s = Some (Some sz, s)"
| "exec_load (Suc k) off ip pd sz s = do {
     ((r, xs), s) \<leftarrow> in_fs (\<lambda>t. map_option (\<lambda>(r, xs, t). ((r, xs), t)) (readi ip off 32 t)) s;
     if r \<noteq> 32 then Some (None, s)
     else
       let ph = decode_proghdr xs in
       if ph_type ph \<noteq> 1 then exec_load k (off + 32) ip pd sz s
       else if ph_memsz ph < ph_filesz ph then Some (None, s)
       else if ph_vaddr ph + ph_memsz ph < ph_vaddr ph then Some (None, s)
       else do {
         (sz, s) \<leftarrow> allocuvm s pd sz (ph_vaddr ph + ph_memsz ph);
         if sz = 0 then Some (None, s)
         else if ph_vaddr ph mod PGSIZE \<noteq> 0 then Some (None, s)
         else do {
           (r, s) \<leftarrow> loaduvm pd (ph_vaddr ph) ip (ph_off ph) (ph_filesz ph) s;
           if r < 0 then Some (None, s) else exec_load k (off + 32) ip pd sz s } } }"

section \<open>Arguments\<close>

text \<open>The argument strings; the result has the stack pointer and the addresses of the strings.\<close>

fun exec_args :: "u8 list list \<Rightarrow> nat \<Rightarrow> u32 \<Rightarrow> u32 list \<Rightarrow> addr \<Rightarrow> 'a ksys_scheme \<Rightarrow> ((u32 \<times> u32 list) option \<times> 'a ksys_scheme) option" where
  "exec_args [] argc sp ptrs pd s = Some (Some (sp, ptrs), s)"
| "exec_args (x # xs) argc sp ptrs pd s =
     (if MAXARG \<le> argc then Some (None, s)
      else do {
        let sp = (sp - (word_of_nat (length x) + 1)) AND NOT 3;
        (r, s) \<leftarrow> copyout s pd sp (x @ [0]);
        if r < 0 then Some (None, s) else exec_args xs (Suc argc) sp (ptrs @ [sp]) pd s })"

definition exec_ustack :: "u32 \<Rightarrow> u32 list \<Rightarrow> u32 list" where
  "exec_ustack sp ptrs =
     [0xffffffff, word_of_nat (length ptrs), sp - (word_of_nat (length ptrs) + 1) * 4] @ ptrs @ [0]"

definition exec_stack :: "u8 list list \<Rightarrow> u32 \<Rightarrow> addr \<Rightarrow> 'a ksys_scheme \<Rightarrow> (u32 option \<times> 'a ksys_scheme) option" where
  "exec_stack argv sp pd s = do {
     (r, s) \<leftarrow> exec_args argv 0 sp [] pd s;
     case r of None \<Rightarrow> Some (None, s)
     | Some (sp, ptrs) \<Rightarrow> do {
         let ustack = exec_ustack sp ptrs;
         let sp = sp - (3 + word_of_nat (length ptrs) + 1) * 4;
         (r, s) \<leftarrow> copyout s pd sp (concat (map bytes32 ustack));
         if r < 0 then Some (None, s) else Some (Some sp, s) } }"

text \<open>The part of a path after its last slash, and \<open>safestrcpy\<close> into the 16 bytes of \<open>p->name\<close>.\<close>

fun path_last :: "u8 list \<Rightarrow> u8 list \<Rightarrow> u8 list" where
  "path_last [] acc = acc"
| "path_last (c # cs) acc = (if c = 47 then path_last cs cs else path_last cs acc)"

definition set_name :: "u8 list \<Rightarrow> u8 list \<Rightarrow> u8 list" where
  "set_name old t = put old 0 (take 15 t @ [0])"

section \<open>\<open>exec\<close>\<close>

text \<open>The \<open>bad\<close> exit: \<open>ip\<close> is \<open>None\<close> once the inode is put.\<close>

definition exec_bad :: "addr \<Rightarrow> nat option \<Rightarrow> 'a kernel_scheme \<Rightarrow> (int \<times> 'a kernel_scheme) option" where
  "exec_bad pd ip s = do {
     s \<leftarrow> (if pd = 0 then Some s else freevm s pd);
     s \<leftarrow> (case ip of None \<Rightarrow> Some s | Some i \<Rightarrow> do { s \<leftarrow> do_fs (iunlockput i) s; do_fs end_op s });
     Some (-1, s) }"

definition exec_commit :: "nat \<Rightarrow> u8 list \<Rightarrow> addr \<Rightarrow> u32 \<Rightarrow> u32 \<Rightarrow> u32 \<Rightarrow> 'a kernel_scheme \<Rightarrow> (int \<times> 'a kernel_scheme) option" where
  "exec_commit c path pd sz sp entry s = do {
     let old = p_pgdir (procs s ! c);
     let s = upd_proc c (\<lambda>p. p\<lparr>p_name := set_name (p_name p) (path_last path path), p_pgdir := pd, p_sz := sz,
            p_tf := (p_tf p)\<lparr>tf_eip := entry, tf_esp := sp\<rparr>\<rparr>) s;
     s \<leftarrow> switchuvm s (Some c);
     s \<leftarrow> freevm s old;
     Some (0, s) }"

definition exec_image :: "nat \<Rightarrow> u8 list \<Rightarrow> u8 list list \<Rightarrow> nat \<Rightarrow> elfhdr \<Rightarrow> addr \<Rightarrow> 'a kernel_scheme \<Rightarrow> (int \<times> 'a kernel_scheme) option" where
  "exec_image c path argv ip elf pd s = do {
     (r, s) \<leftarrow> exec_load (unat (e_phnum elf)) (e_phoff elf) ip pd 0 s;
     case r of None \<Rightarrow> exec_bad pd (Some ip) s
     | Some sz \<Rightarrow> do {
         s \<leftarrow> do_fs (iunlockput ip) s;
         s \<leftarrow> do_fs end_op s;
         let sz = PGROUNDUP sz;
         (sz, s) \<leftarrow> allocuvm s pd sz (sz + 2 * PGSIZE);
         if sz = 0 then exec_bad pd None s
         else do {
           s \<leftarrow> clearpteu s pd (sz - 2 * PGSIZE);
           (r, s) \<leftarrow> exec_stack argv sz pd s;
           case r of None \<Rightarrow> exec_bad pd None s
           | Some sp \<Rightarrow> exec_commit c path pd sz sp (e_entry elf) s } } }"

definition exec :: "u8 list \<Rightarrow> u8 list list \<Rightarrow> 'a kernel_scheme \<Rightarrow> (int \<times> 'a kernel_scheme) option" where
  "exec path argv s =
     (case curproc s of None \<Rightarrow> ub
      | Some c \<Rightarrow> do {
          s \<leftarrow> do_fs begin_op s;
          (r, s) \<leftarrow> in_fs (namei (p_cwd (procs s ! c)) path) s;
          case r of None \<Rightarrow> op_failed s
          | Some ip \<Rightarrow> do {
              s \<leftarrow> do_fs (ilock ip) s;
              ((r, xs), s) \<leftarrow> in_fs (\<lambda>t. map_option (\<lambda>(r, xs, t). ((r, xs), t)) (readi ip 0 52 t)) s;
              if r \<noteq> 52 then exec_bad 0 (Some ip) s
              else if e_magic (decode_elfhdr xs) \<noteq> 0x464C457F then exec_bad 0 (Some ip) s
              else do {
                (pd, s) \<leftarrow> setupkvm s;
                if pd = 0 then exec_bad 0 (Some ip) s
                else exec_image c path argv ip (decode_elfhdr xs) pd s } } })"

text \<open>The loop of \<open>sys_exec\<close> that fetches the argument strings.\<close>

fun fetch_argv :: "nat \<Rightarrow> addr \<Rightarrow> 'a ksys_scheme \<Rightarrow> (u8 list list option \<times> 'a ksys_scheme) option" where
  "fetch_argv 0 a s = Some (None, s)"
| "fetch_argv (Suc k) a s = do {
     (r, s) \<leftarrow> fetchint s a;
     case r of None \<Rightarrow> Some (None, s)
     | Some uarg \<Rightarrow>
         if uarg = 0 then Some (Some [], s)
         else do {
           (r, s) \<leftarrow> fetchstr s uarg;
           case r of None \<Rightarrow> Some (None, s)
           | Some (_, x) \<Rightarrow> do {
               (r, s) \<leftarrow> fetch_argv k (a + 4) s;
               Some (map_option ((#) x) r, s) } } }"

definition sys_exec :: "'a kernel_scheme \<Rightarrow> (int \<times> 'a kernel_scheme) option" where
  "sys_exec s = do {
     (r0, s) \<leftarrow> argstr s 0;
     case r0 of None \<Rightarrow> Some (-1, s)
     | Some (_, path) \<Rightarrow> do {
         (r1, s) \<leftarrow> argint s 1;
         case r1 of None \<Rightarrow> Some (-1, s)
         | Some uargv \<Rightarrow> do {
             (r, s) \<leftarrow> fetch_argv MAXARG uargv s;
             case r of None \<Rightarrow> Some (-1, s) | Some argv \<Rightarrow> exec path argv s } } }"

section \<open>Process life\<close>

text \<open>\<open>initcode\<close> and its size are the linker symbols of the first user program.\<close>

definition userinit :: "addr \<Rightarrow> u32 \<Rightarrow> 'a kernel_scheme \<Rightarrow> 'a kernel_scheme option" where
  "userinit initcode n s = do {
     (r, s) \<leftarrow> allocproc s;
     case r of None \<Rightarrow> ub
     | Some i \<Rightarrow> do {
         (pd, s) \<leftarrow> setupkvm (s\<lparr>initproc := Some i\<rparr>);
         if pd = 0 then panic ''userinit: out of memory?''
         else do {
           s \<leftarrow> inituvm (upd_proc i (\<lambda>p. p\<lparr>p_pgdir := pd\<rparr>) s) pd initcode n;
           let s = upd_proc i (\<lambda>p. p\<lparr>p_sz := PGSIZE, p_tf := zero_trapframe\<lparr>
                  tf_cs := ucast (push_bit 3 SEG_UCODE OR DPL_USER), tf_ds := ucast (push_bit 3 SEG_UDATA OR DPL_USER),
                  tf_es := ucast (push_bit 3 SEG_UDATA OR DPL_USER), tf_ss := ucast (push_bit 3 SEG_UDATA OR DPL_USER),
                  tf_eflags := FL_IF, tf_esp := PGSIZE, tf_eip := 0\<rparr>,
                  p_name := set_name (p_name p) [105, 110, 105, 116, 99, 111, 100, 101]\<rparr>) s;
           (ip, s) \<leftarrow> in_fs (namei None [47]) s;
           s \<leftarrow> ptable_acquire (upd_proc i (\<lambda>p. p\<lparr>p_cwd := ip\<rparr>) s);
           ptable_release (upd_proc i (\<lambda>p. p\<lparr>p_state := RUNNABLE\<rparr>) s) } } }"

definition fork_ofile :: "nat \<Rightarrow> nat \<Rightarrow> nat \<Rightarrow> 'a kernel_scheme \<Rightarrow> 'a kernel_scheme option" where
  "fork_ofile c np k s =
     (case p_ofile (procs s ! c) ! k of None \<Rightarrow> Some s
      | Some f \<Rightarrow> do {
          s \<leftarrow> filedup f s;
          Some (upd_proc np (\<lambda>p. p\<lparr>p_ofile := (p_ofile p)[k := Some f]\<rparr>) s) })"

definition fork_copy :: "nat \<Rightarrow> nat \<Rightarrow> 'a kernel_scheme \<Rightarrow> (int \<times> 'a kernel_scheme) option" where
  "fork_copy c np s = do {
     let cp = procs s ! c;
     let s = upd_proc np (\<lambda>p. p\<lparr>p_sz := p_sz cp, p_parent := Some c, p_tf := (p_tf cp)\<lparr>tf_eax := 0\<rparr>\<rparr>) s;
     s \<leftarrow> for_each (fork_ofile c np) [0..<NOFILE] s;
     (d, s) \<leftarrow> (case p_cwd cp of None \<Rightarrow> ub | Some d \<Rightarrow> in_fs (\<lambda>t. Some (idup d t)) s);
     let s = upd_proc np (\<lambda>p. p\<lparr>p_cwd := Some d,
            p_name := set_name (p_name p) (takeWhile (\<lambda>x. x \<noteq> 0) (p_name cp)),
            p_shm_idx := p_shm_idx cp, p_shm_va := p_shm_va cp\<rparr>) s;
     let pid = p_pid (procs s ! np);
     s \<leftarrow> ptable_acquire s;
     s \<leftarrow> ptable_release (upd_proc np (\<lambda>p. p\<lparr>p_state := RUNNABLE\<rparr>) s);
     Some (pid, s) }"

definition fork :: "'a kernel_scheme \<Rightarrow> (int \<times> 'a kernel_scheme) option" where
  "fork s =
     (case curproc s of None \<Rightarrow> ub
      | Some c \<Rightarrow> do {
          (r, s) \<leftarrow> allocproc s;
          case r of None \<Rightarrow> Some (-1, s)
          | Some np \<Rightarrow> do {
              (pd, s) \<leftarrow> copyuvm s (p_pgdir (procs s ! c)) (p_sz (procs s ! c));
              let s = upd_proc np (\<lambda>p. p\<lparr>p_pgdir := pd\<rparr>) s;
              if pd = 0 then do {
                s \<leftarrow> kfree s (p_kstack (procs s ! np));
                Some (-1, upd_proc np (\<lambda>p. p\<lparr>p_kstack := 0, p_state := UNUSED\<rparr>) s) }
              else fork_copy c np s } })"

text \<open>The body of \<open>sys_cow_fork\<close> is that of \<open>fork\<close>: it copies the memory.\<close>

definition sys_cow_fork :: "'a kernel_scheme \<Rightarrow> (int \<times> 'a kernel_scheme) option" where
  "sys_cow_fork s = fork s"

definition exit_ofile :: "nat \<Rightarrow> nat \<Rightarrow> 'a kernel_scheme \<Rightarrow> 'a kernel_scheme option" where
  "exit_ofile c fd s =
     (case p_ofile (procs s ! c) ! fd of None \<Rightarrow> Some s
      | Some f \<Rightarrow> do {
          s \<leftarrow> fileclose f s;
          Some (upd_proc c (\<lambda>p. p\<lparr>p_ofile := (p_ofile p)[fd := None]\<rparr>) s) })"

definition reparent :: "nat \<Rightarrow> nat \<Rightarrow> 'a ksys_scheme \<Rightarrow> 'a ksys_scheme" where
  "reparent c k s =
     (if p_parent (procs s ! k) = Some c then
        let s = upd_proc k (\<lambda>p. p\<lparr>p_parent := initproc s\<rparr>) s
        in if p_state (procs s ! k) = ZOMBIE then wakeup1 (map_option ProcChan (initproc s)) s else s
      else s)"

text \<open>\<open>exit\<close> ends in the scheduler.\<close>

definition exit :: "'a kernel_scheme \<Rightarrow> 'a kernel_scheme option" where
  "exit s =
     (case curproc s of None \<Rightarrow> ub
      | Some c \<Rightarrow>
          if initproc s = Some c then panic ''init exiting''
          else do {
            s \<leftarrow> for_each (exit_ofile c) [0..<NOFILE] s;
            s \<leftarrow> do_fs begin_op s;
            s \<leftarrow> (case p_cwd (procs s ! c) of None \<Rightarrow> ub | Some d \<Rightarrow> do_fs (iput d) s);
            s \<leftarrow> do_fs end_op s;
            s \<leftarrow> ptable_acquire (upd_proc c (\<lambda>p. p\<lparr>p_cwd := None\<rparr>) s);
            let s = wakeup1 (map_option ProcChan (p_parent (procs s ! c))) s;
            let s = fold (reparent c) [0..<length (procs s)] s;
            (_, s) \<leftarrow> sched (upd_proc c (\<lambda>p. p\<lparr>p_state := ZOMBIE\<rparr>) s);
            Some s })"

definition forkret :: "'a kernel_scheme \<Rightarrow> 'a kernel_scheme option" where
  "forkret s = do {
     s \<leftarrow> ptable_release s;
     if fork_first s then do {
       s \<leftarrow> do_fs (iinit ROOTDEV) (s\<lparr>fork_first := False\<rparr>);
       do_fs (initlog ROOTDEV) s }
     else Some s }"

definition sys_fork :: "'a kernel_scheme \<Rightarrow> (int \<times> 'a kernel_scheme) option" where
  "sys_fork s = fork s"

definition sys_exit :: "'a kernel_scheme \<Rightarrow> 'a kernel_scheme option" where
  "sys_exit s = exit s"

end
