(* ===== verification/Trap.thy ===== *)
theory Trap
  imports Exec
begin

text \<open>
  System-call dispatch, \<open>syscall.c\<close>, and traps, \<open>trap.c\<close>. A trap ends with the interrupted code going on, or with
  the process off the CPU, in the scheduler. The address in \<open>cr2\<close> and the characters the keyboard and the serial port
  have ready are arguments. The interrupt controller (\<open>lapiceoi\<close>) and the handler of the in-memory disk have no effect on
  the modelled state, and the messages printed for a killed process are left out.
\<close>

section \<open>System calls\<close>

text \<open>
  What a system call leaves for \<open>eax\<close>: a value; nothing, because the process sleeps inside the call or has exited; or
  an unspecified value, because the function ends without a \<open>return\<close>.
\<close>

datatype sysret = Ret u32 | Off | NoValue

definition int_call :: "('s \<Rightarrow> (int \<times> 's) option) \<Rightarrow> 's \<Rightarrow> (sysret \<times> 's) option" where
  "int_call f s = do { (r, s) \<leftarrow> f s; Some (Ret (word_of_int r), s) }"

definition word_call :: "('s \<Rightarrow> (u32 \<times> 's) option) \<Rightarrow> 's \<Rightarrow> (sysret \<times> 's) option" where
  "word_call f s = do { (r, s) \<leftarrow> f s; Some (Ret r, s) }"

definition wait_call :: "('s \<Rightarrow> (int option \<times> 's) option) \<Rightarrow> 's \<Rightarrow> (sysret \<times> 's) option" where
  "wait_call f s = do { (r, s) \<leftarrow> f s; Some (case r of None \<Rightarrow> Off | Some v \<Rightarrow> Ret (word_of_int v), s) }"

definition void_call :: "('s \<Rightarrow> (int option \<times> 's) option) \<Rightarrow> 's \<Rightarrow> (sysret \<times> 's) option" where
  "void_call f s = do { (r, s) \<leftarrow> f s; Some (case r of None \<Rightarrow> NoValue | Some v \<Rightarrow> Ret (word_of_int v), s) }"

definition read_call :: "('s \<Rightarrow> int option) \<Rightarrow> 's \<Rightarrow> (sysret \<times> 's) option" where
  "read_call f s = do { r \<leftarrow> f s; Some (Ret (word_of_int r), s) }"

definition syscalls :: "('a kernel_scheme \<Rightarrow> (sysret \<times> 'a kernel_scheme) option) option list" where
  "syscalls =
     [None,
      Some (int_call sys_fork),
      Some (\<lambda>s. do { s \<leftarrow> sys_exit s; Some (Off, s) }),
      Some (wait_call sys_wait),
      Some (int_call sys_pipe),
      Some (wait_call sys_read),
      Some (int_call sys_kill),
      Some (int_call sys_exec),
      Some (int_call sys_fstat),
      Some (int_call sys_chdir),
      Some (int_call sys_dup),
      Some (read_call sys_getpid),
      Some (int_call sys_sbrk),
      Some (wait_call sys_sleep),
      Some (word_call sys_uptime),
      Some (int_call sys_open),
      Some (wait_call sys_write),
      Some (int_call sys_mknod),
      Some (int_call sys_unlink),
      Some (int_call sys_link),
      Some (int_call sys_mkdir),
      Some (int_call sys_close),
      Some (\<lambda>s. do { s \<leftarrow> sys_greet s; Some (NoValue, s) }),
      Some (read_call (\<lambda>s. map_option int (sys_numvp s))),
      Some (read_call (\<lambda>s. map_option int (sys_numpp s))),
      Some (read_call (\<lambda>s. map_option int (sys_getptsize s))),
      Some (int_call sys_mmap),
      Some (void_call sys_munmap),
      Some (word_call sys_shm_open),
      Some (read_call (\<lambda>s. map_option uint (sys_shm_get s))),
      Some (void_call sys_shm_close),
      Some (word_call sys_va_to_pa),
      Some (int_call sys_cow_fork)]"

definition set_eax :: "nat \<Rightarrow> u32 \<Rightarrow> 'a ksys_scheme \<Rightarrow> 'a ksys_scheme" where
  "set_eax c v s = upd_proc c (\<lambda>p. p\<lparr>p_tf := (p_tf p)\<lparr>tf_eax := v\<rparr>\<rparr>) s"

text \<open>The flag of the result is whether the process is still on the CPU.\<close>

definition syscall :: "'a kernel_scheme \<Rightarrow> (bool \<times> 'a kernel_scheme) option" where
  "syscall s =
     (case curproc s of None \<Rightarrow> ub
      | Some c \<Rightarrow>
          let num = tf_eax (p_tf (procs s ! c)) in
          if 0 < sint num \<and> sint num < int (length (syscalls :: ('a kernel_scheme \<Rightarrow> _) option list))
            \<and> syscalls ! unat num \<noteq> (None :: ('a kernel_scheme \<Rightarrow> _) option)
          then do {
            (r, s) \<leftarrow> the (syscalls ! unat num) s;
            case r of Ret v \<Rightarrow> Some (True, set_eax c v s) | Off \<Rightarrow> Some (False, s) | NoValue \<Rightarrow> Some (True, s) }
          else Some (True, set_eax c (- 1) s))"

section \<open>Traps\<close>

abbreviation (input) T_PGFLT :: u32 where "T_PGFLT \<equiv> 14"
abbreviation (input) T_IRQ0 :: u32 where "T_IRQ0 \<equiv> 32"
abbreviation (input) T_SYSCALL :: u32 where "T_SYSCALL \<equiv> 64"
abbreviation (input) IRQ_TIMER :: u32 where "IRQ_TIMER \<equiv> 0"
abbreviation (input) IRQ_KBD :: u32 where "IRQ_KBD \<equiv> 1"
abbreviation (input) IRQ_COM1 :: u32 where "IRQ_COM1 \<equiv> 4"
abbreviation (input) IRQ_IDE :: u32 where "IRQ_IDE \<equiv> 14"
abbreviation (input) IRQ_SPURIOUS :: u32 where "IRQ_SPURIOUS \<equiv> 31"

definition tvinit :: "u32 list \<Rightarrow> 'a ksys_scheme \<Rightarrow> 'a ksys_scheme" where
  "tvinit vectors s =
     (let gates = map (\<lambda>i. SETGATE False (push_bit 3 SEG_KCODE) (vectors ! i) 0) [0..<256]
      in s\<lparr>idt := gates[unat T_SYSCALL := SETGATE True (push_bit 3 SEG_KCODE) (vectors ! unat T_SYSCALL) DPL_USER],
           tickslock := initlock ''time'' (tickslock s)\<rparr>)"

definition killed_now :: "'a ksys_scheme \<Rightarrow> bool" where
  "killed_now s = (case myproc s of None \<Rightarrow> False | Some p \<Rightarrow> p_killed p)"

definition trap_syscall :: "trapframe \<Rightarrow> 'a kernel_scheme \<Rightarrow> (bool \<times> 'a kernel_scheme) option" where
  "trap_syscall tf s =
     (case curproc s of None \<Rightarrow> ub
      | Some c \<Rightarrow>
          if p_killed (procs s ! c) then do { s \<leftarrow> exit s; Some (False, s) }
          else do {
            (on, s) \<leftarrow> syscall (upd_proc c (\<lambda>p. p\<lparr>p_tf := tf\<rparr>) s);
            if \<not> on then Some (False, s)
            else if p_killed (procs s ! c) then do { s \<leftarrow> exit s; Some (False, s) }
            else Some (True, s) })"

definition trap_timer :: "'a ksys_scheme \<Rightarrow> 'a ksys_scheme option" where
  "trap_timer s = do {
     s \<leftarrow> ticks_acquire s;
     s \<leftarrow> wakeup (Some TicksChan) (s\<lparr>ticks := ticks s + 1\<rparr>);
     ticks_release s }"

definition trap_console :: "u32 list \<Rightarrow> 'a kernel_scheme \<Rightarrow> 'a kernel_scheme option" where
  "trap_console cs s = do {
     ((woken, _), c) \<leftarrow> consoleintr cs (cons (kfs s));
     let s = s\<lparr>kfs := (kfs s)\<lparr>cons := c\<rparr>\<rparr>;
     if woken then wakeup (Some InputChan) s else Some s }"

definition trap_other :: "trapframe \<Rightarrow> 'a ksys_scheme \<Rightarrow> 'a ksys_scheme option" where
  "trap_other tf s =
     (case curproc s of
        None \<Rightarrow> panic ''trap''
      | Some c \<Rightarrow> if tf_cs tf AND 3 = 0 then panic ''trap'' else Some (upd_proc c (\<lambda>p. p\<lparr>p_killed := True\<rparr>) s))"

text \<open>The \<open>switch\<close> of \<open>trap\<close>.\<close>

definition trap_irq :: "trapframe \<Rightarrow> u32 list \<Rightarrow> u32 list \<Rightarrow> 'a kernel_scheme \<Rightarrow> 'a kernel_scheme option" where
  "trap_irq tf kbd com s =
     (let n = tf_trapno tf in
      if n = T_IRQ0 + IRQ_TIMER then trap_timer s
      else if n = T_IRQ0 + IRQ_IDE \<or> n = T_IRQ0 + IRQ_IDE + 1 then Some s
      else if n = T_IRQ0 + IRQ_KBD then trap_console kbd s
      else if n = T_IRQ0 + IRQ_COM1 then trap_console com s
      else if n = T_IRQ0 + 7 \<or> n = T_IRQ0 + IRQ_SPURIOUS then Some s
      else trap_other tf s)"

definition from_user :: "trapframe \<Rightarrow> bool" where
  "from_user tf \<longleftrightarrow> tf_cs tf AND 3 = ucast (DPL_USER :: u32)"

text \<open>
  The whole handler; with \<open>False\<close> the CPU is in the scheduler. After the \<open>yield\<close> of a clock tick the process
  goes on, when it is scheduled again, with \<open>trap_yielded\<close>.
\<close>

definition trap :: "trapframe \<Rightarrow> addr \<Rightarrow> u32 list \<Rightarrow> u32 list \<Rightarrow> 'a kernel_scheme \<Rightarrow> (bool \<times> 'a kernel_scheme) option" where
  "trap tf cr2 kbd com s =
     (if tf_trapno tf = T_SYSCALL then trap_syscall tf s
      else if tf_trapno tf = T_PGFLT then do {
        (resume, s) \<leftarrow> page_fault s cr2;
        if resume then Some (True, s) else do { s \<leftarrow> exit s; Some (False, s) } }
      else do {
        s \<leftarrow> trap_irq tf kbd com s;
        if killed_now s \<and> from_user tf then do { s \<leftarrow> exit s; Some (False, s) }
        else case myproc s of
          Some p \<Rightarrow>
            if p_state p = RUNNING \<and> tf_trapno tf = T_IRQ0 + IRQ_TIMER
            then do { (_, s) \<leftarrow> yield s; Some (False, s) } else Some (True, s)
        | None \<Rightarrow> Some (True, s) })"

definition trap_yielded :: "trapframe \<Rightarrow> bool \<Rightarrow> 'a kernel_scheme \<Rightarrow> (bool \<times> 'a kernel_scheme) option" where
  "trap_yielded tf saved s = do {
     s \<leftarrow> ptable_release (sched_return saved s);
     if killed_now s \<and> from_user tf then do { s \<leftarrow> exit s; Some (False, s) } else Some (True, s) }"

end
