(* ===== verification/Ide.thy ===== *)
theory Ide
  imports Bio_Lru
begin

text \<open>
  The driver of the IDE disk, \<open>ide.c\<close>, which the kernel uses unless it is built with the disk in memory. The instructions that access
  the ports of the controller are parameters: \<open>io\<close> gives what \<open>inb\<close>, \<open>outb\<close>, \<open>insl\<close> and \<open>outsl\<close> do to the state of the device. The queue of
  requests is linked through the buffers; the lock \<open>idelock\<close> makes each operation atomic. \<open>iderw\<close> ends here where the process sleeps for its buffer,
  and \<open>ide_woken\<close> lists the buffers whose processes have been woken.
\<close>

section \<open>Operations\<close>

record 'd ports =
  inb :: "u16 \<Rightarrow> 'd \<Rightarrow> u8 \<times> 'd"
  outb :: "u16 \<Rightarrow> u8 \<Rightarrow> 'd \<Rightarrow> 'd"
  insl :: "u16 \<Rightarrow> nat \<Rightarrow> 'd \<Rightarrow> u8 list \<times> 'd"
  outsl :: "u16 \<Rightarrow> u8 list \<Rightarrow> 'd \<Rightarrow> 'd"

record 'd ide_state = fsys +
  idequeue :: "nat option"
  qnext :: "nat \<Rightarrow> nat option"
  havedisk1 :: bool
  ide_woken :: "nat list"
  device :: 'd

partial_function (option) idewait_loop :: "'d ports \<Rightarrow> 'd \<Rightarrow> (u8 \<times> 'd) option" where
  "idewait_loop io d = (case inb io 0x1f7 d of (r, d) \<Rightarrow> if r AND 0xc0 \<noteq> 0x40 then idewait_loop io d else Some (r, d))"

definition idewait :: "'d ports \<Rightarrow> bool \<Rightarrow> 'd \<Rightarrow> (int \<times> 'd) option" where
  "idewait io checkerr d = do {
     (r, d) \<leftarrow> idewait_loop io d;
     Some (if checkerr \<and> r AND 0x21 \<noteq> 0 then -1 else 0, d) }"

fun probe_loop :: "'d ports \<Rightarrow> nat \<Rightarrow> 'd \<Rightarrow> bool \<times> 'd" where
  "probe_loop io 0 d = (False, d)"
| "probe_loop io (Suc n) d = (case inb io 0x1f7 d of (r, d) \<Rightarrow> if r \<noteq> 0 then (True, d) else probe_loop io n d)"

definition ideinit_disk :: "'d ports \<Rightarrow> 'd ide_state \<Rightarrow> 'd ide_state option" where
  "ideinit_disk io s = do {
     (_, d) \<leftarrow> idewait io False (device s);
     let (found, d) = probe_loop io 1000 (outb io 0x1f6 (0xe0 OR push_bit 4 1) d);
     Some (s\<lparr>havedisk1 := havedisk1 s \<or> found, device := outb io 0x1f6 (0xe0 OR push_bit 4 0) d\<rparr>) }"

definition idestart :: "'d ports \<Rightarrow> nat \<Rightarrow> 'd ide_state \<Rightarrow> 'd ide_state option" where
  "idestart io b s =
     (let bf = bufs s ! b; sector = b_blockno bf in
      if FSSIZE \<le> unat (b_blockno bf) then panic ''incorrect blockno''
      else do {
        (_, d) \<leftarrow> idewait io False (device s);
        let d = outb io 0x3f6 0 d;
        let d = outb io 0x1f2 1 d;
        let d = outb io 0x1f3 (ucast (sector AND 0xff)) d;
        let d = outb io 0x1f4 (ucast (drop_bit 8 sector AND 0xff)) d;
        let d = outb io 0x1f5 (ucast (drop_bit 16 sector AND 0xff)) d;
        let d = outb io 0x1f6 (ucast (0xe0 OR push_bit 4 (b_dev bf AND 1) OR (drop_bit 24 sector AND 0x0f))) d;
        Some (s\<lparr>device :=
          (if has_flag (b_flags bf) B_DIRTY then outsl io 0x1f0 (b_data bf) (outb io 0x1f7 0x30 d)
           else outb io 0x1f7 0x20 d)\<rparr>) })"

definition ideintr :: "'d ports \<Rightarrow> 'd ide_state \<Rightarrow> 'd ide_state option" where
  "ideintr io s =
     (case idequeue s of
        None \<Rightarrow> Some s
      | Some b \<Rightarrow> do {
          let s = s\<lparr>idequeue := qnext s b\<rparr>;
          s \<leftarrow> (if has_flag (b_flags (bufs s ! b)) B_DIRTY then Some s
               else do {
                 (r, d) \<leftarrow> idewait io True (device s);
                 if r \<ge> 0 then do {
                   let (ws, d) = insl io 0x1f0 (BSIZE div 4) d;
                   Some (upd_buf b (\<lambda>bf. bf\<lparr>b_data := ws\<rparr>) (s\<lparr>device := d\<rparr>)) }
                 else Some (s\<lparr>device := d\<rparr>) });
          let s = upd_buf b (\<lambda>bf. bf\<lparr>b_flags := (b_flags bf OR B_VALID) AND NOT B_DIRTY\<rparr>) s;
          let s = s\<lparr>ide_woken := ide_woken s @ [b]\<rparr>;
          case idequeue s of None \<Rightarrow> Some s | Some c \<Rightarrow> idestart io c s })"

partial_function (option) queue_last :: "'d ide_state \<Rightarrow> nat \<Rightarrow> nat option" where
  "queue_last s p = (case qnext s p of None \<Rightarrow> Some p | Some p' \<Rightarrow> queue_last s p')"

definition iderw_disk :: "'d ports \<Rightarrow> nat \<Rightarrow> 'd ide_state \<Rightarrow> 'd ide_state option" where
  "iderw_disk io b s =
     (let bf = bufs s ! b in
      if \<not> holdingsleep (fs_pid s) (b_lock bf) then panic ''iderw: buf not locked''
      else if b_flags bf AND (B_VALID OR B_DIRTY) = B_VALID then panic ''iderw: nothing to do''
      else if b_dev bf \<noteq> 0 \<and> \<not> havedisk1 s then panic ''iderw: ide disk 1 not present''
      else do {
        let s = s\<lparr>qnext := (qnext s)(b := None)\<rparr>;
        s \<leftarrow> (case idequeue s of
               None \<Rightarrow> Some (s\<lparr>idequeue := Some b\<rparr>)
             | Some p \<Rightarrow> do {
                 e \<leftarrow> queue_last s p;
                 Some (s\<lparr>qnext := (qnext s)(e := Some b)\<rparr>) });
        if idequeue s = Some b then idestart io b s else Some s })"

text \<open>The test of the loop in which the process sleeps.\<close>

definition ide_done :: "nat \<Rightarrow> 'd ide_state \<Rightarrow> bool" where
  "ide_done b s \<longleftrightarrow> b_flags (bufs s ! b) AND (B_VALID OR B_DIRTY) = B_VALID"

section \<open>The device\<close>

text \<open>
  What the driver relies on: the controller of the ATA standard with programmed input and output. \<open>regs\<close> are the registers last written,
  \<open>content\<close> the sectors of the two drives, and \<open>wanted\<close> the sector a read command has been given for. The controller becomes ready without an error
  after every command; the command register starts a read, or a write of the data that follows, of the sector whose address the other registers hold.
\<close>

definition lba :: "(u16 \<Rightarrow> u8) \<Rightarrow> u32" where
  "lba r = ucast (r 0x1f3) OR push_bit 8 (ucast (r 0x1f4)) OR push_bit 16 (ucast (r 0x1f5)) OR push_bit 24 (ucast (r 0x1f6 AND 0x0f))"

definition drive :: "(u16 \<Rightarrow> u8) \<Rightarrow> bool" where
  "drive r \<longleftrightarrow> r 0x1f6 AND 0x10 \<noteq> 0"

definition ata_disk :: "'d ports \<Rightarrow> ('d \<Rightarrow> u16 \<Rightarrow> u8) \<Rightarrow> ('d \<Rightarrow> bool \<Rightarrow> u32 \<Rightarrow> block) \<Rightarrow> ('d \<Rightarrow> (bool \<times> u32) option) \<Rightarrow> bool" where
  "ata_disk io regs content wanted \<longleftrightarrow>
     (\<forall>d. \<exists>r d'. idewait_loop io d = Some (r, d') \<and> r AND 0x21 = 0 \<and> regs d' = regs d \<and> content d' = content d \<and> wanted d' = wanted d)
     \<and> (\<forall>d p v. p \<noteq> 0x1f7 \<longrightarrow> regs (outb io p v d) = (regs d)(p := v) \<and> content (outb io p v d) = content d)
     \<and> (\<forall>d. regs d 0x1f2 = 1 \<longrightarrow> content (outb io 0x1f7 0x20 d) = content d \<and> wanted (outb io 0x1f7 0x20 d) = Some (drive (regs d), lba (regs d)))
     \<and> (\<forall>d ws. regs d 0x1f2 = 1 \<longrightarrow> length ws = 512 \<longrightarrow> content (outsl io 0x1f0 ws (outb io 0x1f7 0x30 d)) =
          (content d)(drive (regs d) := (content d (drive (regs d)))(lba (regs d) := ws)))
     \<and> (\<forall>d v n. wanted d = Some (v, n) \<longrightarrow> (\<exists>d'. insl io 0x1f0 128 d = (content d v n, d') \<and> content d' = content d))"

lemma ucast_and_ff: "(ucast (w AND 0xff) :: u8) = ucast (w :: u32)"
  by (simp only: and_FF_ucast) (auto intro!: bit_word_eqI simp: bit_simps)

text \<open>The address the driver writes to the registers is the number of the block.\<close>

lemma lba_written:
  fixes n :: u32
  assumes "unat n < 1000" "r 0x1f3 = ucast (n AND 0xff)" "r 0x1f4 = ucast (drop_bit 8 n AND 0xff)" "r 0x1f5 = ucast (drop_bit 16 n AND 0xff)"
    "r 0x1f6 = ucast (0xe0 OR push_bit 4 (1 AND 1 :: u32) OR (drop_bit 24 n AND 0x0f))"
  shows "lba r = n" "drive r"
proof -
  have z: "drop_bit 24 n = 0" using assms(1) by (intro word_unat_eq_iff [THEN iffD2]) (simp add: drop_bit_eq_div unat_div)
  then have r6: "r 0x1f6 = 0xf0" using assms(5) by simp
  have "n = ucast (ucast n :: u8) OR push_bit 8 (ucast (ucast (drop_bit 8 n) :: u8)) OR push_bit 16 (ucast (ucast (drop_bit 16 n) :: u8))"
    using join_bytes32 [of n] z by simp
  then show "lba r = n" using assms(2-4) r6 by (simp add: lba_def ucast_and_ff)
  show "drive r" by (simp add: drive_def r6)
qed

lemma ata_wait:
  assumes "ata_disk io regs content wanted"
  obtains d' where "idewait io chk d = Some (0, d')" "regs d' = regs d" "content d' = content d" "wanted d' = wanted d"
proof -
  obtain r d' where "idewait_loop io d = Some (r, d')" "r AND 0x21 = 0" "regs d' = regs d" "content d' = content d" "wanted d' = wanted d"
    using assms unfolding ata_disk_def by meson
  then show thesis using that [of d'] by (simp add: idewait_def)
qed

lemma ataD:
  assumes "ata_disk io regs content wanted"
  shows "p \<noteq> 0x1f7 \<Longrightarrow> regs (outb io p v d) = (regs d)(p := v)" "p \<noteq> 0x1f7 \<Longrightarrow> content (outb io p v d) = content d"
    "regs d 0x1f2 = 1 \<Longrightarrow> content (outb io 0x1f7 0x20 d) = content d"
    "regs d 0x1f2 = 1 \<Longrightarrow> wanted (outb io 0x1f7 0x20 d) = Some (drive (regs d), lba (regs d))"
    "regs d 0x1f2 = 1 \<Longrightarrow> length ws = 512 \<Longrightarrow> content (outsl io 0x1f0 ws (outb io 0x1f7 0x30 d)) =
      (content d)(drive (regs d) := (content d (drive (regs d)))(lba (regs d) := ws))"
  using assms unfolding ata_disk_def by blast+

lemma idestart_ok:
  assumes a: "ata_disk io regs content wanted" and b: "bf = bufs s ! b" "unat (b_blockno bf) < 1000" "b_dev bf = 1" "length (b_data bf) = 512"
  obtains d where "idestart io b s = Some (s\<lparr>device := d\<rparr>)"
    "if has_flag (b_flags bf) B_DIRTY then content d True = (content (device s) True)(b_blockno bf := b_data bf)
     else content d True = content (device s) True \<and> wanted d = Some (True, b_blockno bf)"
proof -
  obtain d0 where w: "idewait io False (device s) = Some (0, d0)" "content d0 = content (device s)" by (rule ata_wait [OF a])
  let ?n = "b_blockno bf"
  define d1 where "d1 = outb io 0x1f6 (ucast (0xe0 OR push_bit 4 (b_dev bf AND 1) OR (drop_bit 24 ?n AND 0x0f)))
    (outb io 0x1f5 (ucast (drop_bit 16 ?n AND 0xff)) (outb io 0x1f4 (ucast (drop_bit 8 ?n AND 0xff)) (outb io 0x1f3 (ucast (?n AND 0xff)) (outb io 0x1f2 1 (outb io 0x3f6 0 d0)))))"
  have r: "regs d1 = (regs d0)(0x3f6 := 0, 0x1f2 := 1, 0x1f3 := ucast (?n AND 0xff), 0x1f4 := ucast (drop_bit 8 ?n AND 0xff), 0x1f5 := ucast (drop_bit 16 ?n AND 0xff),
    0x1f6 := ucast (0xe0 OR push_bit 4 (b_dev bf AND 1) OR (drop_bit 24 ?n AND 0x0f)))" and c: "content d1 = content d0"
    unfolding d1_def by (simp_all add: ataD(1,2) [OF a])
  have l: "lba (regs d1) = ?n" "drive (regs d1)" by (rule lba_written [of ?n]; use b(2,3) r in simp)+
  have one: "regs d1 0x1f2 = 1" using r by simp
  define d where "d = (if has_flag (b_flags bf) B_DIRTY then outsl io 0x1f0 (b_data bf) (outb io 0x1f7 0x30 d1) else outb io 0x1f7 0x20 d1)"
  have "idestart io b s = Some (s\<lparr>device := d\<rparr>)" using w(1) b(1,2) unfolding idestart_def by (simp add: d_def d1_def Let_def)
  then show thesis using that [of d] ataD(3,4) [OF a one] ataD(5) [OF a one b(4)] l c w(2) by (simp add: d_def)
qed

section \<open>The queue\<close>

text \<open>The list of the buffers from \<open>p\<close> on.\<close>

fun queue :: "(nat \<Rightarrow> nat option) \<Rightarrow> nat option \<Rightarrow> nat list \<Rightarrow> bool" where
  "queue nx p [] \<longleftrightarrow> p = None"
| "queue nx p (b # q) \<longleftrightarrow> p = Some b \<and> queue nx (nx b) q"

lemma queue_upd: "b \<notin> set q \<Longrightarrow> queue (nx(b := v)) p q = queue nx p q"
  by (induction q arbitrary: p) auto

lemma queue_last_ok: "queue (qnext s) (Some p) q \<Longrightarrow> queue_last s p = Some (last q)"
proof (induction q arbitrary: p)
  case (Cons b q)
  then show ?case by (cases q) (auto simp: queue_last.simps [of s b])
qed simp

lemma queue_append: "queue nx p q \<Longrightarrow> q \<noteq> [] \<Longrightarrow> distinct q \<Longrightarrow> b \<notin> set q \<Longrightarrow> nx b = None \<Longrightarrow> queue (nx(last q := Some b)) p (q @ [b])"
proof (induction q arbitrary: p)
  case (Cons c q)
  then show ?case by (cases q) (auto simp: queue_upd)
qed simp

section \<open>The disk in memory as the specification\<close>

text \<open>
  The state \<open>t\<close> of the kernel with the disk in memory that has served all requests before those in the queue \<open>q\<close>: it has the same buffers, and the
  same disk except that the first request, which the device is working on, may already be on the IDE disk. The requests are for buffers of the second drive whose lock is held.
\<close>

definition request_ok :: "buf \<Rightarrow> bool" where
  "request_ok bf \<longleftrightarrow> sl_locked (b_lock bf) \<and> b_flags bf AND (B_VALID OR B_DIRTY) \<noteq> B_VALID \<and> b_dev bf = 1 \<and> unat (b_blockno bf) < FSSIZE \<and> length (b_data bf) = BSIZE"

definition device_at ::
  "('d \<Rightarrow> bool \<Rightarrow> u32 \<Rightarrow> block) \<Rightarrow> ('d \<Rightarrow> (bool \<times> u32) option) \<Rightarrow> 'd \<Rightarrow> (u32 \<Rightarrow> block) \<Rightarrow> buf list \<Rightarrow> nat list \<Rightarrow> bool" where
  "device_at content wanted d dk bfs q \<longleftrightarrow>
     (case q of
        [] \<Rightarrow> content d True = dk
      | b # _ \<Rightarrow>
          if has_flag (b_flags (bfs ! b)) B_DIRTY then content d True = dk(b_blockno (bfs ! b) := b_data (bfs ! b))
          else content d True = dk \<and> wanted d = Some (True, b_blockno (bfs ! b)))"

definition ide_sim :: "('d \<Rightarrow> bool \<Rightarrow> u32 \<Rightarrow> block) \<Rightarrow> ('d \<Rightarrow> (bool \<times> u32) option) \<Rightarrow> 'd ide_state \<Rightarrow> 'a fsys_scheme \<Rightarrow> nat list \<Rightarrow> bool" where
  "ide_sim content wanted s t q \<longleftrightarrow>
     queue (qnext s) (idequeue s) q \<and> distinct q \<and> (\<forall>b \<in> set q. b < length (bufs s) \<and> request_ok (bufs s ! b)) \<and> havedisk1 s
     \<and> bufs t = bufs s \<and> disksize t = word_of_nat FSSIZE \<and> device_at content wanted (device s) (disk t) (bufs s) q"

lemma device_at_append: "q \<noteq> [] \<Longrightarrow> device_at content wanted d dk bfs (q @ r) = device_at content wanted d dk bfs q"
  by (cases q) (simp_all add: device_at_def)

lemma idestart_sim:
  assumes a: "ata_disk io regs content wanted" and b: "request_ok (bufs s ! b)" and c: "content (device s) True = dk"
  obtains d where "idestart io b s = Some (s\<lparr>device := d\<rparr>)" "device_at content wanted d dk (bufs s) (b # q)"
proof -
  have r: "unat (b_blockno (bufs s ! b)) < 1000" "b_dev (bufs s ! b) = 1" "length (b_data (bufs s ! b)) = 512" using b by (simp_all add: request_ok_def)
  show thesis by (rule idestart_ok [OF a refl r]) (use that c in \<open>simp add: device_at_def\<close>)
qed

lemma request_sim:
  assumes a: "ata_disk io regs content wanted" and i: "ide_sim content wanted s t q"
    and b: "b \<notin> set q" "b < length (bufs s)" "request_ok (bufs s ! b)" "sl_pid (b_lock (bufs s ! b)) = fs_pid s"
  obtains s' where "iderw_disk io b s = Some s'" "ide_sim content wanted s' t (q @ [b])" "ide_woken s' = ide_woken s"
proof -
  let ?s = "s\<lparr>qnext := (qnext s)(b := None)\<rparr>"
  have g: "holdingsleep (fs_pid s) (b_lock (bufs s ! b))" "\<not> (b_flags (bufs s ! b) AND 6 = 2)" "havedisk1 s"
    using b i by (auto simp: request_ok_def holdingsleep_def ide_sim_def)
  have q: "queue (qnext ?s) (idequeue ?s) q" using i b(1) by (simp add: ide_sim_def queue_upd)
  show thesis
  proof (cases q)
    case Nil
    let ?s1 = "?s\<lparr>idequeue := Some b\<rparr>"
    have c: "content (device ?s1) True = disk t" using i Nil by (simp add: ide_sim_def device_at_def)
    have r: "request_ok (bufs ?s1 ! b)" using b(3) by simp
    obtain d where d: "idestart io b ?s1 = Some (?s1\<lparr>device := d\<rparr>)" "device_at content wanted d (disk t) (bufs ?s1) [b]"
      by (rule idestart_sim [OF a r c])
    have "iderw_disk io b s = Some (?s1\<lparr>device := d\<rparr>)" using g q d(1) Nil by (simp add: iderw_disk_def)
    moreover have "ide_sim content wanted (?s1\<lparr>device := d\<rparr>) t (q @ [b])" using i d(2) b Nil by (simp add: ide_sim_def)
    ultimately show thesis using that by simp
  next
    case (Cons c r)
    let ?s1 = "?s\<lparr>qnext := (qnext ?s)(last q := Some b)\<rparr>"
    have d: "distinct q" using i by (simp add: ide_sim_def)
    have p: "idequeue ?s = Some c" "c \<noteq> b" using q Cons b(1) by auto
    have "queue_last ?s c = Some (last q)" by (rule queue_last_ok) (use q p in simp)
    then have run: "iderw_disk io b s = Some ?s1" using g p by (simp add: iderw_disk_def)
    moreover have "queue (qnext ?s1) (idequeue ?s1) (q @ [b])" using queue_append [OF q _ d b(1)] Cons by simp
    moreover have "device_at content wanted (device s) (disk t) (bufs s) (q @ [b])" using i Cons by (subst device_at_append) (simp_all add: ide_sim_def)
    ultimately have "ide_sim content wanted ?s1 t (q @ [b])" "iderw_disk io b s = Some ?s1" using i b by (auto simp: ide_sim_def simp del: queue.simps)
    then show thesis using that by simp
  qed
qed

lemma flag_bits: "bit (2 :: u32) n \<longleftrightarrow> n = 1" "bit (4 :: u32) n \<longleftrightarrow> n = 2" "bit (6 :: u32) n \<longleftrightarrow> n = 1 \<or> n = 2"
proof -
  show two: "bit (2 :: u32) n \<longleftrightarrow> n = 1" using bit_exp_iff [of 1 n, where 'a = "32 word"] by (auto simp: possible_bit_word)
  show four: "bit (4 :: u32) n \<longleftrightarrow> n = 2" using bit_exp_iff [of 2 n, where 'a = "32 word"] by (auto simp: possible_bit_word)
  have "(6 :: u32) = 2 OR 4" by simp
  then show "bit (6 :: u32) n \<longleftrightarrow> n = 1 \<or> n = 2" using two four by (metis bit_or_iff)
qed

lemma not_dirty: "(- 5 :: u32) = NOT 4" "bit (- 5 :: u32) n \<longleftrightarrow> n < 32 \<and> n \<noteq> 2"
proof -
  show eq: "(- 5 :: u32) = NOT 4" by simp
  show "bit (- 5 :: u32) n \<longleftrightarrow> n < 32 \<and> n \<noteq> 2" unfolding eq by (simp only: bit_not_iff flag_bits possible_bit_word) simp
qed

lemma done_flags:
  fixes f :: u32
  shows "(f OR 2) AND - 5 = f AND - 5 OR 2" "((f OR 2) AND - 5) AND 6 = 2"
    "\<not> has_flag f B_DIRTY \<Longrightarrow> (f OR 2) AND - 5 = f OR 2"
proof -
  show "(f OR 2) AND - 5 = f AND - 5 OR 2"
    by (rule bit_word_eqI) (auto simp: bit_and_iff bit_or_iff flag_bits not_dirty(2) simp del: bit_numeral_word_iff bit_neg_numeral_word_iff)
  show "((f OR 2) AND - 5) AND 6 = 2"
    by (rule bit_word_eqI) (auto simp: bit_and_iff bit_or_iff flag_bits not_dirty(2) simp del: bit_numeral_word_iff bit_neg_numeral_word_iff)
  assume "\<not> has_flag f B_DIRTY"
  then have "\<not> bit (f AND 4) 2" by (simp add: has_flag_def)
  then have "\<not> bit f 2" by (simp only: bit_and_iff flag_bits) simp
  then show "(f OR 2) AND - 5 = f OR 2"
    by (intro bit_word_eqI) (auto simp: bit_and_iff bit_or_iff flag_bits not_dirty(2) simp del: bit_numeral_word_iff bit_neg_numeral_word_iff)
qed

lemma device_same [simp]: "s\<lparr>device := device s\<rparr> = s"
  by simp

lemma device_first: "s\<lparr>idequeue := x, device := d\<rparr> = s\<lparr>device := d, idequeue := x\<rparr>"
  by simp

lemma intr_sim:
  assumes a: "ata_disk io regs content wanted" and i: "ide_sim content wanted s t (b # q)"
  obtains s' t' where "ideintr io s = Some s'" "iderw b (t\<lparr>fs_pid := sl_pid (b_lock (bufs t ! b))\<rparr>) = Some t'" "ide_sim content wanted s' t' q"
    "ide_woken s' = ide_woken s @ [b]" "ide_done b s'"
proof -
  let ?bf = "bufs s ! b"
  have q: "idequeue s = Some b" "queue (qnext s) (qnext s b) q" "b \<notin> set q" "distinct q" "b < length (bufs s)" "bufs t = bufs s" "disksize t = 1000"
    and r: "request_ok ?bf" "\<And>c. c \<in> set q \<Longrightarrow> c < length (bufs s) \<and> request_ok (bufs s ! c)" and h: "havedisk1 s"
    and dv: "device_at content wanted (device s) (disk t) (bufs s) (b # q)"
    using i by (auto simp: ide_sim_def)
  have g: "holdingsleep (sl_pid (b_lock ?bf)) (b_lock ?bf)" "\<not> (b_flags ?bf AND 6 = 2)" "b_dev ?bf = 1" "\<not> 1000 \<le> b_blockno ?bf"
    using r(1) by (auto simp: request_ok_def holdingsleep_def word_le_nat_alt)
  obtain s2 nb d1 t' where step: "ideintr io s = (case qnext s b of None \<Rightarrow> Some s2 | Some c \<Rightarrow> idestart io c s2)"
    "s2 = s\<lparr>device := d1, idequeue := qnext s b, bufs := (bufs s)[b := nb], ide_woken := ide_woken s @ [b]\<rparr>"
    "iderw b (t\<lparr>fs_pid := sl_pid (b_lock (bufs t ! b))\<rparr>) = Some t'" "bufs t' = (bufs s)[b := nb]" "disk t' = content d1 True" "disksize t' = 1000"
    "b_flags nb = (b_flags ?bf OR B_VALID) AND - 5"
  proof (cases "has_flag (b_flags ?bf) B_DIRTY")
    case True
    let ?nb = "?bf\<lparr>b_flags := (b_flags ?bf OR B_VALID) AND - 5\<rparr>"
    have c: "content (device s) True = (disk t)(b_blockno ?bf := b_data ?bf)" using dv True by (simp add: device_at_def)
    show thesis
      by (rule that [of "s\<lparr>device := device s, idequeue := qnext s b, bufs := (bufs s)[b := ?nb], ide_woken := ide_woken s @ [b]\<rparr>" ?nb "device s"
          "t\<lparr>fs_pid := sl_pid (b_lock ?bf), disk := content (device s) True, disk_writes := disk_writes t @ [(b_blockno ?bf, b_data ?bf)], bufs := (bufs s)[b := ?nb]\<rparr>"])
        (use q g c True in \<open>simp_all add: ideintr_def iderw_def upd_buf_def Let_def done_flags(1) split: option.split\<close>)
  next
    case False
    let ?nb = "?bf\<lparr>b_data := disk t (b_blockno ?bf), b_flags := (b_flags ?bf OR B_VALID) AND - 5\<rparr>"
    have c: "content (device s) True = disk t" "wanted (device s) = Some (True, b_blockno ?bf)" using dv False by (simp_all add: device_at_def)
    obtain d0 where w: "idewait io True (device s) = Some (0, d0)" "content d0 = content (device s)" "wanted d0 = wanted (device s)" by (rule ata_wait [OF a])
    obtain d1 where n: "insl io 0x1f0 128 d0 = (disk t (b_blockno ?bf), d1)" "content d1 = content d0"
      using a w c unfolding ata_disk_def by (metis (no_types, lifting))
    show thesis
      by (rule that [of "s\<lparr>device := d1, idequeue := qnext s b, bufs := (bufs s)[b := ?nb], ide_woken := ide_woken s @ [b]\<rparr>" ?nb d1
          "t\<lparr>fs_pid := sl_pid (b_lock ?bf), bufs := (bufs s)[b := ?nb]\<rparr>"])
        (use q g c w n False done_flags(3) [OF False] in \<open>simp_all add: ideintr_def iderw_def upd_buf_def Let_def device_first split: option.split\<close>)
  qed
  have dn: "ide_done b s2" using step(2,7) q(5) done_flags(2) [of "b_flags ?bf"] by (simp add: ide_done_def)
  have rq: "c < length (bufs s2) \<and> request_ok (bufs s2 ! c)" if c: "c \<in> set q" for c
  proof -
    have "c \<noteq> b" using c q(3) by auto
    then show ?thesis using r(2) [OF c] step(2) by simp
  qed
  show thesis
  proof (cases q)
    case Nil
    then have "ideintr io s = Some s2" using step(1) q(2) by simp
    moreover have "ide_sim content wanted s2 t' q" using Nil step q h by (simp add: ide_sim_def device_at_def)
    ultimately show thesis using that [of s2 t'] step dn by simp
  next
    case (Cons c q')
    have c: "request_ok (bufs s2 ! c)" "content (device s2) True = disk t'" using rq [of c] Cons step by auto
    obtain d where d: "idestart io c s2 = Some (s2\<lparr>device := d\<rparr>)" "device_at content wanted d (disk t') (bufs s2) (c # q')" by (rule idestart_sim [OF a c])
    have "ideintr io s = Some (s2\<lparr>device := d\<rparr>)" using step(1) q(2) Cons d(1) by simp
    moreover have "ide_sim content wanted (s2\<lparr>device := d\<rparr>) t' q" using Cons step q h d(2) rq by (simp add: ide_sim_def)
    ultimately show thesis using that [of "s2\<lparr>device := d\<rparr>" t'] step dn by (simp add: ide_done_def)
  qed
qed

section \<open>The claim\<close>

text \<open>
  C17. On a controller that behaves as the ATA standard says, the interrupt-driven driver serves its requests in the order in which they were made, and
  each of them exactly as the driver of the disk in memory does: a request joins the end of the queue without a panic; every interrupt finishes the
  first one, that is, the buffer and the disk become what \<open>iderw\<close> of \<open>memide.c\<close> makes of them, wakes the process that waits for it, which then
  finds its buffer valid, and starts the next; an interrupt without a request changes nothing.
\<close>

theorem ide_refines:
  assumes "ata_disk io regs content wanted" "ide_sim content wanted s t q"
  shows "(b \<notin> set q \<and> b < length (bufs s) \<and> request_ok (bufs s ! b) \<and> sl_pid (b_lock (bufs s ! b)) = fs_pid s \<longrightarrow>
      (\<exists>s'. iderw_disk io b s = Some s' \<and> ide_sim content wanted s' t (q @ [b]) \<and> ide_woken s' = ide_woken s))
    \<and> (case q of
         [] \<Rightarrow> ideintr io s = Some s
       | c # r \<Rightarrow> \<exists>s' t'. ideintr io s = Some s' \<and> iderw c (t\<lparr>fs_pid := sl_pid (b_lock (bufs t ! c))\<rparr>) = Some t' \<and> ide_sim content wanted s' t' r
           \<and> ide_woken s' = ide_woken s @ [c] \<and> ide_done c s')"
proof (intro conjI impI)
  assume "b \<notin> set q \<and> b < length (bufs s) \<and> request_ok (bufs s ! b) \<and> sl_pid (b_lock (bufs s ! b)) = fs_pid s"
  then show "\<exists>s'. iderw_disk io b s = Some s' \<and> ide_sim content wanted s' t (q @ [b]) \<and> ide_woken s' = ide_woken s"
    by (elim conjE) (rule request_sim [OF assms]; blast)
next
  show "case q of
         [] \<Rightarrow> ideintr io s = Some s
       | c # r \<Rightarrow> \<exists>s' t'. ideintr io s = Some s' \<and> iderw c (t\<lparr>fs_pid := sl_pid (b_lock (bufs t ! c))\<rparr>) = Some t' \<and> ide_sim content wanted s' t' r
           \<and> ide_woken s' = ide_woken s @ [c] \<and> ide_done c s'"
  proof (cases q)
    case Nil
    then show ?thesis using assms(2) by (simp add: ide_sim_def ideintr_def)
  next
    case (Cons c r)
    show ?thesis unfolding Cons list.case by (rule intr_sim [OF assms(1) assms(2) [unfolded Cons]]) blast
  qed
qed

section \<open>Witness\<close>

text \<open>A controller that is always ready.\<close>

record ata =
  a_regs :: "u16 \<Rightarrow> u8"
  a_content :: "bool \<Rightarrow> u32 \<Rightarrow> block"
  a_wanted :: "(bool \<times> u32) option"

definition ata_io :: "ata ports" where
  "ata_io = \<lparr>
     inb = (\<lambda>p d. (0x40, d)),
     outb = (\<lambda>p v d. if p = 0x1f7 then d\<lparr>a_wanted := Some (drive (a_regs d), lba (a_regs d))\<rparr> else d\<lparr>a_regs := (a_regs d)(p := v)\<rparr>),
     insl = (\<lambda>p n d. case a_wanted d of None \<Rightarrow> ([], d) | Some (v, k) \<Rightarrow> (a_content d v k, d)),
     outsl = (\<lambda>p ws d. d\<lparr>a_content := (a_content d)(drive (a_regs d) := (a_content d (drive (a_regs d)))(lba (a_regs d) := ws))\<rparr>)\<rparr>"

lemma ata_io_ok: "ata_disk ata_io a_regs a_content a_wanted"
proof -
  have "idewait_loop ata_io d = Some (0x40, d)" for d by (subst idewait_loop.simps) (simp add: ata_io_def)
  then show ?thesis by (simp add: ata_disk_def ata_io_def)
qed

definition sample_buf :: buf where
  "sample_buf = \<lparr>b_flags = B_DIRTY, b_dev = 1, b_blockno = 7, b_lock = \<lparr>sl_locked = True, sl_name = [], sl_pid = 1\<rparr>, b_refcnt = 1, b_data = replicate 512 9\<rparr>"

definition sample_ide :: "ata ide_state" where
  "sample_ide = fsys.extend (sample_raw\<lparr>bufs := [sample_buf]\<rparr>)
     (ide_state.fields None (\<lambda>_. None) True [] \<lparr>a_regs = (\<lambda>_. 0), a_content = (\<lambda>_. sample_disk), a_wanted = None\<rparr>)"

lemma sample_ide_sim: "ide_sim a_content a_wanted sample_ide (sample_raw\<lparr>bufs := [sample_buf]\<rparr>) []"
  by (simp add: ide_sim_def device_at_def sample_ide_def sample_raw_def fsys.defs ide_state.defs)

theorem ide_refines_witness:
  "\<exists>s'. iderw_disk ata_io 0 sample_ide = Some s' \<and> ide_sim a_content a_wanted s' (sample_raw\<lparr>bufs := [sample_buf]\<rparr>) [0]"
proof -
  have "bufs sample_ide = [sample_buf]" "fs_pid sample_ide = 1" by (simp_all add: sample_ide_def sample_raw_def fsys.defs)
  then show ?thesis using ide_refines [OF ata_io_ok sample_ide_sim, of 0] by (auto simp: request_ok_def sample_buf_def)
qed

end
