(* ===== verification/User_Grep.thy ===== *)
theory User_Grep
  imports Xv6_Prelude
begin

text \<open>
  The user program \<open>grep.c\<close>: the matcher of regular expressions and the loop over the lines of a file. A C string is
  the list of its bytes before the terminating zero. The input is the list of the chunks in which \<open>read\<close> finds the
  data: one call returns at most the space left in the buffer from the next chunk, and the end of the list is the end of the file.
\<close>

section \<open>The matcher\<close>

fun matchhere :: "u8 list \<Rightarrow> u8 list \<Rightarrow> bool"
  and matchstar :: "u8 \<Rightarrow> u8 list \<Rightarrow> u8 list \<Rightarrow> bool" where
  "matchhere [] str = True"
| "matchhere (a # re) str =
     (case re of
        b # re' \<Rightarrow>
          if b = 42 then matchstar a re' str
          else (case str of [] \<Rightarrow> False | x # str' \<Rightarrow> (a = 46 \<or> a = x) \<and> matchhere re str')
      | [] \<Rightarrow>
          if a = 36 then str = []
          else (case str of [] \<Rightarrow> False | x # str' \<Rightarrow> (a = 46 \<or> a = x) \<and> matchhere re str'))"
| "matchstar c re str =
     (matchhere re str \<or> (case str of [] \<Rightarrow> False | x # str' \<Rightarrow> (x = c \<or> c = 46) \<and> matchstar c re str'))"

fun match_from :: "u8 list \<Rightarrow> u8 list \<Rightarrow> bool" where
  "match_from re [] = matchhere re []"
| "match_from re (x # str) = (matchhere re (x # str) \<or> match_from re str)"

definition match :: "u8 list \<Rightarrow> u8 list \<Rightarrow> bool" where
  "match re str = (case re of a # re' \<Rightarrow> if a = 94 then matchhere re' str else match_from re str | [] \<Rightarrow> match_from re str)"

section \<open>The loop over the input\<close>

text \<open>\<open>strchr(p, '\n')\<close> stops at a zero byte.\<close>

fun strchr_nl :: "u8 list \<Rightarrow> nat option" where
  "strchr_nl [] = None"
| "strchr_nl (x # xs) = (if x = 0 then None else if x = 10 then Some 0 else map_option Suc (strchr_nl xs))"

lemma strchr_nl_less: "strchr_nl xs = Some k \<Longrightarrow> k < length xs"
  by (induction xs arbitrary: k) (auto split: if_splits)

text \<open>The lines of the buffer from \<open>p\<close> on: the lines written out, and what is left.\<close>

function (sequential) grep_lines :: "u8 list \<Rightarrow> u8 list \<Rightarrow> u8 list list \<times> u8 list" where
  "grep_lines pat p =
     (case strchr_nl p of
        None \<Rightarrow> ([], p)
      | Some k \<Rightarrow>
          let (out, r) = grep_lines pat (drop (Suc k) p)
          in (if match pat (take k p) then take (Suc k) p # out else out, r))"
  by pat_completeness auto

termination grep_lines
  by (relation "measure (\<lambda>(pat, p). length p)") (auto dest: strchr_nl_less)

declare grep_lines.simps [simp del]

fun read_chunk :: "nat \<Rightarrow> u8 list list \<Rightarrow> u8 list \<times> u8 list list" where
  "read_chunk n [] = ([], [])"
| "read_chunk n (c # cs) = (take n c, if length c \<le> n then cs else drop n c # cs)"

lemma read_chunk_less:
  "read_chunk n cs = (d, cs') \<Longrightarrow> d \<noteq> [] \<Longrightarrow> sum_list (map length cs') < sum_list (map length cs)"
  by (cases cs) (auto split: if_splits)

text \<open>\<open>b\<close> are the \<open>m\<close> bytes at the start of \<open>buf\<close>, which has room for 1023 and the terminating zero.\<close>

function (sequential) grep_loop :: "u8 list \<Rightarrow> u8 list \<Rightarrow> u8 list list \<Rightarrow> u8 list list" where
  "grep_loop pat b cs =
     (case read_chunk (1023 - length b) cs of (d, cs') \<Rightarrow>
        if d = [] then []
        else
          let (out, r) = grep_lines pat (b @ d)
          in out @ grep_loop pat (if length r = length (b @ d) then [] else r) cs')"
  by pat_completeness auto

termination grep_loop
  by (relation "measure (\<lambda>(pat, b, cs). sum_list (map length cs))") (auto dest: read_chunk_less [OF sym])

declare grep_loop.simps [simp del]

definition grep :: "u8 list \<Rightarrow> u8 list list \<Rightarrow> u8 list list" where
  "grep pat cs = grep_loop pat [] cs"

section \<open>Meaning of a pattern\<close>

text \<open>A pattern is a list of items, each one character or any number of characters of a class, and it may be anchored at the end.\<close>

datatype item = One u8 | Star u8

definition in_class :: "u8 \<Rightarrow> u8 \<Rightarrow> bool" where
  "in_class a x \<longleftrightarrow> a = 46 \<or> a = x"

fun items :: "u8 list \<Rightarrow> item list \<times> bool" where
  "items [] = ([], False)"
| "items [a] = (if a = 36 then ([], True) else ([One a], False))"
| "items (a # b # re) = (if b = 42 then (case items re of (is, e) \<Rightarrow> (Star a # is, e)) else (case items (b # re) of (is, e) \<Rightarrow> (One a # is, e)))"

fun words :: "item list \<Rightarrow> u8 list set" where
  "words [] = {[]}"
| "words (One a # is) = {x # w | x w. in_class a x \<and> w \<in> words is}"
| "words (Star a # is) = {v @ w | v w. (\<forall>x \<in> set v. in_class a x) \<and> w \<in> words is}"

text \<open>The text starts with a word of the pattern; with the anchor it is that word.\<close>

definition prefix_in :: "item list \<times> bool \<Rightarrow> u8 list \<Rightarrow> bool" where
  "prefix_in p str \<longleftrightarrow> (\<exists>w v. str = w @ v \<and> w \<in> words (fst p) \<and> (snd p \<longrightarrow> v = []))"

definition denotes :: "u8 list \<Rightarrow> u8 list \<Rightarrow> bool" where
  "denotes re str \<longleftrightarrow>
     (if re \<noteq> [] \<and> hd re = 94 then prefix_in (items (tl re)) str else \<exists>u v. str = u @ v \<and> prefix_in (items re) v)"

lemma prefix_inI: "w \<in> words is \<Longrightarrow> (e \<longrightarrow> v = []) \<Longrightarrow> prefix_in (is, e) (w @ v)"
  unfolding prefix_in_def by auto

lemma prefix_inE:
  assumes "prefix_in (is, e) str"
  obtains w v where "str = w @ v" "w \<in> words is" "e \<longrightarrow> v = []"
  using assms unfolding prefix_in_def by auto

lemma prefix_in_simps:
  "prefix_in ([], e) str \<longleftrightarrow> (e \<longrightarrow> str = [])"
  "prefix_in (One a # is, e) str \<longleftrightarrow> (\<exists>x v. str = x # v \<and> in_class a x \<and> prefix_in (is, e) v)"
proof -
  show "prefix_in ([], e) str \<longleftrightarrow> (e \<longrightarrow> str = [])" by (auto simp: prefix_in_def)
  show "prefix_in (One a # is, e) str \<longleftrightarrow> (\<exists>x v. str = x # v \<and> in_class a x \<and> prefix_in (is, e) v)"
  proof
    assume "prefix_in (One a # is, e) str"
    then obtain w v where w: "str = w @ v" "w \<in> words (One a # is)" "e \<longrightarrow> v = []" by (rule prefix_inE)
    then obtain x w' where "w = x # w'" "in_class a x" "w' \<in> words is" by auto
    then show "\<exists>x v. str = x # v \<and> in_class a x \<and> prefix_in (is, e) v" using w prefix_inI by auto
  next
    assume "\<exists>x v. str = x # v \<and> in_class a x \<and> prefix_in (is, e) v"
    then obtain x v where x: "str = x # v" "in_class a x" "prefix_in (is, e) v" by blast
    from x(3) obtain w u where w: "v = w @ u" "w \<in> words is" "e \<longrightarrow> u = []" by (rule prefix_inE)
    have "x # w \<in> words (One a # is)" using x w by simp
    from prefix_inI [OF this w(3)] show "prefix_in (One a # is, e) str" using x w by simp
  qed
qed

lemma prefix_in_star:
  "prefix_in (Star a # is, e) str \<longleftrightarrow> prefix_in (is, e) str \<or> (\<exists>x v. str = x # v \<and> in_class a x \<and> prefix_in (Star a # is, e) v)"
proof
  assume "prefix_in (Star a # is, e) str"
  then obtain z u where z: "str = z @ u" "z \<in> words (Star a # is)" "e \<longrightarrow> u = []" by (rule prefix_inE)
  then obtain v w where "z = v @ w" "\<forall>x \<in> set v. in_class a x" "w \<in> words is" by auto
  then have t: "str = (v @ w) @ u" "\<forall>x \<in> set v. in_class a x" "w \<in> words is" "e \<longrightarrow> u = []" using z by auto
  show "prefix_in (is, e) str \<or> (\<exists>x v. str = x # v \<and> in_class a x \<and> prefix_in (Star a # is, e) v)"
  proof (cases v)
    case Nil
    then show ?thesis using t by (auto simp: prefix_in_def)
  next
    case (Cons x v')
    have "v' @ w \<in> words (Star a # is)" using t Cons by auto
    then have "prefix_in (Star a # is, e) (v' @ w @ u)" unfolding prefix_in_def using t(4) by (intro exI [of _ "v' @ w"] exI [of _ u]) simp
    then show ?thesis using t Cons by auto
  qed
next
  assume "prefix_in (is, e) str \<or> (\<exists>x v. str = x # v \<and> in_class a x \<and> prefix_in (Star a # is, e) v)"
  then show "prefix_in (Star a # is, e) str"
  proof
    assume "prefix_in (is, e) str"
    then obtain w v where w: "str = w @ v" "w \<in> words is" "e \<longrightarrow> v = []" by (rule prefix_inE)
    have "w \<in> words (Star a # is)" using w(2) by (simp, intro exI [of _ "[]"] exI [of _ w]) simp
    from prefix_inI [OF this w(3)] show ?thesis using w(1) by simp
  next
    assume "\<exists>x v. str = x # v \<and> in_class a x \<and> prefix_in (Star a # is, e) v"
    then obtain x t where x: "str = x # t" "in_class a x" "prefix_in (Star a # is, e) t" by blast
    from x(3) obtain z u where z: "t = z @ u" "z \<in> words (Star a # is)" "e \<longrightarrow> u = []" by (rule prefix_inE)
    then obtain v w where v: "z = v @ w" "\<forall>y \<in> set v. in_class a y" "w \<in> words is" by auto
    have "x # z \<in> words (Star a # is)" using x(2) v by (simp, intro exI [of _ "x # v"] exI [of _ w]) simp
    from prefix_inI [OF this z(3)] show ?thesis using x(1) z(1) by simp
  qed
qed

lemma matcher_eq:
  "matchhere re str \<longleftrightarrow> prefix_in (items re) str"
  "matchstar c re str \<longleftrightarrow> prefix_in (Star c # fst (items re), snd (items re)) str"
proof (induction re str and c re str rule: matchhere_matchstar.induct)
  case (1 str)
  then show ?case by (simp add: prefix_in_simps)
next
  case (2 a re str)
  show ?case
  proof (cases re)
    case Nil
    then show ?thesis using 2 by (cases str) (auto simp: prefix_in_simps in_class_def)
  next
    case (Cons b re')
    show ?thesis
    proof (cases "b = 42")
      case True
      then show ?thesis using 2(2) [OF Cons True] Cons by (simp split: prod.splits)
    next
      case False
      then show ?thesis using 2(3) [OF Cons False] Cons by (cases str) (auto simp: prefix_in_simps in_class_def split: prod.splits)
    qed
  qed
next
  case (3 c re str)
  then show ?case by (subst prefix_in_star) (cases str; auto simp: in_class_def)
qed

lemma match_from_eq: "match_from re str \<longleftrightarrow> (\<exists>u v. str = u @ v \<and> matchhere re v)"
proof (induction str)
  case (Cons x str)
  show ?case
  proof
    assume "match_from re (x # str)"
    then show "\<exists>u v. x # str = u @ v \<and> matchhere re v"
    proof (simp, elim disjE)
      assume "match_from re str"
      then obtain u v where "str = u @ v" "matchhere re v" using Cons by blast
      then show ?thesis by (intro exI [of _ "x # u"] exI [of _ v]) simp
    qed (auto intro: exI [of _ "[]"])
  next
    assume "\<exists>u v. x # str = u @ v \<and> matchhere re v"
    then obtain u v where "x # str = u @ v" "matchhere re v" by blast
    then show "match_from re (x # str)" using Cons by (cases u) auto
  qed
qed simp

lemma match_denotes: "match re str = denotes re str"
  unfolding match_def denotes_def by (cases re) (simp_all add: matcher_eq match_from_eq)

text \<open>
  C29: the backtracking matcher of \<open>grep\<close> decides the language of the pattern: without a leading caret it accepts exactly the texts with a
  part, at the end if the pattern ends with a dollar, that is a word of the pattern; with the caret that part is at the beginning.
\<close>

theorem grep_match: "match re str \<longleftrightarrow> denotes re str"
  by (rule match_denotes)

section \<open>Lines\<close>

lemma strchr_nl_line: "0 \<notin> set l \<Longrightarrow> 10 \<notin> set l \<Longrightarrow> strchr_nl (l @ 10 # r) = Some (length l)"
  by (induction l) auto

lemma strchr_nl_none: "10 \<notin> set r \<Longrightarrow> strchr_nl r = None"
  by (induction r) auto

text \<open>Complete lines in the buffer are written when they match; the part after the last newline is left for the next round.\<close>

lemma grep_lines_correct:
  assumes "\<forall>l \<in> set ls. 0 \<notin> set l \<and> 10 \<notin> set l" "10 \<notin> set r"
  shows "grep_lines pat (concat (map (\<lambda>l. l @ [10]) ls) @ r) = (map (\<lambda>l. l @ [10]) (filter (denotes pat) ls), r)"
  using assms
proof (induction ls)
  case Nil
  then show ?case by (subst grep_lines.simps) (simp add: strchr_nl_none)
next
  case (Cons l ls)
  then have "strchr_nl (l @ 10 # concat (map (\<lambda>l. l @ [10]) ls) @ r) = Some (length l)" by (intro strchr_nl_line) auto
  then show ?case using Cons by (subst grep_lines.simps) (simp add: match_denotes)
qed

end
