(* ===== verification/Umalloc.thy ===== *)
theory Umalloc
  imports Proc_Pid
begin

text \<open>
  The heap of user programs, \<open>umalloc.c\<close>, on top of the system call \<open>sbrk\<close> of the kernel. The fields of the headers are maps from
  their addresses; a header has eight bytes, and sizes count units of a header. \<open>base\<close> is the address of the static header of that name.
  \<open>h_kern\<close> is the state of the kernel, which \<open>sbrk\<close> changes; an operation that returns \<open>None\<close> does not return.
\<close>

section \<open>Operations\<close>

record 'k heap =
  h_ptr :: "u32 \<Rightarrow> u32"
  h_size :: "u32 \<Rightarrow> u32"
  h_freep :: u32
  h_kern :: 'k

partial_function (option) free_find :: "'k heap \<Rightarrow> u32 \<Rightarrow> u32 \<Rightarrow> u32 option" where
  "free_find h bp p =
     (if p < bp \<and> bp < h_ptr h p then Some p
      else if h_ptr h p \<le> p \<and> (p < bp \<or> bp < h_ptr h p) then Some p
      else free_find h bp (h_ptr h p))"

definition free :: "u32 \<Rightarrow> 'k heap \<Rightarrow> 'k heap option" where
  "free ap h = do {
     let bp = ap - 8;
     p \<leftarrow> free_find h bp (h_freep h);
     let nx = h_ptr h p;
     let h = (if bp + 8 * h_size h bp = nx
       then h\<lparr>h_size := (h_size h)(bp := h_size h bp + h_size h nx), h_ptr := (h_ptr h)(bp := h_ptr h nx)\<rparr>
       else h\<lparr>h_ptr := (h_ptr h)(bp := nx)\<rparr>);
     let h = (if p + 8 * h_size h p = bp
       then h\<lparr>h_size := (h_size h)(p := h_size h p + h_size h bp), h_ptr := (h_ptr h)(p := h_ptr h bp)\<rparr>
       else h\<lparr>h_ptr := (h_ptr h)(p := bp)\<rparr>);
     Some (h\<lparr>h_freep := p\<rparr>) }"

definition morecore :: "(u32 \<Rightarrow> 'k \<Rightarrow> (u32 \<times> 'k) option) \<Rightarrow> u32 \<Rightarrow> 'k heap \<Rightarrow> (u32 \<times> 'k heap) option" where
  "morecore sbrk nu h = do {
     let nu = (if nu < 4096 then 4096 else nu);
     (p, k) \<leftarrow> sbrk (nu * 8) (h_kern h);
     let h = h\<lparr>h_kern := k\<rparr>;
     if p = -1 then Some (0, h)
     else do {
       h \<leftarrow> free (p + 8) (h\<lparr>h_size := (h_size h)(p := nu)\<rparr>);
       Some (h_freep h, h) } }"

partial_function (option) malloc_loop ::
  "(u32 \<Rightarrow> 'k \<Rightarrow> (u32 \<times> 'k) option) \<Rightarrow> u32 \<Rightarrow> u32 \<Rightarrow> u32 \<Rightarrow> 'k heap \<Rightarrow> (u32 \<times> 'k heap) option" where
  "malloc_loop sbrk nunits prevp p h =
     (if nunits \<le> h_size h p then
        if h_size h p = nunits then Some (p + 8, h\<lparr>h_ptr := (h_ptr h)(prevp := h_ptr h p), h_freep := prevp\<rparr>)
        else
          let h = h\<lparr>h_size := (h_size h)(p := h_size h p - nunits)\<rparr>;
              p = p + 8 * h_size h p;
              h = h\<lparr>h_size := (h_size h)(p := nunits)\<rparr>
          in Some (p + 8, h\<lparr>h_freep := prevp\<rparr>)
      else if p = h_freep h then do {
        (p, h) \<leftarrow> morecore sbrk nunits h;
        if p = 0 then Some (0, h) else malloc_loop sbrk nunits p (h_ptr h p) h }
      else malloc_loop sbrk nunits p (h_ptr h p) h)"

definition malloc :: "(u32 \<Rightarrow> 'k \<Rightarrow> (u32 \<times> 'k) option) \<Rightarrow> u32 \<Rightarrow> u32 \<Rightarrow> 'k heap \<Rightarrow> (u32 \<times> 'k heap) option" where
  "malloc sbrk base nbytes h =
     (let nunits = (nbytes + 8 - 1) div 8 + 1;
          h = (if h_freep h = 0 then h\<lparr>h_ptr := (h_ptr h)(base := base), h_freep := base, h_size := (h_size h)(base := 0)\<rparr> else h);
          prevp = h_freep h
      in malloc_loop sbrk nunits prevp (h_ptr h prevp) h)"

section \<open>The free list\<close>

text \<open>A list of headers linked in this order, the last one to \<open>b\<close>.\<close>

fun links :: "(u32 \<Rightarrow> u32) \<Rightarrow> u32 list \<Rightarrow> u32 \<Rightarrow> bool" where
  "links nx [] b \<longleftrightarrow> True"
| "links nx [x] b \<longleftrightarrow> nx x = b"
| "links nx (x # y # ys) b \<longleftrightarrow> nx x = y \<and> links nx (y # ys) b"

lemma links_append: "links nx (xs @ y # ys) b \<longleftrightarrow> links nx xs y \<and> links nx (y # ys) b"
  by (induction xs rule: induct_list012) auto

lemma links_cong: "(\<And>x. x \<in> set xs \<Longrightarrow> nx' x = nx x) \<Longrightarrow> links nx' xs b = links nx xs b"
  by (induction nx xs b rule: links.induct) auto

lemma links_upd: "a \<notin> set xs \<Longrightarrow> links (nx(a := v)) xs b = links nx xs b"
  by (rule links_cong) auto

lemma links_Cons: "links nx (x # xs) b \<longleftrightarrow> nx x = hd (xs @ [b]) \<and> links nx xs b"
  by (cases xs) auto

lemma links_next: "links nx (x # xs) b \<Longrightarrow> nx x = hd (xs @ [b])"
  by (cases xs) auto

text \<open>Blocks in the order of their addresses, without overlap; a block apart from another.\<close>

definition before :: "(u32 \<Rightarrow> u32) \<Rightarrow> u32 \<Rightarrow> u32 \<Rightarrow> bool" where
  "before sz x y \<longleftrightarrow> unat x < unat y \<and> unat x + 8 * unat (sz x) \<le> unat y"

text \<open>
  The blocks: the free ones \<open>L\<close>, the first of which is \<open>base\<close> and empty, are in ascending order; they and the blocks handed out, \<open>A\<close>, do not overlap, and
  all of them are between \<open>base\<close> and the end of the image, which is at most \<open>KERNBASE\<close>.
\<close>

definition good :: "u32 \<Rightarrow> u32 \<Rightarrow> (u32 \<Rightarrow> u32) \<Rightarrow> u32 list \<Rightarrow> u32 set \<Rightarrow> bool" where
  "good base lim sz L A \<longleftrightarrow> L \<noteq> [] \<and> hd L = base \<and> sorted_wrt (before sz) L \<and> sz base = 0 \<and> unat base + 8 \<le> unat lim \<and> unat lim \<le> 2 ^ 31
     \<and> (\<forall>x \<in> set L \<union> A. x \<noteq> base \<longrightarrow> unat base + 8 \<le> unat x \<and> 0 < sz x \<and> unat x + 8 * unat (sz x) \<le> unat lim)
     \<and> (\<forall>a \<in> A. \<forall>y \<in> set L \<union> A. a \<noteq> y \<longrightarrow> before sz a y \<or> before sz y a) \<and> A \<inter> set L = {}"

text \<open>The invariant: the free blocks are linked in a ring in which \<open>freep\<close> points somewhere.\<close>

definition heap_inv :: "u32 \<Rightarrow> u32 \<Rightarrow> 'k heap \<Rightarrow> u32 list \<Rightarrow> u32 set \<Rightarrow> bool" where
  "heap_inv base lim h L A \<longleftrightarrow> good base lim (h_size h) L A \<and> links (h_ptr h) L base \<and> h_freep h \<in> set L \<and> base \<noteq> 0"

lemma unat_end: "unat x + 8 * unat n < 2 ^ 32 \<Longrightarrow> unat (x + 8 * n :: u32) = unat x + 8 * unat n"
  by (simp add: unat_word_ariths)

lemma goodD:
  assumes "good base lim sz L A" "x \<in> set L \<union> A" "x \<noteq> base"
  shows "unat base + 8 \<le> unat x" "0 < unat (sz x)" "unat x + 8 * unat (sz x) \<le> unat lim" "unat (x + 8 * sz x) = unat x + 8 * unat (sz x)"
proof -
  show g: "unat base + 8 \<le> unat x" "unat x + 8 * unat (sz x) \<le> unat lim" using assms by (auto simp: good_def)
  show "0 < unat (sz x)" using assms by (auto simp: good_def word_less_nat_alt)
  have "unat lim \<le> 2 ^ 31" using assms(1) by (simp add: good_def)
  then show "unat (x + 8 * sz x) = unat x + 8 * unat (sz x)" using g(2) by (intro unat_end) simp
qed

lemma good_base: "good base lim sz L A \<Longrightarrow> base \<in> set L \<and> base \<notin> A"
  by (cases L) (auto simp: good_def)

lemma sorted_distinct: "sorted_wrt (before sz) xs \<Longrightarrow> distinct xs"
  by (induction xs) (auto simp: before_def)

lemma sorted_apart: "sorted_wrt (before sz) xs \<Longrightarrow> x \<in> set xs \<Longrightarrow> y \<in> set xs \<Longrightarrow> y \<noteq> x \<Longrightarrow> before sz x y \<or> before sz y x"
  by (induction xs) auto

section \<open>Where a block is inserted\<close>

text \<open>The loop of \<open>free\<close> finds the last block of the list below the new one, from wherever it starts.\<close>

lemma free_find_forward:
  assumes "links (h_ptr h) (q # ys @ zs) base" "\<forall>x \<in> set ys. x < bp" "q < bp" "\<forall>z \<in> set zs. bp < z"
    "sorted_wrt (before sz) (q # ys @ zs)" "base < bp" "\<forall>x \<in> set (q # ys @ zs). base \<le> x"
  shows "free_find h bp q = Some (last (q # ys))"
  using assms
proof (induction ys arbitrary: q)
  case Nil
  show ?case
  proof (cases zs)
    case Nil
    then have "h_ptr h q = base" "base \<le> q" using Nil.prems by auto
    then show ?thesis using Nil.prems(3,6) by (subst free_find.simps) auto
  next
    case (Cons z zs')
    then show ?thesis using Nil.prems by (subst free_find.simps) auto
  qed
next
  case (Cons y ys)
  have n: "h_ptr h q = y" "links (h_ptr h) (y # ys @ zs) base" using Cons.prems(1) by auto
  have "q < y" "y < bp" using Cons.prems(2,5) by (auto simp: before_def word_less_nat_alt)
  then have "free_find h bp q = free_find h bp y" using n by (subst free_find.simps) auto
  also have "\<dots> = Some (last (y # ys))" by (rule Cons.IH) (use Cons.prems n in auto)
  finally show ?case by simp
qed

lemma free_find_wrap:
  assumes "links (h_ptr h) (q # zs) base" "sorted_wrt (before sz) (q # zs)" "bp < q" "\<forall>z \<in> set zs. bp < z" "base < bp"
  shows "free_find h bp q = free_find h bp base"
  using assms
proof (induction zs arbitrary: q)
  case Nil
  then have "h_ptr h q = base" by simp
  then show ?case using Nil by (subst free_find.simps) auto
next
  case (Cons z zs)
  have "h_ptr h q = z" using Cons.prems(1) by simp
  moreover have "q < z" using Cons.prems(2) by (simp add: before_def word_less_nat_alt)
  ultimately have "free_find h bp q = free_find h bp z" using Cons.prems(3,4) by (subst free_find.simps) auto
  then show ?case using Cons.IH [of z] Cons.prems by simp
qed

lemma sorted_above: "sorted_wrt (before sz) xs \<Longrightarrow> bp \<notin> set xs \<Longrightarrow> \<forall>z \<in> set (dropWhile (\<lambda>x. x < bp) xs). bp < z"
proof (induction xs)
  case (Cons x xs)
  show ?case
  proof (cases "x < bp")
    case False
    then have "bp < x" using Cons.prems(2) by auto
    moreover have "\<forall>y \<in> set xs. x < y" using Cons.prems(1) by (auto simp: before_def word_less_nat_alt)
    ultimately show ?thesis using False by auto
  qed (use Cons in simp)
qed simp

lemma free_find_ok:
  assumes "links (h_ptr h) (base # xs) base" "sorted_wrt (before sz) (base # xs)" "q \<in> set (base # xs)" "base < bp" "bp \<notin> set xs"
  obtains ys p zs where "base # xs = ys @ p # zs" "free_find h bp q = Some p" "\<forall>x \<in> set (ys @ [p]). x < bp" "\<forall>z \<in> set zs. bp < z"
proof -
  define lo where "lo = takeWhile (\<lambda>x. x < bp) xs"
  define zs where "zs = dropWhile (\<lambda>x. x < bp) xs"
  have xs: "xs = lo @ zs" by (simp add: lo_def zs_def)
  have lo: "\<forall>x \<in> set lo. x < bp" by (auto simp: lo_def dest: set_takeWhileD)
  have zs: "\<forall>z \<in> set zs. bp < z" unfolding zs_def by (rule sorted_above) (use assms(2,5) in auto)
  have ge: "\<forall>x \<in> set (base # xs). base \<le> x" using assms(2) by (auto simp: before_def word_le_nat_alt)
  have from_lo: "free_find h bp r = Some (last (r # b))" if "base # lo = a @ r # b" for a r b
  proof (rule free_find_forward)
    have eq: "base # xs = a @ r # b @ zs" using that xs by simp
    show "links (h_ptr h) (r # b @ zs) base" using assms(1) unfolding eq links_append by blast
    show "sorted_wrt (before sz) (r # b @ zs)" using assms(2) unfolding eq sorted_wrt_append by blast
    have "set (r # b) \<subseteq> set (base # lo)" unfolding that by auto
    then show "\<forall>x \<in> set b. x < bp" "r < bp" using lo assms(4) by auto
    show "\<forall>x \<in> set (r # b @ zs). base \<le> x" using ge unfolding eq by auto
  qed (use zs assms(4) in auto)
  have "free_find h bp q = Some (last (base # lo))"
  proof (cases "q \<in> set (base # lo)")
    case True
    then obtain a b where ab: "base # lo = a @ q # b" by (meson split_list)
    have "last (base # lo) = last (q # b)" unfolding ab by simp
    then show ?thesis using from_lo [OF ab] by simp
  next
    case False
    then obtain a b where ab: "zs = a @ q # b" using assms(3) xs by (auto dest: split_list)
    have eq: "base # xs = (base # lo @ a) @ q # b" using xs ab by simp
    have "free_find h bp q = free_find h bp base"
    proof (rule free_find_wrap)
      show "links (h_ptr h) (q # b) base" using assms(1) unfolding eq links_append by blast
      show "sorted_wrt (before sz) (q # b)" using assms(2) unfolding eq sorted_wrt_append by blast
    qed (use zs ab assms(4) in auto)
    then show ?thesis using from_lo [of "[]" base lo] by simp
  qed
  moreover have "base # xs = butlast (base # lo) @ last (base # lo) # zs" using xs by (metis append.assoc append_Cons append_Nil append_butlast_last_id list.distinct(1))
  moreover have "\<forall>x \<in> set (butlast (base # lo) @ [last (base # lo)]). x < bp" using lo assms(4) append_butlast_last_id [of "base # lo"] by (metis list.distinct(1) list.set_intros set_ConsD)
  ultimately show thesis using that zs by blast
qed

section \<open>Blocks that are moved, joined and split\<close>

lemma before_upd: "before (sz(a := n)) x y \<longleftrightarrow> (if x = a then unat a < unat y \<and> unat a + 8 * unat n \<le> unat y else before sz x y)"
  by (auto simp: before_def)

lemma sorted_before_cong: "a \<notin> set xs \<Longrightarrow> sorted_wrt (before (sz(a := n))) xs = sorted_wrt (before sz) xs"
  by (induction xs) (auto simp: before_upd)

lemma good_move:
  assumes "good base lim sz (ys @ p # zs) A" "bp \<in> A" "\<forall>x \<in> set (ys @ [p]). x < bp" "\<forall>z \<in> set zs. bp < z"
  shows "good base lim sz (ys @ p # bp # zs) (A - {bp})"
proof -
  have nb: "bp \<notin> set (ys @ p # zs)" using assms(1,2) by (auto simp: good_def)
  have cmp: "before sz bp y \<or> before sz y bp" if "y \<in> set (ys @ p # zs)" for y
    using assms(1,2) that nb unfolding good_def by (metis UnI1)
  have lo: "before sz x bp" if "x \<in> set (ys @ [p])" for x using cmp [of x] assms(3) that by (auto simp: before_def word_less_nat_alt)
  have hi: "before sz bp z" if "z \<in> set zs" for z using cmp [of z] assms(4) that by (auto simp: before_def word_less_nat_alt)
  have "sorted_wrt (before sz) (ys @ p # bp # zs)"
    using assms(1) lo hi unfolding good_def sorted_wrt_append by auto
  moreover have "hd (ys @ p # bp # zs) = hd (ys @ p # zs)" by (cases ys) auto
  moreover have "\<forall>a \<in> A - {bp}. \<forall>y \<in> set (ys @ p # bp # zs) \<union> (A - {bp}). a \<noteq> y \<longrightarrow> before sz a y \<or> before sz y a"
    using assms(1,2) unfolding good_def by auto
  ultimately show ?thesis using assms(1,2) unfolding good_def by auto
qed

lemma unat_sum: "unat x + unat y < 2 ^ 32 \<Longrightarrow> unat (x + y :: u32) = unat x + unat y"
  by (simp add: unat_word_ariths)

lemma good_join:
  assumes g: "good base lim sz (us @ a # b # vs) A" and ab: "unat a + 8 * unat (sz a) = unat b" and na: "a \<noteq> base" and nb: "b \<noteq> base"
  shows "good base lim (sz(a := sz a + sz b)) (us @ a # vs) A" "unat (sz a + sz b) = unat (sz a) + unat (sz b)"
proof -
  note A = goodD [OF g _ na] and B = goodD [OF g _ nb]
  have lim: "unat lim \<le> 2 ^ 31" using g by (simp add: good_def)
  have sum: "unat (sz a + sz b) = unat (sz a) + unat (sz b)" using A(3) B(3) lim ab by (intro unat_sum) simp
  show "unat (sz a + sz b) = unat (sz a) + unat (sz b)" by (rule sum)
  let ?sz = "sz(a := sz a + sz b)"
  have srt: "sorted_wrt (before sz) (us @ a # b # vs)" using g by (simp add: good_def)
  have d: "a \<notin> set us" "a \<notin> set vs" "a \<notin> A" using sorted_distinct [OF srt] g by (auto simp: good_def)
  have up: "before ?sz a y" if "before sz a y" "before sz b y" for y using that ab sum by (auto simp: before_def)
  have other: "before ?sz x y = before sz x y" if "x \<noteq> a" for x y using that by (simp add: before_upd)
  have "sorted_wrt (before ?sz) (us @ a # vs)"
  proof -
    have "sorted_wrt (before ?sz) us = sorted_wrt (before sz) us" "sorted_wrt (before ?sz) vs = sorted_wrt (before sz) vs"
      using d by (auto intro!: sorted_before_cong)
    moreover have "before ?sz x y = before sz x y" if "x \<in> set us" for x y using that d by (intro other) auto
    ultimately show ?thesis using srt up unfolding sorted_wrt_append by auto
  qed
  moreover have "hd (us @ a # vs) = hd (us @ a # b # vs)" by (cases us) auto
  moreover have "before ?sz x y \<or> before ?sz y x" if x: "x \<in> A" and y: "y \<in> set (us @ a # vs) \<union> A" and "x \<noteq> y" for x y
  proof (cases "y = a")
    case True
    have "before sz x a \<or> before sz a x" "before sz x b \<or> before sz b x" "x \<noteq> a" using g x d by (auto simp: good_def)
    moreover have "x \<noteq> base" using good_base [OF g] x by blast
    ultimately show ?thesis using True up [of x] other [of x] goodD(2) [OF g _ \<open>x \<noteq> base\<close>] x ab by (auto simp: before_def)
  next
    case False
    then have "before sz x y \<or> before sz y x" using g x y \<open>x \<noteq> y\<close> by (auto simp: good_def)
    then show ?thesis using other [of x] other [of y] False x d by auto
  qed
  moreover have "unat base + 8 \<le> unat x \<and> 0 < ?sz x \<and> unat x + 8 * unat (?sz x) \<le> unat lim" if "x \<in> set (us @ a # vs) \<union> A" "x \<noteq> base" for x
  proof (cases "x = a")
    case True
    then show ?thesis using A(1) B(3) sum ab A(2) by (simp add: word_less_nat_alt)
  next
    case False
    then show ?thesis using g that by (auto simp: good_def)
  qed
  ultimately show "good base lim ?sz (us @ a # vs) A" using g na unfolding good_def by auto
qed

text \<open>A free block is handed out whole.\<close>

lemma good_take:
  assumes g: "good base lim sz (us @ w # vs) A" and w: "w \<noteq> base"
  shows "good base lim sz (us @ vs) (insert w A)" "us \<noteq> []"
proof -
  show us: "us \<noteq> []" using assms by (auto simp: good_def)
  have srt: "sorted_wrt (before sz) (us @ w # vs)" using g by (simp add: good_def)
  have "w \<notin> set (us @ vs)" using sorted_distinct [OF srt] by auto
  moreover have "sorted_wrt (before sz) (us @ vs)" using srt by (auto simp: sorted_wrt_append)
  moreover have "before sz w y \<or> before sz y w" if "y \<in> set (us @ vs) \<union> A" for y
    using that srt g by (auto simp: sorted_wrt_append good_def)
  moreover have "hd (us @ vs) = base" using g us by (simp add: good_def)
  ultimately show "good base lim sz (us @ vs) (insert w A)" using g us unfolding good_def by auto
qed

text \<open>The end of a free block is handed out.\<close>

lemma good_split:
  assumes g: "good base lim sz L A" and w: "w \<in> set L" "w \<noteq> base" and n: "0 < n" "n < sz w" and q: "q = w + 8 * (sz w - n)"
  shows "good base lim (sz(w := sz w - n, q := n)) L (insert q A)" "q \<notin> set L \<union> A"
proof -
  let ?m = "sz w - n" and ?sz = "sz(w := sz w - n, q := n)"
  note W = goodD [OF g _ w(2)]
  have lim: "unat lim \<le> 2 ^ 31" using g by (simp add: good_def)
  have m: "unat ?m = unat (sz w) - unat n" "unat n < unat (sz w)" "0 < unat n" using n by (simp_all add: unat_sub word_less_nat_alt word_le_nat_alt)
  have qn: "unat q = unat w + 8 * unat ?m" unfolding q using W(3) w(1) m lim by (intro unat_end) simp
  have srt: "sorted_wrt (before sz) L" using g by (simp add: good_def)
  have cmp: "before sz w y \<or> before sz y w" if y: "y \<in> set L \<union> A" "y \<noteq> w" for y
  proof (cases "y \<in> A")
    case True
    then show ?thesis using g y w(1) by (auto simp: good_def)
  next
    case False
    then have "y \<in> set L" using y by simp
    then show ?thesis using sorted_apart [OF srt w(1)] y(2) by simp
  qed
  show q': "q \<notin> set L \<union> A"
  proof
    assume "q \<in> set L \<union> A"
    moreover have "q \<noteq> w" using qn m by auto
    ultimately have "before sz w q \<or> before sz q w" by (rule cmp)
    then show False using qn m by (auto simp: before_def)
  qed
  have qw: "q \<noteq> w" "base \<noteq> q" using qn m W(1) w(1) by auto
  have keep: "before ?sz x y" if "before sz x y" "x \<in> set L \<union> A" for x y
    using that q' m by (auto simp: before_def)
  have new: "before ?sz q y \<or> before ?sz y q" if y: "y \<in> set L \<union> A" for y
  proof (cases "y = w")
    case True
    then show ?thesis using qw qn m by (simp add: before_def)
  next
    case False
    then have "before sz w y \<or> before sz y w" by (rule cmp [OF y])
    moreover have "y \<noteq> q" using y q' by blast
    ultimately show ?thesis using False qw qn m by (auto simp: before_def)
  qed
  have "sorted_wrt (before ?sz) L" using sorted_wrt_mono_rel [OF _ srt, of "before ?sz"] keep by blast
  moreover have "before ?sz x y \<or> before ?sz y x" if "x \<in> insert q A" "y \<in> set L \<union> insert q A" "x \<noteq> y" for x y
    using that new keep g unfolding good_def by blast
  moreover have "unat base + 8 \<le> unat x \<and> 0 < ?sz x \<and> unat x + 8 * unat (?sz x) \<le> unat lim" if x: "x \<in> set L \<union> insert q A" "x \<noteq> base" for x
  proof -
    consider "x = q" | "x = w" | "x \<noteq> q" "x \<noteq> w" "x \<in> set L \<union> A" using x by blast
    then show ?thesis
    proof cases
      case 1
      then show ?thesis using W w(1) qn m n by auto
    next
      case 2
      then show ?thesis using W w(1) qw m by (simp add: word_less_nat_alt)
    next
      case 3
      then show ?thesis using g x(2) by (simp add: good_def)
    qed
  qed
  ultimately show "good base lim ?sz L (insert q A)" using g q' qw w(2) unfolding good_def by auto
qed

text \<open>The image is extended.\<close>

lemma good_extend:
  assumes g: "good base lim sz L A" and n: "0 < n" and lim: "unat lim + 8 * unat n \<le> 2 ^ 31"
  shows "good base (lim + 8 * n) (sz(lim := n)) L (insert lim A)" "lim \<notin> set L \<union> A"
proof -
  have e: "unat (lim + 8 * n) = unat lim + 8 * unat n" using lim by (intro unat_end) simp
  have b: "unat base + 8 \<le> unat lim" "lim \<noteq> base" using g by (auto simp: good_def)
  have lo: "before sz x lim" if "x \<in> set L \<union> A" for x
  proof (cases "x = base")
    case True
    then show ?thesis using g by (simp add: good_def before_def)
  next
    case False
    then show ?thesis using goodD(2,3) [OF g that] by (simp add: before_def)
  qed
  show nl: "lim \<notin> set L \<union> A" using lo [of lim] by (auto simp: before_def)
  have keep: "before (sz(lim := n)) x y = before sz x y" if "x \<in> set L \<union> A" for x y using that nl by (auto simp: before_upd)
  have "sorted_wrt (before (sz(lim := n))) L" using g nl by (simp add: good_def sorted_before_cong)
  moreover have "before (sz(lim := n)) x y \<or> before (sz(lim := n)) y x" if "x \<in> insert lim A" "y \<in> set L \<union> insert lim A" "x \<noteq> y" for x y
    using that lo keep g unfolding good_def by blast
  ultimately show "good base (lim + 8 * n) (sz(lim := n)) L (insert lim A)" using g nl b e lim n unfolding good_def by auto
qed

section \<open>Freeing a block\<close>

lemma join_next:
  assumes g: "good base lim (h_size h) (us @ bp # zs) A" and nb: "bp \<noteq> base" and l: "links (h_ptr h) (p # zs) base"
    and h1: "h1 = (if bp + 8 * h_size h bp = h_ptr h p
       then h\<lparr>h_size := (h_size h)(bp := h_size h bp + h_size h (h_ptr h p)), h_ptr := (h_ptr h)(bp := h_ptr h (h_ptr h p))\<rparr>
       else h\<lparr>h_ptr := (h_ptr h)(bp := h_ptr h p)\<rparr>)"
  obtains zs1 where "good base lim (h_size h1) (us @ bp # zs1) A" "links (h_ptr h1) (bp # zs1) base" "h_size h bp \<le> h_size h1 bp"
proof -
  have srt: "sorted_wrt (before (h_size h)) (us @ bp # zs)" using g by (simp add: good_def)
  have nz: "bp \<notin> set zs" using sorted_distinct [OF srt] by simp
  note B = goodD [OF g _ nb]
  show thesis
  proof (cases "bp + 8 * h_size h bp = h_ptr h p")
    case True
    have "h_ptr h p \<noteq> base" using B(1,4) True by auto
    then obtain z zs' where z: "zs = z # zs'" "h_ptr h p = z" using l by (cases zs) auto
    have ub: "unat bp + 8 * unat (h_size h bp) = unat z" using B(4) True z(2) by simp
    have j: "good base lim ((h_size h)(bp := h_size h bp + h_size h z)) (us @ bp # zs') A" "unat (h_size h bp + h_size h z) = unat (h_size h bp) + unat (h_size h z)"
      using good_join [OF g [unfolded z(1)] ub nb] \<open>h_ptr h p \<noteq> base\<close> z(2) by auto
    have "links (h_ptr h) (z # zs') base" using l z by simp
    then have "links (h_ptr h1) (bp # zs') base" using True z nz unfolding h1
      by (auto simp: links_Cons links_upd)
    then show thesis using that [of zs'] j True z(2) unfolding h1 by (simp add: word_le_nat_alt)
  next
    case False
    have "links (h_ptr h1) (bp # zs) base" using l nz False unfolding h1 by (auto simp: links_Cons links_upd)
    then show thesis using that [of zs] g False unfolding h1 by simp
  qed
qed

lemma join_prev:
  assumes g: "good base lim (h_size h) (ys @ p # bp # zs) A" and nb: "bp \<noteq> base" and l: "links (h_ptr h) (bp # zs) base" "links (h_ptr h) ys p"
    and h2: "h2 = (if p + 8 * h_size h p = bp
       then h\<lparr>h_size := (h_size h)(p := h_size h p + h_size h bp), h_ptr := (h_ptr h)(p := h_ptr h bp)\<rparr>
       else h\<lparr>h_ptr := (h_ptr h)(p := bp)\<rparr>)"
  obtains L x where "good base lim (h_size h2) L A" "links (h_ptr h2) L base" "p \<in> set L" "x \<in> set L" "h_size h bp \<le> h_size h2 x"
proof -
  have srt: "sorted_wrt (before (h_size h)) (ys @ p # bp # zs)" using g by (simp add: good_def)
  have np: "p \<notin> set ys" "p \<notin> set (bp # zs)" "p \<noteq> bp" using sorted_distinct [OF srt] by auto
  show thesis
  proof (cases "p + 8 * h_size h p = bp")
    case True
    have pb: "p \<noteq> base" using True np(3) g by (auto simp: good_def)
    note P = goodD [OF g _ pb]
    have ub: "unat p + 8 * unat (h_size h p) = unat bp" using P(4) True by simp
    note j = good_join [OF g ub pb nb]
    have "links (h_ptr h2) (p # zs) base" "links (h_ptr h2) ys p" using l True np unfolding h2
      by (auto simp: links_Cons links_upd)
    then have "links (h_ptr h2) (ys @ p # zs) base" by (simp add: links_append)
    then show thesis using that [of "ys @ p # zs" p] j True unfolding h2 by (simp add: word_le_nat_alt)
  next
    case False
    have "links (h_ptr h2) ys p" "links (h_ptr h2) (bp # zs) base" "h_ptr h2 p = bp" using l False np unfolding h2
      by (auto simp: links_upd)
    then have "links (h_ptr h2) (ys @ p # bp # zs) base" by (simp add: links_append)
    then show thesis using that [of "ys @ p # bp # zs" bp] g False unfolding h2 by simp
  qed
qed

lemma free_ok:
  assumes I: "heap_inv base lim h L A" and bp: "bp \<in> A"
  obtains h' L' x where "free (bp + 8) h = Some h'" "heap_inv base lim h' L' (A - {bp})" "h_kern h' = h_kern h"
    "\<forall>a \<in> A - {bp}. h_size h' a = h_size h a" "x \<in> set L'" "h_size h bp \<le> h_size h' x"
proof -
  have g: "good base lim (h_size h) L A" and l: "links (h_ptr h) L base" and q: "h_freep h \<in> set L" and b0: "base \<noteq> 0"
    using I by (auto simp: heap_inv_def)
  obtain xs where L: "L = base # xs" using g by (cases L) (auto simp: good_def)
  have nL: "bp \<notin> set L" using g bp by (auto simp: good_def)
  then have nb: "bp \<noteq> base" using L by auto
  have lt: "base < bp" using goodD(1) [OF g _ nb] bp by (simp add: word_less_nat_alt)
  obtain ys p zs where split: "base # xs = ys @ p # zs" and find: "free_find h bp (h_freep h) = Some p"
    and lo: "\<forall>x \<in> set (ys @ [p]). x < bp" and hi: "\<forall>z \<in> set zs. bp < z"
    by (rule free_find_ok [of h base xs "h_size h" "h_freep h" bp]) (use l g q lt nL L in \<open>auto simp: good_def\<close>)
  have g1: "good base lim (h_size h) ((ys @ [p]) @ bp # zs) (A - {bp})"
    using good_move [OF g [unfolded L split] bp lo hi] by simp
  have l1: "links (h_ptr h) ys p" "links (h_ptr h) (p # zs) base" using l [unfolded L split links_append] by auto
  define h1 where "h1 = (if bp + 8 * h_size h bp = h_ptr h p
       then h\<lparr>h_size := (h_size h)(bp := h_size h bp + h_size h (h_ptr h p)), h_ptr := (h_ptr h)(bp := h_ptr h (h_ptr h p))\<rparr>
       else h\<lparr>h_ptr := (h_ptr h)(bp := h_ptr h p)\<rparr>)"
  obtain zs1 where z1: "good base lim (h_size h1) ((ys @ [p]) @ bp # zs1) (A - {bp})" "links (h_ptr h1) (bp # zs1) base" "h_size h bp \<le> h_size h1 bp"
    by (rule join_next [OF g1 nb l1(2) h1_def])
  have "bp \<notin> set ys" using nL L split by simp
  then have ly: "links (h_ptr h1) ys p" using l1(1) by (auto simp: h1_def links_upd)
  define h2 where "h2 = (if p + 8 * h_size h1 p = bp
       then h1\<lparr>h_size := (h_size h1)(p := h_size h1 p + h_size h1 bp), h_ptr := (h_ptr h1)(p := h_ptr h1 bp)\<rparr>
       else h1\<lparr>h_ptr := (h_ptr h1)(p := bp)\<rparr>)"
  have g2: "good base lim (h_size h1) (ys @ p # bp # zs1) (A - {bp})" using z1(1) by simp
  obtain L2 x where r: "good base lim (h_size h2) L2 (A - {bp})" "links (h_ptr h2) L2 base" "p \<in> set L2" "x \<in> set L2" "h_size h1 bp \<le> h_size h2 x"
    by (rule join_prev [OF g2 nb z1(2) ly h2_def])
  have "free (bp + 8) h = Some (h2\<lparr>h_freep := p\<rparr>)" using find by (simp add: free_def Let_def h1_def h2_def)
  moreover have brk: "h_kern h2 = h_kern h" by (simp add: h1_def h2_def)
  moreover have "h_size h2 a = h_size h a" if "a \<in> A - {bp}" for a
  proof -
    have "p \<in> set L" unfolding L split by simp
    then have "a \<noteq> p" "a \<noteq> bp" using that g by (auto simp: good_def)
    then show ?thesis by (simp add: h1_def h2_def)
  qed
  moreover have "heap_inv base lim (h2\<lparr>h_freep := p\<rparr>) L2 (A - {bp})" using r brk b0 by (simp add: heap_inv_def)
  moreover have "h_size h bp \<le> h_size h2 x" using z1(3) r(5) by simp
  ultimately show thesis using that [of "h2\<lparr>h_freep := p\<rparr>" L2 x] r(4) by simp
qed

section \<open>Handing out a block\<close>

lemma links_last: "links nx (us @ [x]) b \<longleftrightarrow> links nx us x \<and> nx x = b"
  by (simp add: links_append)

text \<open>In the ring every block has one predecessor.\<close>

lemma ring_pred:
  assumes "links nx (us @ w # vs) base" "distinct (us @ w # vs)" "us \<noteq> []" "hd us = base" "x \<in> set (us @ w # vs)" "nx x = w"
  shows "x = last us"
proof (rule ccontr)
  assume ne: "x \<noteq> last us"
  obtain as bs where xs: "us @ w # vs = as @ x # bs" using assms(5) by (meson split_list)
  have n: "nx x = hd (bs @ [base])" using assms(1) unfolding xs by (simp add: links_append links_Cons)
  have wb: "w \<noteq> base" using assms(2-4) by (cases us) auto
  then obtain bs' where bs: "bs = w # bs'" using n assms(6) by (cases bs) auto
  then have "us @ w # vs = (as @ [x]) @ w # bs'" using xs by simp
  then have "us = as @ [x]" using assms(2) by (metis append_Cons_eq_iff distinct.simps(2) distinct_append not_distinct_conv_prefix)
  then show False using ne by simp
qed

lemma heap_inv_next:
  assumes I: "heap_inv base lim h L A" and x: "x \<in> set L"
  shows "h_ptr h x \<in> set L"
proof -
  obtain as bs where L: "L = as @ x # bs" using x by (meson split_list)
  have "h_ptr h x = hd (bs @ [base])" using I unfolding heap_inv_def L by (simp add: links_append links_Cons)
  moreover have "base \<in> set L" using I good_base by (auto simp: heap_inv_def)
  ultimately show ?thesis unfolding L by (cases bs) auto
qed

lemma take_ok:
  assumes I: "heap_inv base lim h L A" and pv: "prevp \<in> set L" "h_ptr h prevp = p" and n: "0 < n" "n \<le> h_size h p"
  obtains q L' h' where "malloc_loop sbrk n prevp p h = Some (q + 8, h')" "q \<notin> A" "heap_inv base lim h' L' (insert q A)" "h_size h' q = n"
    "h_kern h' = h_kern h" "\<And>a. a \<in> A \<Longrightarrow> h_size h' a = h_size h a"
proof -
  have g: "good base lim (h_size h) L A" and l: "links (h_ptr h) L base" and b0: "base \<noteq> 0" using I by (auto simp: heap_inv_def)
  have p: "p \<in> set L" using heap_inv_next [OF I pv(1)] pv(2) by simp
  have pb: "p \<noteq> base" using n g by (auto simp: good_def)
  have nA: "p \<notin> A" using p g by (auto simp: good_def)
  show thesis
  proof (cases "h_size h p = n")
    case True
    obtain us vs where L: "L = us @ p # vs" using p by (meson split_list)
    note t = good_take [OF g [unfolded L] pb]
    have d: "distinct L" using g sorted_distinct by (auto simp: good_def)
    have hd: "hd us = base" using g t(2) L by (simp add: good_def)
    have pl: "prevp = last us" by (rule ring_pred [of "h_ptr h" us p vs base]) (use l d t(2) hd pv L in auto)
    let ?h = "h\<lparr>h_ptr := (h_ptr h)(prevp := h_ptr h p), h_freep := prevp\<rparr>"
    obtain us' where us: "us = us' @ [prevp]" using t(2) pl by (metis append_butlast_last_id)
    have nv: "prevp \<notin> set us'" "prevp \<notin> set vs" using d unfolding L us by auto
    have "links (h_ptr h) (us' @ prevp # p # vs) base" using l unfolding L us by simp
    then have "links (h_ptr h) us' prevp" "h_ptr h p = hd (vs @ [base])" "links (h_ptr h) vs base" by (simp_all add: links_append links_Cons)
    then have "links (h_ptr ?h) (us' @ prevp # vs) base" using nv by (simp add: links_append links_Cons links_upd)
    then have "heap_inv base lim ?h (us @ vs) (insert p A)" using t(1) b0 unfolding us by (simp add: heap_inv_def)
    moreover have "malloc_loop sbrk n prevp p h = Some (p + 8, ?h)" using True by (subst malloc_loop.simps) simp
    ultimately show thesis using that [of p ?h "us @ vs"] nA True by simp
  next
    case False
    then have lt: "n < h_size h p" using n by simp
    let ?q = "p + 8 * (h_size h p - n)"
    let ?h = "h\<lparr>h_size := (h_size h)(p := h_size h p - n, ?q := n), h_freep := prevp\<rparr>"
    note t = good_split [OF g p pb n(1) lt refl]
    have "malloc_loop sbrk n prevp p h = Some (?q + 8, ?h)" using False n by (subst malloc_loop.simps) (simp add: Let_def)
    moreover have "heap_inv base lim ?h L (insert ?q A)" using t(1) l pv(1) b0 by (simp add: heap_inv_def)
    moreover have "h_size ?h a = h_size h a" if "a \<in> A" for a using that t(2) nA by auto
    ultimately show thesis using that [of ?q ?h L] t(2) by simp
  qed
qed

section \<open>The search\<close>

text \<open>The ring read from \<open>freep\<close> on.\<close>

lemma links_rotate:
  assumes "links nx (us @ f # vs) base" "hd (us @ f # vs) = base"
  shows "links nx (f # vs @ us) f"
proof (cases us)
  case Nil
  then show ?thesis using assms by simp
next
  case (Cons u us')
  then have "links nx us f" "links nx (f # vs) base" "u = base" using assms(1) [unfolded links_append] assms(2) by simp_all
  then show ?thesis using Cons links_append [of nx "f # vs" base us' f] by simp
qed

text \<open>The loop stops at the first block that fits; if there is none it asks for memory.\<close>

lemma malloc_walk:
  assumes "links (h_ptr h) (prevp # R) f" "f \<notin> set R" "h_freep h = f"
  shows "(\<exists>pv \<in> set (prevp # R). n \<le> h_size h (h_ptr h pv) \<and>
            malloc_loop sbrk n prevp (h_ptr h prevp) h = malloc_loop sbrk n pv (h_ptr h pv) h) \<or>
         (\<forall>x \<in> set (R @ [f]). \<not> n \<le> h_size h x) \<and>
            malloc_loop sbrk n prevp (h_ptr h prevp) h = do {
              (p, h) \<leftarrow> morecore sbrk n h;
              if p = 0 then Some (0, h) else malloc_loop sbrk n p (h_ptr h p) h }"
  using assms
proof (induction R arbitrary: prevp)
  case Nil
  then show ?case by (cases "n \<le> h_size h f") (auto simp: malloc_loop.simps [of sbrk n prevp f h])
next
  case (Cons r R)
  have p: "h_ptr h prevp = r" "links (h_ptr h) (r # R) f" "r \<noteq> f" using Cons.prems by auto
  show ?case
  proof (cases "n \<le> h_size h r")
    case True
    then show ?thesis using p(1) by auto
  next
    case False
    have "malloc_loop sbrk n prevp r h = malloc_loop sbrk n r (h_ptr h r) h"
      using False p(3) Cons.prems(3) by (subst malloc_loop.simps) simp
    then show ?thesis using Cons.IH [of r] Cons.prems p False by auto
  qed
qed

text \<open>The system call as the allocator relies on it: it fails and changes nothing, or moves the end of the image, \<open>brk\<close>, below \<open>KERNBASE\<close>.\<close>

locale image_break =
  fixes sbrk :: "u32 \<Rightarrow> 'k \<Rightarrow> (u32 \<times> 'k) option" and brk :: "'k \<Rightarrow> u32"
  assumes sbrk_law: "sbrk n k = Some (r, k') \<Longrightarrow> unat (brk k) \<le> 2 ^ 31 \<Longrightarrow> 0 < n \<Longrightarrow> unat n < 2 ^ 31 \<Longrightarrow>
    r = -1 \<and> brk k' = brk k \<or> r = brk k \<and> brk k' = brk k + n \<and> unat (brk k) + unat n \<le> 2 ^ 31"
begin

lemma morecore_ok:
  assumes I: "heap_inv base (brk (h_kern h)) h L A" and n: "0 < n" "unat n < 2 ^ 28"
  shows "case morecore sbrk n h of None \<Rightarrow> \<exists>m. sbrk m (h_kern h) = None | Some (p, h') \<Rightarrow> (\<forall>a \<in> A. h_size h' a = h_size h a) \<and>
    (p = 0 \<and> heap_inv base (brk (h_kern h')) h' L A
     \<or> p \<noteq> 0 \<and> p = h_freep h' \<and> (\<exists>L'. heap_inv base (brk (h_kern h')) h' L' A \<and> (\<exists>x \<in> set L'. n \<le> h_size h' x)))"
proof -
  let ?b = "brk (h_kern h)" and ?nu = "if n < 4096 then 4096 else n"
  have nu: "unat (?nu * 8) = 8 * unat ?nu" "unat ?nu < 2 ^ 28" "n \<le> ?nu" "0 < ?nu" using n by (auto simp: unat_word_ariths word_less_nat_alt word_le_nat_alt)
  have g: "good base ?b (h_size h) L A" and b: "unat ?b \<le> 2 ^ 31" using I by (auto simp: heap_inv_def good_def)
  show ?thesis
  proof (cases "sbrk (?nu * 8) (h_kern h)")
    case None
    then show ?thesis by (auto simp: morecore_def Let_def)
  next
    case (Some a)
    then obtain r k where s: "sbrk (?nu * 8) (h_kern h) = Some (r, k)" by (cases a) simp
    have "0 < ?nu * 8" "unat (?nu * 8) < 2 ^ 31" using nu by (auto simp: word_less_nat_alt)
    from sbrk_law [OF s b this] consider (no) "r = -1" "brk k = ?b" | (yes) "r = ?b" "brk k = ?b + 8 * ?nu" "unat ?b + 8 * unat ?nu \<le> 2 ^ 31"
      using nu(1) by (auto simp: mult.commute)
    then show ?thesis
    proof cases
      case no
      then show ?thesis using s I by (auto simp: morecore_def Let_def heap_inv_def)
    next
      case yes
      have r: "r \<noteq> -1" using yes(1) b by (auto simp: unsigned_minus_1_eq_mask mask_eq_exp_minus_1)
      let ?h = "h\<lparr>h_kern := k, h_size := (h_size h)(r := ?nu)\<rparr>"
      note e = good_extend [OF g nu(4) yes(3)]
      have I1: "heap_inv base (brk k) ?h L (insert r A)" using e(1) I yes by (simp add: heap_inv_def)
      obtain h2 L2 x where f: "free (r + 8) ?h = Some h2" "heap_inv base (brk k) h2 L2 (insert r A - {r})" "h_kern h2 = h_kern ?h"
        "\<forall>a \<in> insert r A - {r}. h_size h2 a = h_size ?h a" "x \<in> set L2" "h_size ?h r \<le> h_size h2 x"
        by (rule free_ok [OF I1 insertI1])
      have A: "insert r A - {r} = A" using e(2) yes(1) by auto
      have m: "morecore sbrk n h = Some (h_freep h2, h2)" using s r f(1) by (simp add: morecore_def Let_def)
      have "h_freep h2 \<noteq> 0"
      proof
        assume z: "h_freep h2 = 0"
        have "good base (brk k) (h_size h2) L2 A" "0 \<in> set L2" "base \<noteq> 0" using f(2) A z by (auto simp: heap_inv_def)
        then show False using goodD(1) [of base "brk k" "h_size h2" L2 A 0] by simp
      qed
      moreover have "h_size h2 a = h_size h a" if "a \<in> A" for a using f(4) that e(2) yes(1) by auto
      moreover have "n \<le> h_size h2 x" using f(6) nu(3) by auto
      ultimately show ?thesis using m f(2,3,5) A by auto
    qed
  qed
qed

lemma malloc_found:
  assumes I: "heap_inv base (brk (h_kern h)) h L A" and n: "0 < n" and pv: "pv \<in> set L" "n \<le> h_size h (h_ptr h pv)"
  shows "\<exists>q L' h'. malloc_loop sbrk n pv (h_ptr h pv) h = Some (q + 8, h') \<and> q \<notin> A \<and> heap_inv base (brk (h_kern h')) h' L' (insert q A)
    \<and> h_size h' q = n \<and> (\<forall>a \<in> A. h_size h' a = h_size h a)"
proof (rule take_ok [OF I pv(1) refl n pv(2), where sbrk = sbrk])
  fix q L' h'
  assume "malloc_loop sbrk n pv (h_ptr h pv) h = Some (q + 8, h')" "q \<notin> A" "heap_inv base (brk (h_kern h)) h' L' (insert q A)" "h_size h' q = n"
    "h_kern h' = h_kern h" "\<And>a. a \<in> A \<Longrightarrow> h_size h' a = h_size h a"
  then show ?thesis by (intro exI [of _ q] exI [of _ L'] exI [of _ h']) simp
qed

lemma malloc_from_freep:
  assumes I: "heap_inv base (brk (h_kern h)) h L A"
  shows "(\<exists>pv \<in> set L. n \<le> h_size h (h_ptr h pv) \<and>
            malloc_loop sbrk n (h_freep h) (h_ptr h (h_freep h)) h = malloc_loop sbrk n pv (h_ptr h pv) h) \<or>
         (\<forall>x \<in> set L. \<not> n \<le> h_size h x) \<and>
            malloc_loop sbrk n (h_freep h) (h_ptr h (h_freep h)) h = do {
              (p, h) \<leftarrow> morecore sbrk n h;
              if p = 0 then Some (0, h) else malloc_loop sbrk n p (h_ptr h p) h }"
proof -
  let ?f = "h_freep h"
  have g: "good base (brk (h_kern h)) (h_size h) L A" and l: "links (h_ptr h) L base" and f: "?f \<in> set L" using I by (auto simp: heap_inv_def)
  obtain us vs where L: "L = us @ ?f # vs" using f by (meson split_list)
  have d: "distinct L" using g sorted_distinct by (auto simp: good_def)
  have "links (h_ptr h) (?f # vs @ us) ?f" by (rule links_rotate [of _ us _ _ base]) (use l g L in \<open>simp_all add: good_def\<close>)
  moreover have "?f \<notin> set (vs @ us)" "set L = set (?f # vs @ us)" using d L by (metis Un_iff distinct.simps(2) distinct_append not_distinct_conv_prefix set_append) (subst L, auto)
  ultimately show ?thesis using malloc_walk [of h ?f "vs @ us" ?f n sbrk] by auto
qed

lemma malloc_loop_ok:
  assumes I: "heap_inv base (brk (h_kern h)) h L A" and n: "0 < n" "unat n < 2 ^ 28"
  shows "case malloc_loop sbrk n (h_freep h) (h_ptr h (h_freep h)) h of
      None \<Rightarrow> \<exists>m. sbrk m (h_kern h) = None
    | Some (r, h') \<Rightarrow> (\<forall>a \<in> A. h_size h' a = h_size h a) \<and>
        (r = 0 \<and> heap_inv base (brk (h_kern h')) h' L A
         \<or> (\<exists>q L'. r = q + 8 \<and> q \<notin> A \<and> heap_inv base (brk (h_kern h')) h' L' (insert q A) \<and> h_size h' q = n))"
  using malloc_from_freep [OF I, of n]
proof (elim disjE bexE conjE)
  fix pv
  assume pv: "pv \<in> set L" "n \<le> h_size h (h_ptr h pv)"
    and eq: "malloc_loop sbrk n (h_freep h) (h_ptr h (h_freep h)) h = malloc_loop sbrk n pv (h_ptr h pv) h"
  show ?thesis unfolding eq using malloc_found [OF I n(1) pv] by auto
next
  assume eq: "malloc_loop sbrk n (h_freep h) (h_ptr h (h_freep h)) h = do {
              (p, h) \<leftarrow> morecore sbrk n h;
              if p = 0 then Some (0, h) else malloc_loop sbrk n p (h_ptr h p) h }"
  show ?thesis
  proof (cases "morecore sbrk n h")
    case None
    then show ?thesis using morecore_ok [OF I n] eq by simp
  next
    case (Some a)
    obtain p h1 where a: "a = (p, h1)" by fastforce
    note m = morecore_ok [OF I n, unfolded Some a option.case prod.case]
    show ?thesis
    proof (cases "p = 0")
      case True
      then show ?thesis using m eq Some a by simp
    next
      case False
      then obtain L1 x where f: "p = h_freep h1" "heap_inv base (brk (h_kern h1)) h1 L1 A" "x \<in> set L1" "n \<le> h_size h1 x" using m by blast
      obtain pv where pv: "pv \<in> set L1" "n \<le> h_size h1 (h_ptr h1 pv)"
        "malloc_loop sbrk n (h_freep h1) (h_ptr h1 (h_freep h1)) h1 = malloc_loop sbrk n pv (h_ptr h1 pv) h1"
        using malloc_from_freep [OF f(2), of n] f(3,4) by blast
      have "malloc_loop sbrk n (h_freep h) (h_ptr h (h_freep h)) h = malloc_loop sbrk n pv (h_ptr h1 pv) h1" using eq Some a False f(1) pv(3) by simp
      then show ?thesis using malloc_found [OF f(2) n(1) pv(1,2)] m by auto
    qed
  qed
qed

end

section \<open>The system call\<close>

text \<open>The operations on user memory leave the process table alone.\<close>

definition same_procs :: "'a ksys_scheme \<Rightarrow> 'a ksys_scheme \<Rightarrow> bool" where
  "same_procs s s' \<longleftrightarrow> procs s' = procs s \<and> curproc s' = curproc s"

lemma same_procs_refl [simp]: "same_procs s s"
  by (simp add: same_procs_def)

lemma same_procs_trans [trans]: "same_procs s t \<Longrightarrow> same_procs t u \<Longrightarrow> same_procs s u"
  by (simp add: same_procs_def)

lemma same_procs_mem [simp]: "same_procs s (t\<lparr>mem := m\<rparr>) = same_procs s t" "same_procs (s\<lparr>mem := m\<rparr>) t = same_procs s t"
  by (simp_all add: same_procs_def)

lemma same_procs_myproc: "same_procs s s' \<Longrightarrow> myproc s' = myproc s"
  by (simp add: same_procs_def myproc_def split: option.splits)

lemma kalloc_same: "kalloc s = (r, s') \<Longrightarrow> same_procs s s'"
  using kalloc_ksys(2,3) [of s] by (simp add: same_procs_def)

lemma walkpgdir_same: "walkpgdir s pd va al = (r, s') \<Longrightarrow> same_procs s s'"
  by (auto simp: walkpgdir_def Let_def split: if_splits prod.splits dest: kalloc_same)

lemma kfree_same: "kfree s v = Some s' \<Longrightarrow> same_procs s s'"
  using kfree_ksys(1,2) [of s v s'] by (simp add: same_procs_def)

lemma shm_remove_same: "shm_remove s pa = Some (r, s') \<Longrightarrow> same_procs s s'"
  by (auto simp: shm_remove_def Let_def same_procs_def split: option.splits if_splits bind_splits dest!: kfree_same)

lemma mappages_loop_same: "mappages_loop pd lastp perm s a pa = Some y \<Longrightarrow> same_procs s (snd y)"
  apply (erule mappages_loop.raw_induct [rotated, where P = "\<lambda>pd lastp perm s a pa y. same_procs s (snd y)"])
  subgoal premises prems for f pd lastp perm s a pa y
  proof -
    obtain pte s1 where w: "walkpgdir s pd a True = (pte, s1)" by fastforce
    show ?thesis using prems(2) walkpgdir_same [OF w]
      by (auto simp: w split: if_splits dest!: prems(1) intro: same_procs_trans)
  qed
  done

lemma deallocuvm_loop_same: "deallocuvm_loop pd oldsz s a = Some y \<Longrightarrow> same_procs s y"
  apply (erule deallocuvm_loop.raw_induct [rotated, where P = "\<lambda>pd oldsz s a y. same_procs s y"])
  subgoal premises prems for f pd oldsz s a y
    using prems(2) by (auto simp: Let_def split: if_splits bind_splits dest!: prems(1) kfree_same shm_remove_same intro: same_procs_trans)
  done

lemma deallocuvm_same: "deallocuvm s pd oldsz newsz = Some (r, s') \<Longrightarrow> same_procs s s'"
  by (auto simp: deallocuvm_def split: if_splits bind_splits dest: deallocuvm_loop_same)

lemma allocuvm_loop_same: "allocuvm_loop pd oldsz newsz s a = Some y \<Longrightarrow> same_procs s (snd y) \<and> (fst y = 0 \<or> fst y = newsz)"
  apply (erule allocuvm_loop.raw_induct [rotated, where P = "\<lambda>pd oldsz newsz s a y. same_procs s (snd y) \<and> (fst y = 0 \<or> fst y = newsz)"])
  subgoal premises prems for f pd oldsz newsz s a y
  proof -
    obtain pg s1 where w: "kalloc s = (pg, s1)" by fastforce
    show ?thesis using prems(2) kalloc_same [OF w]
      by (auto simp: w mappages_def split: if_splits bind_splits dest!: prems(1) deallocuvm_same mappages_loop_same kfree_same)
        (simp_all add: same_procs_def)
  qed
  done

lemma set_size_sz:
  assumes "set_size sz s = Some (r, s')" "myproc s = Some p"
  shows "r = 0 \<and> (\<exists>p'. myproc s' = Some p' \<and> p_sz p' = sz)"
  using assms by (auto simp: set_size_def switchuvm_def myproc_def upd_proc_def Let_def split: option.splits if_splits bind_splits)

text \<open>A positive request either changes nothing or moves the end of the image, which stays below \<open>KERNBASE\<close>.\<close>

lemma growproc_grows:
  assumes p: "myproc s = Some p" and g: "growproc s n = Some (r, s')" and b: "unat (p_sz p) \<le> 2 ^ 31" "0 < n" "unat n < 2 ^ 31"
  shows "r = -1 \<and> myproc s' = Some p \<or> r = 0 \<and> (\<exists>p'. myproc s' = Some p' \<and> p_sz p' = p_sz p + n) \<and> unat (p_sz p) + unat n \<le> 2 ^ 31"
proof -
  have u: "uint n = int (unat n)" by simp
  have "unat n < 2147483648" using b(3) by simp
  then have "uint n < 2147483648" "- 2147483648 \<le> uint n" using u by linarith+
  then have "signed_take_bit 31 (uint n) = uint n" by (simp add: signed_take_bit_int_eq_self_iff)
  then have "sint n = int (unat n)" by (simp add: sint_uint)
  moreover have "0 < unat n" using b(2) by (simp add: word_less_nat_alt)
  ultimately have n: "0 < sint n" by linarith
  have e: "unat (p_sz p + n) = unat (p_sz p) + unat n" using b by (intro unat_sum) simp
  have ne: "p_sz p + n \<noteq> 0" "\<not> p_sz p + n < p_sz p" using e b(2) by (auto simp: word_less_nat_alt unat_eq_0)
  obtain q s1 where a: "allocuvm s (p_pgdir p) (p_sz p) (p_sz p + n) = Some (q, s1)"
    using g p n by (auto simp: growproc_def split: bind_splits)
  have fin: "if q = 0 then (r, s') = (-1, s1) else set_size q s1 = Some (r, s')"
    using g p n a by (auto simp: growproc_def split: if_splits)
  have "same_procs s s1 \<and> (q = 0 \<or> q = p_sz p + n \<and> \<not> KERNBASE \<le> p_sz p + n)"
    using a ne by (auto simp: allocuvm_def split: if_splits dest!: allocuvm_loop_same)
  then have st: "myproc s1 = Some p" and q: "q = 0 \<or> q = p_sz p + n \<and> unat (p_sz p) + unat n \<le> 2 ^ 31"
    using p e by (auto simp: same_procs_myproc word_le_nat_alt)
  show ?thesis
  proof (cases "q = 0")
    case True
    then show ?thesis using fin st by simp
  next
    case False
    then have "set_size q s1 = Some (r, s')" using fin by simp
    then show ?thesis using set_size_sz [of q s1 r s' p] st q False by auto
  qed
qed

definition image_end :: "'a ksys_scheme \<Rightarrow> u32" where
  "image_end s = (case myproc s of None \<Rightarrow> 0 | Some p \<Rightarrow> p_sz p)"

definition sbrk :: "u32 \<Rightarrow> 'a ksys_scheme \<Rightarrow> (u32 \<times> 'a ksys_scheme) option" where
  "sbrk n s = do { (r, s) \<leftarrow> sbrk_by s n; Some (word_of_int r, s) }"

lemma sbrk_grows:
  assumes "sbrk n k = Some (r, k')" "unat (image_end k) \<le> 2 ^ 31" "0 < n" "unat n < 2 ^ 31"
  shows "r = -1 \<and> image_end k' = image_end k \<or> r = image_end k \<and> image_end k' = image_end k + n \<and> unat (image_end k) + unat n \<le> 2 ^ 31"
proof -
  obtain p where p: "myproc k = Some p" using assms(1) by (auto simp: sbrk_def sbrk_by_def split: bind_splits)
  obtain r' k1 where g: "growproc k n = Some (r', k1)" using assms(1) p by (auto simp: sbrk_def sbrk_by_def split: bind_splits)
  have e: "image_end k = p_sz p" using p by (simp add: image_end_def)
  show ?thesis using growproc_grows [OF p g _ assms(3,4)] assms(1,2) p g e by (auto simp: sbrk_def sbrk_by_def image_end_def)
qed

interpretation kernel_break: image_break sbrk image_end
  by unfold_locales (rule sbrk_grows)

section \<open>Safety\<close>

text \<open>The heap of a process: nothing is handed out before the first call, which sets up \<open>base\<close>.\<close>

definition heap_ok :: "u32 \<Rightarrow> 'a ksys_scheme heap \<Rightarrow> u32 set \<Rightarrow> bool" where
  "heap_ok base h A \<longleftrightarrow> base \<noteq> 0 \<and>
     (if h_freep h = 0 then A = {} \<and> unat base + 8 \<le> unat (image_end (h_kern h)) \<and> unat (image_end (h_kern h)) \<le> 2 ^ 31
      else \<exists>L. heap_inv base (image_end (h_kern h)) h L A)"

lemma heap_inv_freep: "heap_inv base lim h L A \<Longrightarrow> h_freep h \<noteq> 0"
  using goodD(1) [of base lim "h_size h" L A "h_freep h"] by (auto simp: heap_inv_def)

lemma heap_inv_ok: "heap_inv base (image_end (h_kern h)) h L A \<Longrightarrow> heap_ok base h A"
  using heap_inv_freep [of base "image_end (h_kern h)" h L A] by (auto simp: heap_ok_def heap_inv_def)

lemma malloc_ok:
  fixes h :: "'a ksys_scheme heap"
  assumes H: "heap_ok base h A" and n: "unat nbytes < 2 ^ 31 - 16"
  shows "case malloc sbrk base nbytes h of
      None \<Rightarrow> \<exists>m. sbrk m (h_kern h) = None
    | Some (r, h') \<Rightarrow> (\<forall>a \<in> A. h_size h' a = h_size h a) \<and>
        (r = 0 \<and> heap_ok base h' A
         \<or> (\<exists>q L'. r = q + 8 \<and> q \<notin> A \<and> heap_inv base (image_end (h_kern h')) h' L' (insert q A) \<and> unat nbytes + 8 \<le> 8 * unat (h_size h' q)))"
proof -
  let ?n = "(nbytes + 8 - 1) div 8 + 1"
  define h0 where "h0 = (if h_freep h = 0 then h\<lparr>h_ptr := (h_ptr h)(base := base), h_freep := base, h_size := (h_size h)(base := 0)\<rparr> else h)"
  have h0: "h_kern h0 = h_kern h" "\<forall>a \<in> A. h_size h0 a = h_size h a" using H by (auto simp: h0_def heap_ok_def)
  obtain L where I: "heap_inv base (image_end (h_kern h0)) h0 L A"
  proof (cases "h_freep h = 0")
    case True
    then show thesis using that [of "[base]"] H by (simp add: h0_def heap_ok_def heap_inv_def good_def)
  next
    case False
    then show thesis using that H by (auto simp: h0_def heap_ok_def)
  qed
  have u: "unat (nbytes + 8 - 1) = unat nbytes + 7" using n by (simp add: unat_word_ariths)
  have un: "unat ?n = (unat nbytes + 7) div 8 + 1" using n u by (simp add: unat_word_ariths unat_div)
  have pos: "0 < ?n" "unat ?n < 2 ^ 28" using un n by (simp_all add: word_less_nat_alt)
  have "unat nbytes + 8 \<le> 8 * unat ?n" using un by linarith
  moreover have "malloc sbrk base nbytes h = malloc_loop sbrk ?n (h_freep h0) (h_ptr h0 (h_freep h0)) h0" by (simp only: malloc_def Let_def h0_def)
  ultimately show ?thesis using kernel_break.malloc_loop_ok [OF I pos] h0 by (auto split: option.splits intro: heap_inv_ok)
qed

lemma fresh_block:
  assumes I: "heap_inv base lim h' L (insert q A)" and q: "q \<notin> A" and n: "unat nbytes + 8 \<le> 8 * unat (h_size h' q)"
  shows "unat (q + 8) + unat nbytes \<le> unat lim" "a \<in> A \<Longrightarrow> unat (q + 8) + unat nbytes \<le> unat a \<or> unat a + 8 * unat (h_size h' a) \<le> unat q" "q + 8 \<noteq> 0"
proof -
  have g: "good base lim (h_size h') L (insert q A)" using I by (simp add: heap_inv_def)
  have qb: "q \<noteq> base" using good_base [OF g] by auto
  have lim: "unat lim \<le> 2 ^ 31" using g by (simp add: good_def)
  note Q = goodD [OF g UnI2 [OF insertI1] qb]
  have e: "unat (q + 8) = unat q + 8" using Q(3) lim n unat_end [of q 1] by simp
  show "unat (q + 8) + unat nbytes \<le> unat lim" using e Q(3) n by simp
  show "unat (q + 8) + unat nbytes \<le> unat a \<or> unat a + 8 * unat (h_size h' a) \<le> unat q" if a: "a \<in> A"
  proof -
    have "before (h_size h') q a \<or> before (h_size h') a q" using g a q by (auto simp: good_def)
    then show ?thesis using e n by (auto simp: before_def)
  qed
  show "q + 8 \<noteq> 0" using e by auto
qed

lemma malloc_result:
  fixes h :: "'a ksys_scheme heap"
  assumes H: "heap_ok base h A" and n: "unat nbytes < 2 ^ 31 - 16"
  shows "case malloc sbrk base nbytes h of
        None \<Rightarrow> \<exists>m. sbrk m (h_kern h) = None
      | Some (r, h') \<Rightarrow> (\<forall>a \<in> A. h_size h' a = h_size h a) \<and>
          (r = 0 \<and> heap_ok base h' A
           \<or> r \<noteq> 0 \<and> r - 8 \<notin> A \<and> heap_ok base h' (insert (r - 8) A) \<and> unat r + unat nbytes \<le> unat (image_end (h_kern h'))
             \<and> (\<forall>a \<in> A. unat r + unat nbytes \<le> unat a \<or> unat a + 8 * unat (h_size h' a) \<le> unat (r - 8)))"
proof (cases "malloc sbrk base nbytes h")
  case None
  then show ?thesis using malloc_ok [OF H n] by simp
next
  case (Some x)
  obtain r h' where x: "x = (r, h')" by fastforce
  note m = malloc_ok [OF H n, unfolded Some x option.case prod.case]
  show ?thesis
  proof (cases "r = 0 \<and> heap_ok base h' A")
    case True
    then show ?thesis using m Some x by simp
  next
    case False
    then obtain q L' where q: "r = q + 8" "q \<notin> A" "heap_inv base (image_end (h_kern h')) h' L' (insert q A)"
      "unat nbytes + 8 \<le> 8 * unat (h_size h' q)" using m by blast
    have "r - 8 = q" using q(1) by simp
    then show ?thesis using fresh_block [OF q(3,2,4)] heap_inv_ok [OF q(3)] q(1,2) m Some x by simp
  qed
qed

lemma free_result:
  fixes h :: "'a ksys_scheme heap"
  assumes H: "heap_ok base h A" and bp: "bp \<in> A"
  shows "\<exists>h'. free (bp + 8) h = Some h' \<and> heap_ok base h' (A - {bp}) \<and> h_kern h' = h_kern h
      \<and> (\<forall>a \<in> A - {bp}. h_size h' a = h_size h a)"
proof -
  obtain L where I: "heap_inv base (image_end (h_kern h)) h L A" using H bp by (auto simp: heap_ok_def split: if_splits)
  obtain h' L' x where f: "free (bp + 8) h = Some h'" "heap_inv base (image_end (h_kern h)) h' L' (A - {bp})" "h_kern h' = h_kern h"
    "\<forall>a \<in> A - {bp}. h_size h' a = h_size h a" "x \<in> set L'" "h_size h bp \<le> h_size h' x"
    by (rule free_ok [OF I bp])
  then show ?thesis using heap_inv_ok [of base h' L' "A - {bp}"] by simp
qed

text \<open>
  C16. The heap of user programs on top of the kernel's \<open>sbrk\<close>, from a well-formed heap with the blocks \<open>A\<close> handed out. A request
  for less than two gigabytes always ends unless the system call does not return; it gives null, or memory of the size asked for inside the image of the process
  that overlaps no block handed out before, nor its header. Freeing any block handed out, in any order, always ends, joins it with its neighbours,
  and leaves the other blocks and the image as they are. The heap stays well formed.
\<close>

theorem umalloc_safe:
  fixes h :: "'a ksys_scheme heap"
  assumes "heap_ok base h A"
  shows "(unat nbytes < 2 ^ 31 - 16 \<longrightarrow>
      (case malloc sbrk base nbytes h of
        None \<Rightarrow> \<exists>m. sbrk m (h_kern h) = None
      | Some (r, h') \<Rightarrow> (\<forall>a \<in> A. h_size h' a = h_size h a) \<and>
          (r = 0 \<and> heap_ok base h' A
           \<or> r \<noteq> 0 \<and> r - 8 \<notin> A \<and> heap_ok base h' (insert (r - 8) A) \<and> unat r + unat nbytes \<le> unat (image_end (h_kern h'))
             \<and> (\<forall>a \<in> A. unat r + unat nbytes \<le> unat a \<or> unat a + 8 * unat (h_size h' a) \<le> unat (r - 8)))))
    \<and> (bp \<in> A \<longrightarrow> (\<exists>h'. free (bp + 8) h = Some h' \<and> heap_ok base h' (A - {bp}) \<and> h_kern h' = h_kern h
      \<and> (\<forall>a \<in> A - {bp}. h_size h' a = h_size h a)))"
  using malloc_result [OF assms] free_result [OF assms] by blast

text \<open>A heap in a process of four pages: \<open>base\<close> is at \<open>0x800\<close>, and the block at \<open>0x1000\<close>, of one page, is handed out.\<close>

definition ex_heap :: "ksys heap" where
  "ex_heap = \<lparr>h_ptr = (\<lambda>_. 0x800), h_size = (\<lambda>x. if x = 0x800 then 0 else 512), h_freep = 0x800,
     h_kern = ex_user\<lparr>procs := [ex_uproc\<lparr>p_sz := 0x4000\<rparr>]\<rparr>\<rparr>"

lemma ex_heap_ok: "heap_ok 0x800 ex_heap {0x1000}"
  by (rule heap_inv_ok [of _ _ "[0x800]"])
    (simp add: ex_heap_def heap_inv_def good_def image_end_def myproc_def ex_user_def before_def word_less_nat_alt)

theorem umalloc_safe_witness:
  "(case malloc sbrk 0x800 100 ex_heap of None \<Rightarrow> \<exists>m. sbrk m (h_kern ex_heap) = None
     | Some (r, h') \<Rightarrow> h_size h' 0x1000 = 512) \<and> (\<exists>h'. free 0x1008 ex_heap = Some h' \<and> heap_ok 0x800 h' {})"
proof -
  have "h_size ex_heap 0x1000 = 512" by (simp add: ex_heap_def)
  then show ?thesis using umalloc_safe [OF ex_heap_ok, of 100 "0x1000"] by (auto split: option.splits)
qed

end
