(* ===== verification/User_Sh.thy ===== *)
theory User_Sh
  imports Sysfile
begin

text \<open>
  The parser of the shell, \<open>sh.c\<close>. The line is a buffer of characters with a terminating zero at \<open>es\<close>; pointers into it are
  positions. A token is the pair of its first position and the one after it, \<open>q\<close> and \<open>eq\<close>; \<open>nulterminate\<close> cuts the strings out of the buffer
  afterwards. \<open>panic\<close> prints its message and ends the process.
\<close>

section \<open>Commands\<close>

type_synonym span = "nat \<times> nat"

text \<open>The structures of the parsed command, with the representation of the strings left open.\<close>

datatype 's cmd =
    EXEC "'s list"
  | REDIR "'s cmd" 's u32 int
  | PIPE "'s cmd" "'s cmd"
  | LIST "'s cmd" "'s cmd"
  | BACK "'s cmd"

section \<open>Tokens\<close>

abbreviation (input) NUL :: char where "NUL \<equiv> CHR 0x00"
abbreviation (input) MAXARGS :: nat where "MAXARGS \<equiv> 10"

definition whitespace :: string where
  "whitespace = [CHR '' '', CHR 0x09, CHR 0x0d, CHR 0x0a, CHR 0x0b]"

definition symbols :: string where
  "symbols = ''<|>&;()''"

definition char_at :: "char list \<Rightarrow> nat \<Rightarrow> char" where
  "char_at buf i = (if i < length buf then buf ! i else NUL)"

function skip_space :: "char list \<Rightarrow> nat \<Rightarrow> nat \<Rightarrow> nat" where
  "skip_space buf es s = (if s < es \<and> char_at buf s \<in> set whitespace then skip_space buf es (s + 1) else s)"
  by pat_completeness auto

termination skip_space
  by (relation "measure (\<lambda>(buf, es, s). es - s)") auto

function word_end :: "char list \<Rightarrow> nat \<Rightarrow> nat \<Rightarrow> nat" where
  "word_end buf es s =
     (if s < es \<and> char_at buf s \<notin> set whitespace \<and> char_at buf s \<notin> set symbols then word_end buf es (s + 1) else s)"
  by pat_completeness auto

termination word_end
  by (relation "measure (\<lambda>(buf, es, s). es - s)") auto

declare skip_space.simps [simp del] word_end.simps [simp del]

definition gettoken :: "char list \<Rightarrow> nat \<Rightarrow> nat \<Rightarrow> char \<times> span \<times> nat" where
  "gettoken buf es s =
     (let q = skip_space buf es s;
          (ret, eq) =
            (if char_at buf q = NUL then (NUL, q)
             else if char_at buf q \<in> set ''|();&<'' then (char_at buf q, q + 1)
             else if char_at buf q = CHR ''>'' then
               if char_at buf (q + 1) = CHR ''>'' then (CHR ''+'', q + 2) else (CHR ''>'', q + 1)
             else (CHR ''a'', word_end buf es q))
      in (ret, (q, eq), skip_space buf es eq))"

definition peek :: "char list \<Rightarrow> nat \<Rightarrow> string \<Rightarrow> nat \<Rightarrow> bool \<times> nat" where
  "peek buf es toks s =
     (let s = skip_space buf es s in (char_at buf s \<noteq> NUL \<and> char_at buf s \<in> set toks, s))"

text \<open>A token whose text is not used.\<close>

abbreviation skip_token :: "char list \<Rightarrow> nat \<Rightarrow> nat \<Rightarrow> nat" where
  "skip_token buf es s \<equiv> snd (snd (gettoken buf es s))"

section \<open>The parser\<close>

lemma skip_space_ge: "s \<le> skip_space buf es s"
  by (induction buf es s rule: skip_space.induct) (subst skip_space.simps, auto)

lemma skip_space_stop: "\<not> (s < es \<and> char_at buf s \<in> set whitespace) \<Longrightarrow> skip_space buf es s = s"
  by (subst skip_space.simps) auto

lemma skip_space_end: "\<not> (skip_space buf es s < es \<and> char_at buf (skip_space buf es s) \<in> set whitespace)"
proof (induction buf es s rule: skip_space.induct)
  case (1 buf es s)
  then show ?case using skip_space.simps [of buf es s] by (cases "s < es \<and> char_at buf s \<in> set whitespace") auto
qed

lemma skip_space_idem: "skip_space buf es (skip_space buf es s) = skip_space buf es s"
  by (rule skip_space_stop [OF skip_space_end])

lemma peek_advances:
  assumes "peek buf es toks s = (True, s1)" "set toks \<subseteq> set ''|();&<>''"
  shows "s1 < skip_token buf es s1" "s \<le> s1" "s1 < length buf"
proof -
  have s1: "s1 = skip_space buf es s" "char_at buf s1 \<noteq> NUL" "char_at buf s1 \<in> set ''|();&<>''" using assms by (auto simp: peek_def Let_def)
  then have "skip_space buf es s1 = s1" by (simp add: skip_space_idem)
  then show "s1 < skip_token buf es s1"
    using s1(2,3) skip_space_ge [of "s1 + 1" buf es] skip_space_ge [of "s1 + 2" buf es] unfolding gettoken_def Let_def by auto
  show "s \<le> s1" by (simp add: s1(1) skip_space_ge)
  show "s1 < length buf" using s1(2) by (auto simp: char_at_def split: if_splits)
qed

lemma word_end_ge: "s \<le> word_end buf es s"
  by (induction buf es s rule: word_end.induct) (subst word_end.simps, auto)

lemma gettoken_ge: "s \<le> skip_token buf es s"
proof -
  let ?q = "skip_space buf es s" and ?e = "snd (fst (snd (gettoken buf es s)))"
  have "s \<le> ?q" by (rule skip_space_ge)
  also have "?q \<le> ?e" by (auto simp: gettoken_def Let_def word_end_ge)
  also have "?e \<le> skip_token buf es s" by (auto simp: gettoken_def Let_def split_beta skip_space_ge)
  finally show ?thesis .
qed

lemma redir_advances:
  assumes "peek buf es ''<>'' s = (True, s1)"
  shows "length buf - skip_token buf es (skip_token buf es s1) < length buf - s"
  using peek_advances [OF assms] gettoken_ge [of "skip_token buf es s1" buf es] by auto

function parseredirs :: "char list \<Rightarrow> nat \<Rightarrow> span cmd \<Rightarrow> nat \<Rightarrow> (span cmd \<times> nat) option" where
  "parseredirs buf es cmd s =
     (case peek buf es ''<>'' s of (b, s) \<Rightarrow>
      if \<not> b then Some (cmd, s)
      else
        let (tok, _, s) = gettoken buf es s;
            (t, f, s) = gettoken buf es s
        in if t \<noteq> CHR ''a'' then panic ''missing file for redirection''
           else parseredirs buf es
             (if tok = CHR ''<'' then REDIR cmd f O_RDONLY 0
              else if tok = CHR ''>'' then REDIR cmd f (O_WRONLY OR O_CREATE) 1
              else if tok = CHR ''+'' then REDIR cmd f (O_WRONLY OR O_CREATE) 1
              else cmd) s)"
  by pat_completeness auto

termination parseredirs
  by (relation "measure (\<lambda>(buf, es, cmd, s). length buf - s)") (simp, clarsimp, metis redir_advances snd_conv)

text \<open>The loop of \<open>parseexec\<close>; \<open>cmd\<close> of the code points at the \<open>EXEC\<close> structure inside \<open>ret\<close>.\<close>

primrec add_arg :: "'s \<Rightarrow> 's cmd \<Rightarrow> 's cmd" where
  "add_arg a (EXEC args) = EXEC (args @ [a])"
| "add_arg a (REDIR cmd f m fd) = REDIR (add_arg a cmd) f m fd"
| "add_arg a (PIPE l r) = PIPE l r"
| "add_arg a (LIST l r) = LIST l r"
| "add_arg a (BACK c) = BACK c"

function parseexec_loop :: "char list \<Rightarrow> nat \<Rightarrow> nat \<Rightarrow> span cmd \<Rightarrow> nat \<Rightarrow> (span cmd \<times> nat) option" where
  "parseexec_loop buf es argc ret s =
     (case peek buf es ''|)&;'' s of (b, s) \<Rightarrow>
      if b then Some (ret, s)
      else case gettoken buf es s of (tok, a, s) \<Rightarrow>
        if tok = NUL then Some (ret, s)
        else if tok \<noteq> CHR ''a'' then panic ''syntax''
        else if argc + 1 \<ge> MAXARGS then panic ''too many args''
        else case parseredirs buf es (add_arg a ret) s of
          None \<Rightarrow> None
        | Some (ret, s) \<Rightarrow> parseexec_loop buf es (argc + 1) ret s)"
  by pat_completeness auto

termination parseexec_loop
  by (relation "measure (\<lambda>(buf, es, argc, ret, s). MAXARGS - argc)") auto

text \<open>
  The parsers call each other: \<open>parseblock\<close> calls \<open>parseline\<close>, which is their argument \<open>pl\<close>. The number of calls is
  bounded, for \<open>parsepipe\<close> and \<open>parseline\<close>; that the bound is never reached is shown below.
\<close>

definition parseblock :: "(nat \<Rightarrow> (span cmd \<times> nat) option) \<Rightarrow> char list \<Rightarrow> nat \<Rightarrow> nat \<Rightarrow> (span cmd \<times> nat) option" where
  "parseblock pl buf es s =
     (let (b, s) = peek buf es ''('' s in
      if \<not> b then panic ''parseblock''
      else do {
        (cmd, s) \<leftarrow> pl (skip_token buf es s);
        let (b, s) = peek buf es '')'' s;
        if \<not> b then panic ''syntax - missing )''
        else parseredirs buf es cmd (skip_token buf es s) })"

definition parseexec :: "(nat \<Rightarrow> (span cmd \<times> nat) option) \<Rightarrow> char list \<Rightarrow> nat \<Rightarrow> nat \<Rightarrow> (span cmd \<times> nat) option" where
  "parseexec pl buf es s =
     (let (b, s) = peek buf es ''('' s in
      if b then parseblock pl buf es s
      else do {
        (ret, s) \<leftarrow> parseredirs buf es (EXEC []) s;
        parseexec_loop buf es 0 ret s })"

primrec parsepipe :: "nat \<Rightarrow> (nat \<Rightarrow> (span cmd \<times> nat) option) \<Rightarrow> char list \<Rightarrow> nat \<Rightarrow> nat \<Rightarrow> (span cmd \<times> nat) option" where
  "parsepipe 0 pl buf es s = None"
| "parsepipe (Suc n) pl buf es s = do {
     (cmd, s) \<leftarrow> parseexec pl buf es s;
     let (b, s) = peek buf es ''|'' s;
     if b then do {
       (right, s) \<leftarrow> parsepipe n pl buf es (skip_token buf es s);
       Some (PIPE cmd right, s) }
     else Some (cmd, s) }"

function parseline_back :: "char list \<Rightarrow> nat \<Rightarrow> span cmd \<Rightarrow> nat \<Rightarrow> span cmd \<times> nat" where
  "parseline_back buf es cmd s =
     (case peek buf es ''&'' s of (b, s) \<Rightarrow>
      if b then parseline_back buf es (BACK cmd) (skip_token buf es s) else (cmd, s))"
  by pat_completeness auto

lemma back_advances:
  assumes "peek buf es ''&'' s = (True, s1)"
  shows "length buf - skip_token buf es s1 < length buf - s"
  using peek_advances [OF assms] by auto

termination parseline_back
  by (relation "measure (\<lambda>(buf, es, cmd, s). length buf - s)") (simp, clarsimp, metis back_advances)

primrec parseline :: "nat \<Rightarrow> char list \<Rightarrow> nat \<Rightarrow> nat \<Rightarrow> (span cmd \<times> nat) option" where
  "parseline 0 buf es s = None"
| "parseline (Suc n) buf es s = do {
     (cmd, s) \<leftarrow> parsepipe (Suc n) (parseline n buf es) buf es s;
     let (cmd, s) = parseline_back buf es cmd s;
     let (b, s) = peek buf es '';'' s;
     if b then do {
       (right, s) \<leftarrow> parseline n buf es (skip_token buf es s);
       Some (LIST cmd right, s) }
     else Some (cmd, s) }"

declare parseredirs.simps [simp del] parseexec_loop.simps [simp del] parseline_back.simps [simp del]

primrec nulterminate :: "span cmd \<Rightarrow> char list \<Rightarrow> char list" where
  "nulterminate (EXEC args) buf = fold (\<lambda>(q, eq) buf. buf[eq := NUL]) args buf"
| "nulterminate (REDIR cmd f m fd) buf = (nulterminate cmd buf)[snd f := NUL]"
| "nulterminate (PIPE l r) buf = nulterminate r (nulterminate l buf)"
| "nulterminate (LIST l r) buf = nulterminate r (nulterminate l buf)"
| "nulterminate (BACK cmd) buf = nulterminate cmd buf"

definition parsecmd :: "char list \<Rightarrow> (span cmd \<times> char list) option" where
  "parsecmd buf =
     (let es = length (takeWhile (\<lambda>c. c \<noteq> NUL) buf) in do {
      (cmd, s) \<leftarrow> parseline (es + 1) buf es 0;
      let (_, s) = peek buf es [] s;
      if s \<noteq> es then panic ''syntax'' else Some (cmd, nulterminate cmd buf) })"

section \<open>The tokens of a text\<close>

datatype token = Sym char | Word string

text \<open>Characters of words. The tokens \<open>>\<close> and \<open>>>\<close> are one: the parser makes the same redirection of both.\<close>

definition word_char :: "char \<Rightarrow> bool" where
  "word_char c \<longleftrightarrow> c \<notin> set whitespace \<and> c \<notin> set symbols"

function tokens :: "string \<Rightarrow> token list" where
  "tokens xs =
     (case dropWhile (\<lambda>c. c \<in> set whitespace) xs of
        [] \<Rightarrow> []
      | c # cs \<Rightarrow>
          if c = CHR ''>'' \<and> cs \<noteq> [] \<and> hd cs = CHR ''>'' then Sym CHR ''>'' # tokens (tl cs)
          else if c \<in> set symbols then Sym c # tokens cs
          else Word (c # takeWhile word_char cs) # tokens (dropWhile word_char cs))"
  by pat_completeness auto

lemma dropWhile_shorter: "dropWhile P xs = c # cs \<Longrightarrow> length cs < length xs"
  by (metis Suc_le_eq length_Cons length_dropWhile_le)

termination tokens
  by (relation "measure length")
    (auto dest!: dropWhile_shorter intro: le_less_trans [OF length_dropWhile_le] le_less_trans [OF diff_le_self])

declare tokens.simps [simp del]

text \<open>A line in the buffer, and what is left of it at a position.\<close>

definition line :: "char list \<Rightarrow> nat \<Rightarrow> bool" where
  "line buf es \<longleftrightarrow> es < length buf \<and> buf ! es = NUL \<and> NUL \<notin> set (take es buf)"

definition rest :: "char list \<Rightarrow> nat \<Rightarrow> nat \<Rightarrow> string" where
  "rest buf es s = take (es - s) (drop s buf)"

definition toks :: "char list \<Rightarrow> nat \<Rightarrow> nat \<Rightarrow> token list" where
  "toks buf es s = tokens (rest buf es s)"

text \<open>The token between two positions is a word.\<close>

definition is_word :: "char list \<Rightarrow> nat \<Rightarrow> span \<Rightarrow> string \<Rightarrow> bool" where
  "is_word buf es = (\<lambda>(q, e) w. q < e \<and> e \<le> es \<and> take (e - q) (drop q buf) = w \<and> (\<forall>c \<in> set w. word_char c)
     \<and> (e < es \<longrightarrow> \<not> word_char (buf ! e)))"

lemma rest_Cons: "line buf es \<Longrightarrow> s < es \<Longrightarrow> rest buf es s = char_at buf s # rest buf es (Suc s)"
  by (simp add: rest_def line_def char_at_def Cons_nth_drop_Suc [symmetric] take_Cons' Suc_diff_Suc [symmetric] del: Cons_nth_drop_Suc)

lemma rest_end: "rest buf es es = []"
  by (simp add: rest_def)

lemma char_at_NUL: "line buf es \<Longrightarrow> s \<le> es \<Longrightarrow> char_at buf s = NUL \<longleftrightarrow> s = es"
  by (cases "s = es") (auto simp: line_def char_at_def in_set_conv_nth)

lemma skip_space_rest:
  "line buf es \<Longrightarrow> s \<le> es \<Longrightarrow> rest buf es (skip_space buf es s) = dropWhile (\<lambda>c. c \<in> set whitespace) (rest buf es s) \<and> skip_space buf es s \<le> es"
proof (induction buf es s rule: skip_space.induct)
  case (1 buf es s)
  show ?case
  proof (cases "s < es")
    case True
    then show ?thesis using 1 by (cases "char_at buf s \<in> set whitespace") (simp_all add: skip_space.simps [of buf es s] rest_Cons)
  next
    case False
    then show ?thesis using 1 by (simp add: skip_space_stop rest_end)
  qed
qed

lemma word_end_rest:
  "line buf es \<Longrightarrow> s \<le> es \<Longrightarrow> rest buf es (word_end buf es s) = dropWhile word_char (rest buf es s)
    \<and> take (word_end buf es s - s) (drop s buf) = takeWhile word_char (rest buf es s)
    \<and> word_end buf es s \<le> es \<and> (word_end buf es s < es \<longrightarrow> \<not> word_char (char_at buf (word_end buf es s)))"
proof (induction buf es s rule: word_end.induct)
  case (1 buf es s)
  show ?case
  proof (cases "s < es \<and> word_char (char_at buf s)")
    case True
    have w: "word_end buf es s = word_end buf es (Suc s)" using True by (subst word_end.simps) (simp add: word_char_def)
    have "s < word_end buf es (Suc s)" using word_end_ge [of "Suc s" buf es] by simp
    moreover have "drop s buf = char_at buf s # drop (Suc s) buf" using True 1(2) by (simp add: char_at_def line_def Cons_nth_drop_Suc)
    ultimately have "take (word_end buf es (Suc s) - s) (drop s buf) = char_at buf s # take (word_end buf es (Suc s) - Suc s) (drop (Suc s) buf)"
      by (simp add: take_Cons' Suc_diff_Suc [symmetric])
    then show ?thesis using 1 True unfolding w by (simp add: word_char_def rest_Cons)
  next
    case False
    then have "word_end buf es s = s" by (subst word_end.simps) (auto simp: word_char_def)
    then show ?thesis using 1(2,3) False by (cases "s = es") (auto simp: rest_end rest_Cons)
  qed
qed

lemma peek_spec:
  assumes l: "line buf es" and s: "s \<le> es" and tk: "set tk \<subseteq> set symbols"
  obtains s1 where "peek buf es tk s = ((\<exists>c ts. toks buf es s = Sym c # ts \<and> c \<in> set tk), s1)" "s \<le> s1" "s1 \<le> es"
    "toks buf es s1 = toks buf es s"
proof -
  let ?q = "skip_space buf es s"
  note q = skip_space_rest [OF l s]
  have same: "toks buf es ?q = toks buf es s" using q by (simp add: toks_def tokens.simps [of "rest buf es s"] tokens.simps [of "dropWhile _ _"])
  have "(char_at buf ?q \<noteq> NUL \<and> char_at buf ?q \<in> set tk) = (\<exists>c ts. toks buf es s = Sym c # ts \<and> c \<in> set tk)"
  proof (cases "?q = es")
    case True
    then show ?thesis using q char_at_NUL [OF l, of es] by (simp add: toks_def tokens.simps [of "rest buf es s"] rest_end)
  next
    case False
    then have lt: "?q < es" using q by simp
    then have r: "dropWhile (\<lambda>c. c \<in> set whitespace) (rest buf es s) = char_at buf ?q # rest buf es (Suc ?q)" using q rest_Cons [OF l lt] by simp
    have "char_at buf ?q \<noteq> NUL" using char_at_NUL [OF l, of ?q] q False by simp
    then show ?thesis using tk by (auto simp: toks_def tokens.simps [of "rest buf es s"] r)
  qed
  then show thesis using that [of ?q] q skip_space_ge [of s buf es] same by (simp add: peek_def Let_def)
qed

lemma tokens_Sym: "Sym c \<in> set (tokens xs) \<Longrightarrow> c \<in> set symbols"
proof (induction xs rule: tokens.induct)
  case (1 xs)
  show ?case
  proof (cases "dropWhile (\<lambda>c. c \<in> set whitespace) xs")
    case Nil
    then have "tokens xs = []" by (subst tokens.simps) (simp only: list.case)
    then show ?thesis using 1(4) by simp
  next
    case (Cons d ds)
    have T: "tokens xs = (if d = CHR ''>'' \<and> ds \<noteq> [] \<and> hd ds = CHR ''>'' then Sym CHR ''>'' # tokens (tl ds)
        else if d \<in> set symbols then Sym d # tokens ds else Word (d # takeWhile word_char ds) # tokens (dropWhile word_char ds))"
      by (subst tokens.simps) (simp only: Cons list.case)
    have gt: "CHR ''>'' \<in> set symbols" by (simp add: symbols_def)
    show ?thesis using 1(1) [OF Cons] 1(2) [OF Cons] 1(3) [OF Cons] 1(4) gt unfolding T by (auto split: if_splits)
  qed
qed

text \<open>\<open>gettoken\<close> takes the first token; at the end of the line it returns zero.\<close>

lemma gettoken_end:
  assumes l: "line buf es" and s: "s \<le> es" and t: "toks buf es s = []"
  shows "fst (gettoken buf es s) = NUL \<and> skip_token buf es s = es"
proof -
  let ?q = "skip_space buf es s"
  note q = skip_space_rest [OF l s]
  have "?q = es" using t q rest_Cons [OF l, of ?q] by (cases "?q < es") (auto simp: toks_def tokens.simps [of "rest buf es s"] split: if_splits list.splits)
  then show ?thesis using char_at_NUL [OF l, of es] skip_space_idem [of buf es s] by (simp add: gettoken_def Let_def)
qed

definition tok_char :: "token \<Rightarrow> char set" where
  "tok_char t = (case t of Sym c \<Rightarrow> if c = CHR ''>'' then {c, CHR ''+''} else {c} | Word w \<Rightarrow> {CHR ''a''})"

lemma gettoken_spec:
  assumes l: "line buf es" and s: "s \<le> es" and t: "toks buf es s = t # ts"
  obtains ret q e s1 where "gettoken buf es s = (ret, (q, e), s1)" "ret \<in> tok_char t" "\<And>w. t = Word w \<Longrightarrow> is_word buf es (q, e) w"
    "s < s1" "s1 \<le> es" "toks buf es s1 = ts"
proof -
  let ?q = "skip_space buf es s"
  note q = skip_space_rest [OF l s]
  have lt: "?q < es" using t q by (cases "?q = es") (auto simp: toks_def tokens.simps [of "rest buf es s"] rest_end)
  have r: "rest buf es ?q = char_at buf ?q # rest buf es (Suc ?q)" by (rule rest_Cons [OF l lt])
  have nn: "char_at buf ?q \<noteq> NUL" using char_at_NUL [OF l, of ?q] lt by simp
  have after: "skip_space buf es e \<le> es \<and> toks buf es (skip_space buf es e) = tokens (rest buf es e)" if "e \<le> es" for e
    using skip_space_rest [OF l that] by (simp add: toks_def tokens.simps [of "rest buf es e"] tokens.simps [of "dropWhile _ _"])
  have dq: "dropWhile (\<lambda>c. c \<in> set whitespace) (rest buf es s) = char_at buf ?q # rest buf es (Suc ?q)" using q r by simp
  have T: "t # ts = (if char_at buf ?q = CHR ''>'' \<and> rest buf es (Suc ?q) \<noteq> [] \<and> hd (rest buf es (Suc ?q)) = CHR ''>'' then Sym CHR ''>'' # tokens (tl (rest buf es (Suc ?q)))
          else if char_at buf ?q \<in> set symbols then Sym (char_at buf ?q) # tokens (rest buf es (Suc ?q))
          else Word (char_at buf ?q # takeWhile word_char (rest buf es (Suc ?q))) # tokens (dropWhile word_char (rest buf es (Suc ?q))))"
    using t by (simp add: toks_def tokens.simps [of "rest buf es s"] dq)
  have sq: "s \<le> ?q" by (rule skip_space_ge)
  consider (out) "char_at buf ?q = CHR ''>''" "char_at buf (?q + 1) = CHR ''>''"
    | (sym) "char_at buf ?q \<in> set symbols" "\<not> (char_at buf ?q = CHR ''>'' \<and> char_at buf (?q + 1) = CHR ''>'')"
    | (word) "char_at buf ?q \<notin> set symbols" by blast
  then show thesis
  proof cases
    case out
    have lt2: "Suc ?q < es" using out(2) char_at_NUL [OF l, of "Suc ?q"] lt by (cases "Suc ?q = es") auto
    then have "t = Sym CHR ''>''" "ts = tokens (rest buf es (?q + 2))" using T out rest_Cons [OF l lt2] by simp_all
    moreover have "gettoken buf es s = (CHR ''+'', (?q, ?q + 2), skip_space buf es (?q + 2))" using out by (simp add: gettoken_def Let_def)
    ultimately show thesis using that [of "CHR ''+''" ?q "?q + 2"] after [of "?q + 2"] lt2 sq skip_space_ge [of "?q + 2" buf es] by (auto simp: tok_char_def)
  next
    case sym
    have "hd (rest buf es (Suc ?q)) \<noteq> CHR ''>''" if "char_at buf ?q = CHR ''>''" "rest buf es (Suc ?q) \<noteq> []"
    proof -
      have "Suc ?q < es" using that(2) lt by (cases "Suc ?q = es") (auto simp: rest_end)
      then show ?thesis using sym(2) that(1) rest_Cons [OF l, of "Suc ?q"] by auto
    qed
    then have "t = Sym (char_at buf ?q)" "ts = tokens (rest buf es (?q + 1))" using T sym(1) by (auto split: if_splits)
    moreover have "gettoken buf es s = (char_at buf ?q, (?q, ?q + 1), skip_space buf es (?q + 1))"
      using sym by (auto simp: gettoken_def Let_def symbols_def)
    ultimately show thesis using that [of "char_at buf ?q" ?q "?q + 1"] after [of "?q + 1"] lt sq skip_space_ge [of "?q + 1" buf es] by (auto simp: tok_char_def)
  next
    case word
    let ?e = "word_end buf es ?q"
    note w = word_end_rest [OF l less_imp_le [OF lt]]
    have "char_at buf ?q \<notin> set whitespace" using skip_space_end [of buf es s] lt by auto
    then have wc: "word_char (char_at buf ?q)" using word by (simp add: word_char_def)
    then have e: "Suc ?q \<le> ?e" using lt word_end.simps [of buf es ?q] word_end_ge [of "Suc ?q" buf es] by (simp add: word_char_def)
    have ts: "t = Word (takeWhile word_char (rest buf es ?q))" "ts = tokens (rest buf es ?e)" using T word wc r w by (auto simp: symbols_def)
    moreover have "gettoken buf es s = (CHR ''a'', (?q, ?e), skip_space buf es ?e)" using word nn by (auto simp: gettoken_def Let_def symbols_def)
    moreover have "is_word buf es (?q, ?e) (takeWhile word_char (rest buf es ?q))"
      using w e l by (auto simp: is_word_def char_at_def line_def dest: set_takeWhileD)
    ultimately show thesis using that [of "CHR ''a''" ?q ?e] after [of ?e] e w sq skip_space_ge [of ?e buf es] by (auto simp: tok_char_def)
  qed
qed

lemma gettoken_word:
  assumes l: "line buf es" and s: "s \<le> es" and t: "toks buf es s = us" and g: "fst (gettoken buf es s) = CHR ''a''"
  obtains w ts q e s1 where "us = Word w # ts" "gettoken buf es s = (CHR ''a'', (q, e), s1)" "is_word buf es (q, e) w" "s < s1" "s1 \<le> es" "toks buf es s1 = ts"
proof (cases us)
  case Nil
  then show thesis using gettoken_end [OF l s] t g by simp
next
  case (Cons v vs)
  obtain ret q e s1 where h: "gettoken buf es s = (ret, (q, e), s1)" "ret \<in> tok_char v" "\<And>w. v = Word w \<Longrightarrow> is_word buf es (q, e) w"
    "s < s1" "s1 \<le> es" "toks buf es s1 = vs"
    by (rule gettoken_spec [OF l s t [unfolded Cons]]) blast
  have "\<exists>w. v = Word w" using h(1,2) g tokens_Sym [of _ "rest buf es s"] t Cons by (auto simp: toks_def tok_char_def symbols_def split: token.splits if_splits)
  then show thesis using that h Cons g by auto
qed

end
