(* ===== verification/User_Sh_Grammar.thy ===== *)
theory User_Sh_Grammar
  imports User_Sh
begin

text \<open>
  The grammar of the shell and the proof that the parser of \<open>User_Sh\<close> decides it: what it returns is spelled by the tokens of the line
  (soundness), every spelling is parsed (completeness), and the strings are cut out of the line correctly.
\<close>

section \<open>The grammar\<close>

text \<open>A redirection is the name of the file, the mode and the descriptor.\<close>

type_synonym redir = "string \<times> u32 \<times> int"

definition redir_ok :: "redir \<Rightarrow> bool" where
  "redir_ok = (\<lambda>(f, m, fd). m = O_RDONLY \<and> fd = 0 \<or> m = (O_WRONLY OR O_CREATE) \<and> fd = 1)"

definition redir_toks :: "redir \<Rightarrow> token list" where
  "redir_toks = (\<lambda>(f, m, fd). [Sym (if fd = 0 then CHR ''<'' else CHR ''>''), Word f])"

definition wraps :: "redir list \<Rightarrow> string cmd \<Rightarrow> string cmd" where
  "wraps rs c = foldl (\<lambda>c (f, m, fd). REDIR c f m fd) c rs"

text \<open>The parts of a simple command: words and redirections in any order.\<close>

definition item_toks :: "string + redir \<Rightarrow> token list" where
  "item_toks it = (case it of Inl w \<Rightarrow> [Word w] | Inr r \<Rightarrow> redir_toks r)"

definition item_words :: "(string + redir) list \<Rightarrow> string list" where
  "item_words its = map projl (filter isl its)"

definition item_redirs :: "(string + redir) list \<Rightarrow> redir list" where
  "item_redirs its = map projr (filter (\<lambda>it. \<not> isl it) its)"

text \<open>
  The tokens that spell a command: a simple command or a block (level 3), a pipeline (2), a pipeline with \<open>&\<close> after it (1), and a list (0).
\<close>

inductive spells :: "nat \<Rightarrow> token list \<Rightarrow> string cmd \<Rightarrow> bool" where
  exec_simple: "list_all redir_ok (item_redirs its) \<Longrightarrow> length (item_words its) < MAXARGS \<Longrightarrow>
    spells 3 (concat (map item_toks its)) (wraps (item_redirs its) (EXEC (item_words its)))"
| exec_block: "spells 0 ts c \<Longrightarrow> list_all redir_ok rs \<Longrightarrow>
    spells 3 (Sym CHR ''('' # ts @ Sym CHR '')'' # concat (map redir_toks rs)) (wraps rs c)"
| pipe_last: "spells 3 ts c \<Longrightarrow> spells 2 ts c"
| pipe_more: "spells 3 ts a \<Longrightarrow> spells 2 us b \<Longrightarrow> spells 2 (ts @ Sym CHR ''|'' # us) (PIPE a b)"
| line_back: "spells 2 ts c \<Longrightarrow> spells 1 (ts @ replicate k (Sym CHR ''&'')) ((BACK ^^ k) c)"
| line_one: "spells 1 ts c \<Longrightarrow> spells 0 ts c"
| line_seq: "spells 1 ts a \<Longrightarrow> spells 0 us b \<Longrightarrow> spells 0 (ts @ Sym CHR '';'' # us) (LIST a b)"

definition starts :: "string \<Rightarrow> token list \<Rightarrow> bool" where
  "starts tk ts \<longleftrightarrow> (\<exists>c us. ts = Sym c # us \<and> c \<in> set tk)"

lemma starts_simps [simp]: "\<not> starts tk []" "starts tk (Sym c # ts) \<longleftrightarrow> c \<in> set tk" "\<not> starts tk (Word w # ts)"
  by (auto simp: starts_def)

text \<open>What may follow a part of each level.\<close>

definition follows :: "string \<Rightarrow> token list \<Rightarrow> bool" where
  "follows tk ts \<longleftrightarrow> ts = [] \<or> starts tk ts"

abbreviation means :: "char list \<Rightarrow> nat \<Rightarrow> span cmd \<Rightarrow> string cmd \<Rightarrow> bool" where
  "means buf es \<equiv> rel_cmd (is_word buf es)"

lemma peek_cases:
  assumes "line buf es" "s \<le> es" "set tk \<subseteq> set symbols"
  obtains s1 where "peek buf es tk s = (starts tk (toks buf es s), s1)" "s \<le> s1" "s1 \<le> es" "toks buf es s1 = toks buf es s"
  using peek_spec [OF assms] unfolding starts_def by blast

section \<open>Redirections\<close>

lemma wraps_simps [simp]: "wraps [] c = c" "wraps ((f, m, fd) # rs) c = wraps rs (REDIR c f m fd)"
  by (simp_all add: wraps_def)

lemma wraps_append: "wraps (rs @ ss) c = wraps ss (wraps rs c)"
  by (simp add: wraps_def)

lemma parseredirs_complete:
  assumes "line buf es" "s \<le> es" "toks buf es s = concat (map redir_toks rs) @ us" "\<not> starts ''<>'' us" "list_all redir_ok rs" "means buf es cmd c"
  shows "\<exists>cmd' s'. parseredirs buf es cmd s = Some (cmd', s') \<and> means buf es cmd' (wraps rs c) \<and> toks buf es s' = us \<and> s \<le> s' \<and> s' \<le> es"
  using assms
proof (induction rs arbitrary: cmd c s)
  case Nil
  obtain s1 where "peek buf es ''<>'' s = (starts ''<>'' (toks buf es s), s1)" "s \<le> s1" "s1 \<le> es" "toks buf es s1 = toks buf es s"
    by (rule peek_cases [OF Nil(1,2)]) (auto simp: symbols_def)
  then show ?case using Nil by (subst parseredirs.simps) simp
next
  case (Cons r rs)
  obtain f m fd where r: "r = (f, m, fd)" by (cases r)
  let ?d = "if fd = 0 then CHR ''<'' else CHR ''>''" and ?us = "concat (map redir_toks rs) @ us"
  have ok: "m = O_RDONLY \<and> fd = 0 \<or> m = (O_WRONLY OR O_CREATE) \<and> fd = 1" using Cons.prems(5) by (simp add: r redir_ok_def)
  have t: "toks buf es s = Sym ?d # Word f # ?us" using Cons.prems(3) by (simp add: r redir_toks_def)
  obtain s1 where p: "peek buf es ''<>'' s = (starts ''<>'' (toks buf es s), s1)" "s \<le> s1" "s1 \<le> es" "toks buf es s1 = toks buf es s"
    by (rule peek_cases [OF Cons.prems(1,2)]) (auto simp: symbols_def)
  obtain ret q e s2 where g: "gettoken buf es s1 = (ret, (q, e), s2)" "ret \<in> tok_char (Sym ?d)" "s1 < s2" "s2 \<le> es" "toks buf es s2 = Word f # ?us"
    by (rule gettoken_spec [OF Cons.prems(1) p(3) p(4) [unfolded t]])
  obtain ret' q' e' s3 where h: "gettoken buf es s2 = (ret', (q', e'), s3)" "ret' \<in> tok_char (Word f)" "is_word buf es (q', e') f" "s2 < s3" "s3 \<le> es" "toks buf es s3 = ?us"
    by (rule gettoken_spec [OF Cons.prems(1) g(4,5)]) simp
  have step: "parseredirs buf es cmd s = parseredirs buf es (REDIR cmd (q', e') m fd) s3"
    using p(1) t g(1,2) h(1,2) ok by (subst parseredirs.simps) (auto simp: tok_char_def split: if_splits)
  have mm: "means buf es (REDIR cmd (q', e') m fd) (REDIR c f m fd)" using Cons.prems(6) h(3) by simp
  obtain cmd' s' where "parseredirs buf es (REDIR cmd (q', e') m fd) s3 = Some (cmd', s')" "means buf es cmd' (wraps rs (REDIR c f m fd))"
    "toks buf es s' = us" "s3 \<le> s'" "s' \<le> es"
    using Cons.IH [OF Cons.prems(1) h(5,6) Cons.prems(4) _ mm] Cons.prems(5) by auto
  then show ?case using step p(2) g(3) h(4) by (auto simp: r)
qed

lemma parseredirs_sound:
  assumes "line buf es" "s \<le> es" "means buf es cmd c" "parseredirs buf es cmd s = Some (cmd', s')"
  shows "\<exists>rs. toks buf es s = concat (map redir_toks rs) @ toks buf es s' \<and> list_all redir_ok rs \<and> means buf es cmd' (wraps rs c)
    \<and> s \<le> s' \<and> s' \<le> es \<and> \<not> starts ''<>'' (toks buf es s')"
  using assms
proof (induction "es - s" arbitrary: cmd c s rule: less_induct)
  case less
  note l = less.prems(1)
  obtain s1 where p: "peek buf es ''<>'' s = (starts ''<>'' (toks buf es s), s1)" "s \<le> s1" "s1 \<le> es" "toks buf es s1 = toks buf es s"
    by (rule peek_cases [OF l less.prems(2)]) (auto simp: symbols_def)
  show ?case
  proof (cases "starts ''<>'' (toks buf es s)")
    case False
    then have "cmd' = cmd" "s' = s1" using less.prems(4) p(1) by (simp_all add: parseredirs.simps [of buf es cmd s])
    then show ?thesis using p less.prems(3) False by (intro exI [of _ "[]"]) simp
  next
    case True
    then obtain d us where t: "toks buf es s = Sym d # us" "d = CHR ''<'' \<or> d = CHR ''>''" by (auto simp: starts_def)
    obtain ret q e s2 where g: "gettoken buf es s1 = (ret, (q, e), s2)" "ret \<in> tok_char (Sym d)" "s1 < s2" "s2 \<le> es" "toks buf es s2 = us"
      by (rule gettoken_spec [OF l p(3) p(4) [unfolded t(1)]])
    have "fst (gettoken buf es s2) = CHR ''a''" using less.prems(4) p(1) True g(1)
      by (auto simp: parseredirs.simps [of buf es cmd s] split: if_splits prod.splits)
    then obtain f vs q' e' s3 where h: "us = Word f # vs" "gettoken buf es s2 = (CHR ''a'', (q', e'), s3)" "is_word buf es (q', e') f" "s2 < s3" "s3 \<le> es" "toks buf es s3 = vs"
      by (rule gettoken_word [OF l g(4,5)])
    define m fd where "m = (if d = CHR ''<'' then O_RDONLY else O_WRONLY OR O_CREATE)" and "fd = (if d = CHR ''<'' then 0 else 1 :: int)"
    have "parseredirs buf es cmd s = parseredirs buf es (REDIR cmd (q', e') m fd) s3"
      using p(1) True g(1,2) h(2) t(2) by (subst parseredirs.simps) (auto simp: tok_char_def m_def fd_def)
    then have run: "parseredirs buf es (REDIR cmd (q', e') m fd) s3 = Some (cmd', s')" using less.prems(4) by simp
    have mm: "means buf es (REDIR cmd (q', e') m fd) (REDIR c f m fd)" using less.prems(3) h(3) by simp
    have "es - s3 < es - s" using h(4,5) g(3) p(2) by simp
    from less.hyps [OF this l h(5) mm run] obtain rs where rs: "toks buf es s3 = concat (map redir_toks rs) @ toks buf es s'" "list_all redir_ok rs"
      "means buf es cmd' (wraps rs (REDIR c f m fd))" "s3 \<le> s'" "s' \<le> es" "\<not> starts ''<>'' (toks buf es s')" by blast
    then show ?thesis using t h p(2) g(3) by (intro exI [of _ "(f, m, fd) # rs"]) (auto simp: redir_toks_def redir_ok_def m_def fd_def)
  qed
qed

section \<open>Simple commands\<close>

lemma item_simps [simp]:
  "item_words [] = []" "item_redirs [] = []" "item_words (Inl w # its) = w # item_words its" "item_redirs (Inl w # its) = item_redirs its"
  "item_words (its @ its') = item_words its @ item_words its'" "item_redirs (its @ its') = item_redirs its @ item_redirs its'"
  "item_words (map Inr rs) = []" "item_redirs (map Inr rs) = rs" "item_toks (Inl w) = [Word w]" "item_toks (Inr r) = redir_toks r"
  "concat (map item_toks (map Inr rs)) = concat (map redir_toks rs)" "concat (map (item_toks \<circ> Inr) rs) = concat (map redir_toks rs)"
  by (simp_all add: item_words_def item_redirs_def item_toks_def filter_map o_def)

lemma split_items: "\<exists>rs its'. its = map Inr rs @ its' \<and> (its' = [] \<or> (\<exists>w ws. its' = Inl w # ws))"
proof (induction its)
  case Nil
  then show ?case by simp
next
  case (Cons it its)
  then obtain rs its' where IH: "its = map Inr rs @ its'" "its' = [] \<or> (\<exists>w ws. its' = Inl w # ws)" by blast
  show ?case
  proof (cases it)
    case (Inl w)
    then show ?thesis by (intro exI [of _ "[]"] exI [of _ "it # its"]) simp
  next
    case (Inr r)
    then show ?thesis using IH by (intro exI [of _ "r # rs"] exI [of _ its']) simp
  qed
qed

lemma add_arg_rel: "rel_cmd R c d \<Longrightarrow> R a b \<Longrightarrow> rel_cmd R (add_arg a c) (add_arg b d)"
proof (induction c arbitrary: d)
  case (EXEC args)
  then show ?case by (cases d) (auto intro: list_all2_appendI)
next
  case (REDIR c f m fd)
  then show ?case by (cases d) auto
next
  case (PIPE l r)
  then show ?case by (cases d) auto
next
  case (LIST l r)
  then show ?case by (cases d) auto
next
  case (BACK c)
  then show ?case by (cases d) auto
qed

lemma add_arg_wraps: "add_arg w (wraps rs (EXEC ws)) = wraps rs (EXEC (ws @ [w]))"
  by (induction rs rule: rev_induct) (auto simp: wraps_append)

lemma add_arg_means:
  "means buf es ret (wraps rs (EXEC ws)) \<Longrightarrow> is_word buf es a w \<Longrightarrow> means buf es (add_arg a ret) (wraps rs (EXEC (ws @ [w])))"
  using add_arg_rel [of "is_word buf es" ret "wraps rs (EXEC ws)" a w] by (simp add: add_arg_wraps)

lemma parseexec_loop_complete:
  assumes "line buf es" "s \<le> es" "toks buf es s = concat (map item_toks its) @ us" "its = [] \<or> (\<exists>w ws. its = Inl w # ws)" "follows ''|)&;'' us"
    "list_all redir_ok (item_redirs its)" "length ws + length (item_words its) < MAXARGS" "means buf es ret (wraps rs (EXEC ws))"
  shows "\<exists>cmd' s'. parseexec_loop buf es (length ws) ret s = Some (cmd', s') \<and> means buf es cmd' (wraps (rs @ item_redirs its) (EXEC (ws @ item_words its)))
    \<and> toks buf es s' = us \<and> s \<le> s' \<and> s' \<le> es"
  using assms
proof (induction "length its" arbitrary: its s ret ws rs rule: less_induct)
  case less
  note l = less.prems(1)
  obtain s1 where p: "peek buf es ''|)&;'' s = (starts ''|)&;'' (toks buf es s), s1)" "s \<le> s1" "s1 \<le> es" "toks buf es s1 = toks buf es s"
    by (rule peek_cases [OF l less.prems(2)]) (auto simp: symbols_def)
  show ?case
  proof (cases its)
    case Nil
    show ?thesis
    proof (cases "us = []")
      case True
      then have "fst (gettoken buf es s1) = NUL \<and> skip_token buf es s1 = es" using gettoken_end [OF l p(3)] p(4) less.prems(3) Nil by simp
      then have "parseexec_loop buf es (length ws) ret s = Some (ret, es)"
        using p(1) less.prems(3) Nil True by (subst parseexec_loop.simps) (auto split: prod.splits)
      then show ?thesis using less.prems(2,8) Nil True by (simp add: toks_def rest_end tokens.simps)
    next
      case False
      then have "parseexec_loop buf es (length ws) ret s = Some (ret, s1)"
        using p(1) less.prems(3,5) Nil by (subst parseexec_loop.simps) (auto simp: follows_def)
      then show ?thesis using p less.prems(3,8) Nil by simp
    qed
  next
    case (Cons it its1)
    then obtain w where it: "its = Inl w # its1" using less.prems(4) by auto
    obtain rs1 its2 where sp: "its1 = map Inr rs1 @ its2" "its2 = [] \<or> (\<exists>w ws. its2 = Inl w # ws)" using split_items by blast
    let ?us = "concat (map item_toks its2) @ us"
    have t: "toks buf es s1 = Word w # concat (map redir_toks rs1) @ ?us" using p(4) less.prems(3) by (simp add: it sp(1))
    obtain ret0 q e s2 where g: "gettoken buf es s1 = (ret0, (q, e), s2)" "ret0 \<in> tok_char (Word w)" "is_word buf es (q, e) w" "s1 < s2" "s2 \<le> es"
      "toks buf es s2 = concat (map redir_toks rs1) @ ?us"
      by (rule gettoken_spec [OF l p(3) t]) simp
    have ns: "\<not> starts ''<>'' ?us" using sp(2) less.prems(5) by (auto simp: follows_def starts_def)
    have ok: "list_all redir_ok rs1" "list_all redir_ok (item_redirs its2)" using less.prems(6) by (simp_all add: it sp(1))
    note mm = add_arg_means [OF less.prems(8) g(3)]
    obtain c3 s3 where r: "parseredirs buf es (add_arg (q, e) ret) s2 = Some (c3, s3)" "means buf es c3 (wraps rs1 (wraps rs (EXEC (ws @ [w]))))"
      "toks buf es s3 = ?us" "s2 \<le> s3" "s3 \<le> es"
      using parseredirs_complete [OF l g(5,6) ns ok(1) mm] by blast
    have lens: "length its2 < length its" "length (ws @ [w]) + length (item_words its2) < MAXARGS" using less.prems(7) by (simp_all add: it sp(1))
    have m3: "means buf es c3 (wraps (rs @ rs1) (EXEC (ws @ [w])))" using r(2) by (simp add: wraps_append)
    obtain c4 s4 where z: "parseexec_loop buf es (length (ws @ [w])) c3 s3 = Some (c4, s4)"
      "means buf es c4 (wraps ((rs @ rs1) @ item_redirs its2) (EXEC ((ws @ [w]) @ item_words its2)))" "toks buf es s4 = us" "s3 \<le> s4" "s4 \<le> es"
      using less.hyps [OF lens(1) l r(5,3) sp(2) less.prems(5) ok(2) lens(2) m3] by blast
    have "parseexec_loop buf es (length ws) ret s = parseexec_loop buf es (length (ws @ [w])) c3 s3"
      using p(1) g(1,2) r(1) less.prems(3,7) by (subst parseexec_loop.simps) (auto simp: it tok_char_def)
    then show ?thesis using z p(2) g(4) r(4) by (simp add: it sp(1))
  qed
qed

lemma parseexec_loop_sound:
  assumes "line buf es" "s \<le> es" "length ws < MAXARGS" "means buf es ret (wraps rs (EXEC ws))" "parseexec_loop buf es (length ws) ret s = Some (cmd', s')"
  shows "\<exists>its. toks buf es s = concat (map item_toks its) @ toks buf es s' \<and> list_all redir_ok (item_redirs its) \<and> length (ws @ item_words its) < MAXARGS
    \<and> means buf es cmd' (wraps (rs @ item_redirs its) (EXEC (ws @ item_words its))) \<and> s \<le> s' \<and> s' \<le> es"
  using assms
proof (induction "MAXARGS - length ws" arbitrary: s ret ws rs rule: less_induct)
  case less
  note l = less.prems(1)
  obtain s1 where p: "peek buf es ''|)&;'' s = (starts ''|)&;'' (toks buf es s), s1)" "s \<le> s1" "s1 \<le> es" "toks buf es s1 = toks buf es s"
    by (rule peek_cases [OF l less.prems(2)]) (auto simp: symbols_def)
  obtain tok a s2 where g: "gettoken buf es s1 = (tok, a, s2)" by (cases "gettoken buf es s1")
  have run: "parseexec_loop buf es (length ws) ret s = (if starts ''|)&;'' (toks buf es s) then Some (ret, s1) else if tok = NUL then Some (ret, s2)
     else if tok \<noteq> CHR ''a'' then None else if length ws + 1 \<ge> MAXARGS then None
     else case parseredirs buf es (add_arg a ret) s2 of None \<Rightarrow> None | Some (ret, s) \<Rightarrow> parseexec_loop buf es (length ws + 1) ret s)"
    using p(1) g by (subst parseexec_loop.simps) (simp add: panic_def)
  consider (stop) "starts ''|)&;'' (toks buf es s)" | (ends) "\<not> starts ''|)&;'' (toks buf es s)" "tok = NUL" | (word) "\<not> starts ''|)&;'' (toks buf es s)" "tok = CHR ''a''"
    using less.prems(5) run by (auto split: if_splits)
  then show ?case
  proof cases
    case stop
    then show ?thesis using run less.prems p by (intro exI [of _ "[]"]) simp
  next
    case ends
    have "toks buf es s = []"
    proof (rule ccontr)
      assume "toks buf es s \<noteq> []"
      then obtain t ts where t: "toks buf es s = t # ts" by (cases "toks buf es s") auto
      have "NUL \<notin> tok_char t" using t tokens_Sym [of NUL "rest buf es s"] by (auto simp: toks_def tok_char_def symbols_def split: token.splits if_splits)
      moreover obtain ret q e s3 where "gettoken buf es s1 = (ret, (q, e), s3)" "ret \<in> tok_char t"
        by (rule gettoken_spec [OF l p(3) p(4) [unfolded t]])
      ultimately show False using g ends(2) by simp
    qed
    moreover have "s2 = es" using gettoken_end [OF l p(3)] p(4) calculation g by simp
    ultimately show ?thesis using run ends less.prems p by (intro exI [of _ "[]"]) (simp add: toks_def rest_end tokens.simps)
  next
    case word
    have fa: "fst (gettoken buf es s1) = CHR ''a''" using g word(2) by simp
    obtain w ts q e s3 where h: "toks buf es s = Word w # ts" "gettoken buf es s1 = (CHR ''a'', (q, e), s3)" "is_word buf es (q, e) w" "s1 < s3" "s3 \<le> es" "toks buf es s3 = ts"
      by (rule gettoken_word [OF l p(3,4) fa])
    have a: "a = (q, e)" "s2 = s3" using g h(2) by simp_all
    note mm = add_arg_means [OF less.prems(4) h(3)]
    have n: "length (ws @ [w]) < MAXARGS" using run less.prems(5) word by (auto split: if_splits)
    obtain c4 s4 where r: "parseredirs buf es (add_arg (q, e) ret) s3 = Some (c4, s4)" "parseexec_loop buf es (length (ws @ [w])) c4 s4 = Some (cmd', s')"
      using run less.prems(5) word n a by (auto split: if_splits option.splits)
    obtain rs1 where x: "toks buf es s3 = concat (map redir_toks rs1) @ toks buf es s4" "list_all redir_ok rs1" "means buf es c4 (wraps rs1 (wraps rs (EXEC (ws @ [w]))))" "s3 \<le> s4" "s4 \<le> es"
      using parseredirs_sound [OF l h(5) mm r(1)] by blast
    have m4: "means buf es c4 (wraps (rs @ rs1) (EXEC (ws @ [w])))" using x(3) by (simp add: wraps_append)
    have lt: "MAXARGS - length (ws @ [w]) < MAXARGS - length ws" using n by simp
    obtain its where y: "toks buf es s4 = concat (map item_toks its) @ toks buf es s'" "list_all redir_ok (item_redirs its)" "length ((ws @ [w]) @ item_words its) < MAXARGS"
      "means buf es cmd' (wraps ((rs @ rs1) @ item_redirs its) (EXEC ((ws @ [w]) @ item_words its)))" "s4 \<le> s'" "s' \<le> es"
      using less.hyps [OF lt l x(5) n m4 r(2)] by blast
    show ?thesis using h x y p(2) by (intro exI [of _ "Inl w # map Inr rs1 @ its"]) simp
  qed
qed

section \<open>The parser and the grammar\<close>

lemma peek_yes:
  assumes "line buf es" "s \<le> es" "toks buf es s = Sym d # ts" "d \<in> set tk" "set tk \<subseteq> set symbols"
  obtains s1 where "peek buf es tk s = (True, s1)" "s \<le> s1" "s1 \<le> es" "toks buf es s1 = Sym d # ts"
    "s < skip_token buf es s1" "skip_token buf es s1 \<le> es" "toks buf es (skip_token buf es s1) = ts"
proof -
  obtain s1 where p: "peek buf es tk s = (starts tk (toks buf es s), s1)" "s \<le> s1" "s1 \<le> es" "toks buf es s1 = toks buf es s"
    by (rule peek_cases [OF assms(1,2,5)])
  obtain ret q e s2 where "gettoken buf es s1 = (ret, (q, e), s2)" "s1 < s2" "s2 \<le> es" "toks buf es s2 = ts"
    by (rule gettoken_spec [OF assms(1) p(3) p(4) [unfolded assms(3)]])
  then show thesis using that [of s1] p assms(3,4) by simp
qed

lemma peek_no:
  assumes "line buf es" "s \<le> es" "\<not> starts tk (toks buf es s)" "set tk \<subseteq> set symbols"
  obtains s1 where "peek buf es tk s = (False, s1)" "s \<le> s1" "s1 \<le> es" "toks buf es s1 = toks buf es s"
  using peek_cases [OF assms(1,2,4)] assms(3) by (metis (full_types))

lemma peek_split:
  assumes "line buf es" "s \<le> es" "set [d] \<subseteq> set symbols"
  obtains (yes) ts s1 where "peek buf es [d] s = (True, s1)" "s \<le> s1" "s1 \<le> es" "toks buf es s = Sym d # ts" "toks buf es s1 = Sym d # ts"
      "s < skip_token buf es s1" "skip_token buf es s1 \<le> es" "toks buf es (skip_token buf es s1) = ts"
    | (no) s1 where "peek buf es [d] s = (False, s1)" "s \<le> s1" "s1 \<le> es" "toks buf es s1 = toks buf es s" "\<not> starts [d] (toks buf es s)"
proof (cases "starts [d] (toks buf es s)")
  case True
  then obtain ts where t: "toks buf es s = Sym d # ts" by (auto simp: starts_def)
  show thesis by (rule peek_yes [OF assms(1,2) t _ assms(3)]) (use yes t in auto)
next
  case False
  show thesis by (rule peek_no [OF assms(1,2) False assms(3)]) (use no False in auto)
qed

lemma sym_sets: "set ''('' \<subseteq> set symbols" "set '')'' \<subseteq> set symbols" "set ''|'' \<subseteq> set symbols" "set ''&'' \<subseteq> set symbols" "set '';'' \<subseteq> set symbols"
  by (auto simp: symbols_def)

lemma parseline_back_complete:
  assumes "line buf es" "s \<le> es" "toks buf es s = replicate k (Sym CHR ''&'') @ us" "\<not> starts ''&'' us"
  shows "\<exists>s'. parseline_back buf es cmd s = ((BACK ^^ k) cmd, s') \<and> toks buf es s' = us \<and> s \<le> s' \<and> s' \<le> es"
  using assms
proof (induction k arbitrary: s cmd)
  case 0
  obtain s1 where "peek buf es ''&'' s = (False, s1)" "s \<le> s1" "s1 \<le> es" "toks buf es s1 = toks buf es s"
    by (rule peek_no [OF 0(1,2) _ sym_sets(4)]) (use 0 in simp)
  then show ?case using 0 by (subst parseline_back.simps) simp
next
  case (Suc k)
  have t: "toks buf es s = Sym CHR ''&'' # replicate k (Sym CHR ''&'') @ us" using Suc.prems(3) by simp
  obtain s1 where p: "peek buf es ''&'' s = (True, s1)" "s < skip_token buf es s1" "skip_token buf es s1 \<le> es"
    "toks buf es (skip_token buf es s1) = replicate k (Sym CHR ''&'') @ us"
    by (rule peek_yes [OF Suc.prems(1,2) t _ sym_sets(4)]) simp
  obtain s' where "parseline_back buf es (BACK cmd) (skip_token buf es s1) = ((BACK ^^ k) (BACK cmd), s')" "toks buf es s' = us" "skip_token buf es s1 \<le> s'" "s' \<le> es"
    using Suc.IH [OF Suc.prems(1) p(3,4) Suc.prems(4)] by blast
  then show ?case using p by (subst parseline_back.simps) (simp add: funpow_swap1)
qed

lemma parseline_back_sound:
  assumes "line buf es" "s \<le> es"
  shows "\<exists>k s'. parseline_back buf es cmd s = ((BACK ^^ k) cmd, s') \<and> toks buf es s = replicate k (Sym CHR ''&'') @ toks buf es s' \<and> s \<le> s' \<and> s' \<le> es"
proof -
  have "\<exists>k us. ts = replicate k (Sym CHR ''&'') @ us \<and> \<not> starts ''&'' us" for ts
  proof (induction ts)
    case Nil
    then show ?case by (intro exI [of _ 0] exI [of _ "[]"]) simp
  next
    case (Cons t ts)
    then obtain k us where "ts = replicate k (Sym CHR ''&'') @ us" "\<not> starts ''&'' us" by blast
    then show ?case by (cases "t = Sym CHR ''&''") (metis append_Cons replicate_Suc, auto intro!: exI [of _ 0] simp: starts_def)
  qed
  then obtain k us where "toks buf es s = replicate k (Sym CHR ''&'') @ us" "\<not> starts ''&'' us" by blast
  then show ?thesis using parseline_back_complete [OF assms] by metis
qed

lemma means_BACK: "means buf es cmd c \<Longrightarrow> means buf es ((BACK ^^ k) cmd) ((BACK ^^ k) c)"
  by (induction k) auto

text \<open>What the parsers return spells a command.\<close>

definition sound :: "char list \<Rightarrow> nat \<Rightarrow> nat \<Rightarrow> (nat \<Rightarrow> (span cmd \<times> nat) option) \<Rightarrow> bool" where
  "sound buf es l p \<longleftrightarrow> (\<forall>s cmd s'. s \<le> es \<longrightarrow> p s = Some (cmd, s') \<longrightarrow>
     (\<exists>ts c. toks buf es s = ts @ toks buf es s' \<and> spells l ts c \<and> means buf es cmd c \<and> s \<le> s' \<and> s' \<le> es))"

lemma parseblock_sound:
  assumes l: "line buf es" and pl: "sound buf es 0 pl"
  shows "sound buf es 3 (parseblock pl buf es)"
  unfolding sound_def
proof (intro allI impI)
  fix s cmd s'
  assume s: "s \<le> es" and run: "parseblock pl buf es s = Some (cmd, s')"
  obtain ts s1 where p: "peek buf es ''('' s = (True, s1)" "s < skip_token buf es s1" "skip_token buf es s1 \<le> es" "toks buf es (skip_token buf es s1) = ts"
    and t: "toks buf es s = Sym CHR ''('' # ts"
    by (rule peek_split [OF l s sym_sets(1)]) (use run in \<open>auto simp: parseblock_def\<close>)
  obtain c1 s2 where a: "pl (skip_token buf es s1) = Some (c1, s2)" using run p(1) by (auto simp: parseblock_def split: bind_splits)
  obtain us c where b: "ts = us @ toks buf es s2" "spells 0 us c" "means buf es c1 c" "skip_token buf es s1 \<le> s2" "s2 \<le> es"
    using pl a p(3,4) unfolding sound_def by blast
  obtain vs s3 where q: "peek buf es '')'' s2 = (True, s3)" "s2 < skip_token buf es s3" "skip_token buf es s3 \<le> es" "toks buf es (skip_token buf es s3) = vs"
    and t2: "toks buf es s2 = Sym CHR '')'' # vs"
    by (rule peek_split [OF l b(5) sym_sets(2)]) (use run p(1) a in \<open>auto simp: parseblock_def\<close>)
  have "parseredirs buf es c1 (skip_token buf es s3) = Some (cmd, s')" using run p(1) a q(1) by (simp add: parseblock_def)
  then obtain rs where r: "vs = concat (map redir_toks rs) @ toks buf es s'" "list_all redir_ok rs" "means buf es cmd (wraps rs c)" "skip_token buf es s3 \<le> s'" "s' \<le> es"
    using parseredirs_sound [OF l q(3) b(3)] q(4) by blast
  show "\<exists>ts c. toks buf es s = ts @ toks buf es s' \<and> spells 3 ts c \<and> means buf es cmd c \<and> s \<le> s' \<and> s' \<le> es"
    using t b t2 r p(2) q(2) exec_block [OF b(2) r(2)] by (intro exI [of _ "Sym CHR ''('' # us @ Sym CHR '')'' # concat (map redir_toks rs)"] exI [of _ "wraps rs c"]) simp
qed

lemma parseexec_sound:
  assumes l: "line buf es" and pl: "sound buf es 0 pl"
  shows "sound buf es 3 (parseexec pl buf es)"
  unfolding sound_def
proof (intro allI impI)
  fix s cmd s'
  assume s: "s \<le> es" and run: "parseexec pl buf es s = Some (cmd, s')"
  show "\<exists>ts c. toks buf es s = ts @ toks buf es s' \<and> spells 3 ts c \<and> means buf es cmd c \<and> s \<le> s' \<and> s' \<le> es"
  proof (rule peek_split [OF l s sym_sets(1)])
    fix ts s1
    assume p: "peek buf es ''('' s = (True, s1)" "s \<le> s1" "s1 \<le> es" "toks buf es s = Sym CHR ''('' # ts" "toks buf es s1 = Sym CHR ''('' # ts"
    then have "parseblock pl buf es s1 = Some (cmd, s')" using run by (simp add: parseexec_def)
    then obtain us c where "toks buf es s1 = us @ toks buf es s'" "spells 3 us c" "means buf es cmd c" "s1 \<le> s'" "s' \<le> es"
      using parseblock_sound [OF l pl] p(3) unfolding sound_def by blast
    then show ?thesis using p(2,4,5) by (intro exI [of _ us] exI [of _ c]) simp
  next
    fix s1
    assume p: "peek buf es ''('' s = (False, s1)" "s \<le> s1" "s1 \<le> es" "toks buf es s1 = toks buf es s"
    then obtain c2 s2 where a: "parseredirs buf es (EXEC []) s1 = Some (c2, s2)" "parseexec_loop buf es 0 c2 s2 = Some (cmd, s')"
      using run by (auto simp: parseexec_def split: bind_splits)
    have "means buf es (EXEC []) (EXEC [])" by simp
    from parseredirs_sound [OF l p(3) this a(1)] obtain rs where r: "toks buf es s1 = concat (map redir_toks rs) @ toks buf es s2" "list_all redir_ok rs"
      "means buf es c2 (wraps rs (EXEC []))" "s1 \<le> s2" "s2 \<le> es" by blast
    obtain its where i: "toks buf es s2 = concat (map item_toks its) @ toks buf es s'" "list_all redir_ok (item_redirs its)" "length ([] @ item_words its) < MAXARGS"
      "means buf es cmd (wraps (rs @ item_redirs its) (EXEC ([] @ item_words its)))" "s2 \<le> s'" "s' \<le> es"
      using parseexec_loop_sound [OF l r(5) _ r(3)] a(2) by fastforce
    have "spells 3 (concat (map item_toks (map Inr rs @ its))) (wraps (rs @ item_redirs its) (EXEC (item_words its)))"
      using exec_simple [of "map Inr rs @ its"] r(2) i(2,3) by simp
    then show ?thesis using p r i by (intro exI [of _ "concat (map item_toks (map Inr rs @ its))"] exI [of _ "wraps (rs @ item_redirs its) (EXEC (item_words its))"]) simp
  qed
qed

lemma parsepipe_sound:
  assumes l: "line buf es" and pl: "sound buf es 0 pl"
  shows "sound buf es 2 (parsepipe m pl buf es)"
proof (induction m)
  case 0
  then show ?case by (simp add: sound_def)
next
  case (Suc m)
  show ?case unfolding sound_def
  proof (intro allI impI)
    fix s cmd s'
    assume s: "s \<le> es" and run: "parsepipe (Suc m) pl buf es s = Some (cmd, s')"
    obtain c1 s1 where a: "parseexec pl buf es s = Some (c1, s1)" using run by (auto split: bind_splits)
    obtain ts c where b: "toks buf es s = ts @ toks buf es s1" "spells 3 ts c" "means buf es c1 c" "s \<le> s1" "s1 \<le> es"
      using parseexec_sound [OF l pl] a s unfolding sound_def by blast
    show "\<exists>ts c. toks buf es s = ts @ toks buf es s' \<and> spells 2 ts c \<and> means buf es cmd c \<and> s \<le> s' \<and> s' \<le> es"
    proof (rule peek_split [OF l b(5) sym_sets(3)])
      fix us s2
      assume p: "peek buf es ''|'' s1 = (True, s2)" "toks buf es s1 = Sym CHR ''|'' # us" "s1 < skip_token buf es s2" "skip_token buf es s2 \<le> es" "toks buf es (skip_token buf es s2) = us"
      then obtain c3 where d: "parsepipe m pl buf es (skip_token buf es s2) = Some (c3, s')" "cmd = PIPE c1 c3" using run a by (auto split: bind_splits)
      obtain vs c' where e: "us = vs @ toks buf es s'" "spells 2 vs c'" "means buf es c3 c'" "skip_token buf es s2 \<le> s'" "s' \<le> es"
        using Suc.IH d(1) p(4,5) unfolding sound_def by blast
      show ?thesis using b p e d(2) pipe_more [OF b(2) e(2)] by (intro exI [of _ "ts @ Sym CHR ''|'' # vs"] exI [of _ "PIPE c c'"]) simp
    next
      fix s2
      assume p: "peek buf es ''|'' s1 = (False, s2)" "s1 \<le> s2" "s2 \<le> es" "toks buf es s2 = toks buf es s1"
      then show ?thesis using b run a pipe_last [OF b(2)] by (intro exI [of _ ts] exI [of _ c]) simp
    qed
  qed
qed

lemma parseline_sound:
  assumes l: "line buf es"
  shows "sound buf es 0 (parseline n buf es)"
proof (induction n)
  case 0
  then show ?case by (simp add: sound_def)
next
  case (Suc n)
  show ?case unfolding sound_def
  proof (intro allI impI)
    fix s cmd s'
    assume s: "s \<le> es" and run: "parseline (Suc n) buf es s = Some (cmd, s')"
    obtain c1 s1 where a: "parsepipe (Suc n) (parseline n buf es) buf es s = Some (c1, s1)" using run by (auto simp del: parsepipe.simps split: bind_splits)
    obtain ts c where b: "toks buf es s = ts @ toks buf es s1" "spells 2 ts c" "means buf es c1 c" "s \<le> s1" "s1 \<le> es"
      using parsepipe_sound [OF l Suc.IH] a s unfolding sound_def by blast
    obtain k s2 where k: "parseline_back buf es c1 s1 = ((BACK ^^ k) c1, s2)" "toks buf es s1 = replicate k (Sym CHR ''&'') @ toks buf es s2" "s1 \<le> s2" "s2 \<le> es"
      using parseline_back_sound [OF l b(5)] by blast
    note bk = line_back [OF b(2), of k] and m = means_BACK [OF b(3), of k]
    show "\<exists>ts c. toks buf es s = ts @ toks buf es s' \<and> spells 0 ts c \<and> means buf es cmd c \<and> s \<le> s' \<and> s' \<le> es"
    proof (rule peek_split [OF l k(4) sym_sets(5)])
      fix us s3
      assume p: "peek buf es '';'' s2 = (True, s3)" "toks buf es s2 = Sym CHR '';'' # us" "s2 < skip_token buf es s3" "skip_token buf es s3 \<le> es" "toks buf es (skip_token buf es s3) = us"
      then obtain c3 where d: "parseline n buf es (skip_token buf es s3) = Some (c3, s')" "cmd = LIST ((BACK ^^ k) c1) c3"
        using run a k(1) by (auto simp del: parsepipe.simps split: bind_splits)
      obtain vs c' where e: "us = vs @ toks buf es s'" "spells 0 vs c'" "means buf es c3 c'" "skip_token buf es s3 \<le> s'" "s' \<le> es"
        using Suc.IH d(1) p(4,5) unfolding sound_def by blast
      show ?thesis using b k p e d(2) m line_seq [OF bk e(2)]
        by (intro exI [of _ "(ts @ replicate k (Sym CHR ''&'')) @ Sym CHR '';'' # vs"] exI [of _ "LIST ((BACK ^^ k) c) c'"]) simp
    next
      fix s3
      assume p: "peek buf es '';'' s2 = (False, s3)" "s2 \<le> s3" "s3 \<le> es" "toks buf es s3 = toks buf es s2"
      then have "cmd = (BACK ^^ k) c1" "s' = s3" using run a k(1) by (auto simp del: parsepipe.simps)
      then show ?thesis using b k p m line_one [OF bk] by (intro exI [of _ "ts @ replicate k (Sym CHR ''&'')"] exI [of _ "(BACK ^^ k) c"]) simp
    qed
  qed
qed

text \<open>
  Every spelling is parsed. The bounds on the calls are enough when they are at least the number of characters left: every call is made
  after a token has been taken.
\<close>

definition parse_at :: "char list \<Rightarrow> nat \<Rightarrow> nat \<Rightarrow> nat \<Rightarrow> nat \<Rightarrow> nat \<Rightarrow> (span cmd \<times> nat) option" where
  "parse_at buf es l m n s =
     (let pl = parseline n buf es in
      if l = 3 then parseexec pl buf es s
      else if l = 2 then parsepipe (Suc m) pl buf es s
      else if l = 1 then map_option (\<lambda>(cmd, s). parseline_back buf es cmd s) (parsepipe (Suc m) pl buf es s)
      else parseline (Suc n) buf es s)"

definition after :: "nat \<Rightarrow> string" where
  "after l = (if l = 3 then ''|)&;'' else if l = 2 then '')&;'' else if l = 1 then '');'' else '')'')"

definition complete :: "char list \<Rightarrow> nat \<Rightarrow> nat \<Rightarrow> token list \<Rightarrow> string cmd \<Rightarrow> bool" where
  "complete buf es l ts c \<longleftrightarrow> (\<forall>m n s us. s \<le> es \<longrightarrow> es - s \<le> m \<longrightarrow> es - s \<le> n \<longrightarrow> toks buf es s = ts @ us \<longrightarrow> follows (after l) us \<longrightarrow>
     (\<exists>cmd s'. parse_at buf es l m n s = Some (cmd, s') \<and> means buf es cmd c \<and> toks buf es s' = us \<and> s \<le> s' \<and> s' \<le> es))"

lemma completeD:
  assumes "complete buf es l ts c" "s \<le> es" "es - s \<le> m" "es - s \<le> n" "toks buf es s = ts @ us" "follows (after l) us"
  obtains cmd s' where "parse_at buf es l m n s = Some (cmd, s')" "means buf es cmd c" "toks buf es s' = us" "s \<le> s'" "s' \<le> es"
  using assms unfolding complete_def by blast

lemma complete_simple:
  assumes l: "line buf es" and its: "list_all redir_ok (item_redirs its)" "length (item_words its) < MAXARGS"
  shows "complete buf es 3 (concat (map item_toks its)) (wraps (item_redirs its) (EXEC (item_words its)))"
  unfolding complete_def
proof (intro allI impI)
  fix m n s us
  assume s: "s \<le> es" and t: "toks buf es s = concat (map item_toks its) @ us" and f: "follows (after 3) us"
  obtain rs its' where sp: "its = map Inr rs @ its'" "its' = [] \<or> (\<exists>w ws. its' = Inl w # ws)" using split_items by blast
  let ?us = "concat (map item_toks its') @ us"
  have nb: "\<not> starts ''('' (toks buf es s)" using t sp f by (cases rs) (auto simp: follows_def starts_def after_def redir_toks_def split: if_splits)
  obtain s1 where p: "peek buf es ''('' s = (False, s1)" "s \<le> s1" "s1 \<le> es" "toks buf es s1 = toks buf es s" by (rule peek_no [OF l s nb sym_sets(1)])
  have "toks buf es s1 = concat (map redir_toks rs) @ ?us" using p(4) t by (simp add: sp(1))
  moreover have "\<not> starts ''<>'' ?us" using sp(2) f by (auto simp: follows_def starts_def after_def)
  moreover have "list_all redir_ok rs" "means buf es (EXEC []) (EXEC [])" using its(1) by (simp_all add: sp(1))
  ultimately obtain c2 s2 where r: "parseredirs buf es (EXEC []) s1 = Some (c2, s2)" "means buf es c2 (wraps rs (EXEC []))" "toks buf es s2 = ?us" "s1 \<le> s2" "s2 \<le> es"
    using parseredirs_complete [OF l p(3)] by blast
  have "list_all redir_ok (item_redirs its')" "length [] + length (item_words its') < MAXARGS" "follows ''|)&;'' us" using its f by (simp_all add: sp(1) after_def)
  from parseexec_loop_complete [OF l r(5,3) sp(2) this(3) this(1,2) r(2)]
  obtain c3 s3 where "parseexec_loop buf es 0 c2 s2 = Some (c3, s3)" "means buf es c3 (wraps (rs @ item_redirs its') (EXEC (item_words its')))"
    "toks buf es s3 = us" "s2 \<le> s3" "s3 \<le> es" by auto
  then show "\<exists>cmd s'. parse_at buf es 3 m n s = Some (cmd, s') \<and> means buf es cmd (wraps (item_redirs its) (EXEC (item_words its))) \<and> toks buf es s' = us \<and> s \<le> s' \<and> s' \<le> es"
    using p r by (simp add: parse_at_def parseexec_def sp(1))
qed

lemma complete_block:
  assumes l: "line buf es" and c: "complete buf es 0 ts c" and rs: "list_all redir_ok rs"
  shows "complete buf es 3 (Sym CHR ''('' # ts @ Sym CHR '')'' # concat (map redir_toks rs)) (wraps rs c)"
  unfolding complete_def
proof (intro allI impI)
  fix m n s us
  assume s: "s \<le> es" and n: "es - s \<le> n" and t: "toks buf es s = (Sym CHR ''('' # ts @ Sym CHR '')'' # concat (map redir_toks rs)) @ us" and f: "follows (after 3) us"
  let ?vs = "concat (map redir_toks rs) @ us"
  have t0: "toks buf es s = Sym CHR ''('' # ts @ Sym CHR '')'' # ?vs" using t by simp
  obtain s1 where p: "peek buf es ''('' s = (True, s1)" "s \<le> s1" "s1 \<le> es" "toks buf es s1 = Sym CHR ''('' # ts @ Sym CHR '')'' # ?vs" by (rule peek_yes [OF l s t0 _ sym_sets(1)]) simp
  obtain s2 where q: "peek buf es ''('' s1 = (True, s2)" "s1 < skip_token buf es s2" "skip_token buf es s2 \<le> es" "toks buf es (skip_token buf es s2) = ts @ Sym CHR '')'' # ?vs"
    by (rule peek_yes [OF l p(3,4) _ sym_sets(1)]) simp
  obtain n' where n': "n = Suc n'" "es - skip_token buf es s2 \<le> n'" using n p(2) q(2,3) by (cases n) auto
  have "follows (after 0) (Sym CHR '')'' # ?vs)" by (simp add: follows_def after_def)
  then obtain c1 s3 where a: "parse_at buf es 0 n' n' (skip_token buf es s2) = Some (c1, s3)" "means buf es c1 c" "toks buf es s3 = Sym CHR '')'' # ?vs" "skip_token buf es s2 \<le> s3" "s3 \<le> es"
    using completeD [OF c q(3) n'(2) n'(2) q(4)] by blast
  obtain s4 where b: "peek buf es '')'' s3 = (True, s4)" "s3 < skip_token buf es s4" "skip_token buf es s4 \<le> es" "toks buf es (skip_token buf es s4) = ?vs"
    by (rule peek_yes [OF l a(5,3) _ sym_sets(2)]) simp
  have "\<not> starts ''<>'' us" using f by (auto simp: follows_def starts_def after_def)
  then obtain c5 s5 where "parseredirs buf es c1 (skip_token buf es s4) = Some (c5, s5)" "means buf es c5 (wraps rs c)" "toks buf es s5 = us" "skip_token buf es s4 \<le> s5" "s5 \<le> es"
    using parseredirs_complete [OF l b(3,4) _ rs a(2)] by blast
  then show "\<exists>cmd s'. parse_at buf es 3 m n s = Some (cmd, s') \<and> means buf es cmd (wraps rs c) \<and> toks buf es s' = us \<and> s \<le> s' \<and> s' \<le> es"
    using p q a b by (simp add: parse_at_def parseexec_def parseblock_def n'(1) del: parsepipe.simps parseline.simps)
qed

lemma complete_last:
  assumes l: "line buf es" and c: "complete buf es 3 ts c"
  shows "complete buf es 2 ts c"
  unfolding complete_def
proof (intro allI impI)
  fix m n s us
  assume s: "s \<le> es" "es - s \<le> n" and t: "toks buf es s = ts @ us" and f: "follows (after 2) us"
  have "follows (after 3) us" using f by (auto simp: follows_def after_def starts_def)
  then obtain c1 s1 where a: "parse_at buf es 3 n n s = Some (c1, s1)" "means buf es c1 c" "toks buf es s1 = us" "s \<le> s1" "s1 \<le> es"
    using completeD [OF c s(1) s(2) s(2) t] by blast
  have nb: "\<not> starts ''|'' (toks buf es s1)" using a(3) f by (auto simp: follows_def after_def starts_def)
  obtain s2 where "peek buf es ''|'' s1 = (False, s2)" "s1 \<le> s2" "s2 \<le> es" "toks buf es s2 = toks buf es s1" by (rule peek_no [OF l a(5) nb sym_sets(3)])
  then show "\<exists>cmd s'. parse_at buf es 2 m n s = Some (cmd, s') \<and> means buf es cmd c \<and> toks buf es s' = us \<and> s \<le> s' \<and> s' \<le> es"
    using a by (simp add: parse_at_def)
qed

lemma complete_pipe:
  assumes l: "line buf es" and c: "complete buf es 3 ts a" "complete buf es 2 us b"
  shows "complete buf es 2 (ts @ Sym CHR ''|'' # us) (PIPE a b)"
  unfolding complete_def
proof (intro allI impI)
  fix m n s vs
  assume s: "s \<le> es" and m: "es - s \<le> m" and n: "es - s \<le> n" and t: "toks buf es s = (ts @ Sym CHR ''|'' # us) @ vs" and f: "follows (after 2) vs"
  have t0: "toks buf es s = ts @ Sym CHR ''|'' # us @ vs" "follows (after 3) (Sym CHR ''|'' # us @ vs)" using t by (simp_all add: follows_def after_def)
  obtain c1 s1 where a: "parse_at buf es 3 m n s = Some (c1, s1)" "means buf es c1 a" "toks buf es s1 = Sym CHR ''|'' # us @ vs" "s \<le> s1" "s1 \<le> es"
    by (rule completeD [OF c(1) s m n t0])
  obtain s2 where p: "peek buf es ''|'' s1 = (True, s2)" "s1 < skip_token buf es s2" "skip_token buf es s2 \<le> es" "toks buf es (skip_token buf es s2) = us @ vs"
    by (rule peek_yes [OF l a(5,3) _ sym_sets(3)]) simp
  obtain m' where m': "m = Suc m'" "es - skip_token buf es s2 \<le> m'" using m p(2,3) a(4) by (cases m) auto
  have n': "es - skip_token buf es s2 \<le> n" using n p(2) a(4) by simp
  obtain c3 s3 where "parse_at buf es 2 m' n (skip_token buf es s2) = Some (c3, s3)" "means buf es c3 b" "toks buf es s3 = vs" "skip_token buf es s2 \<le> s3" "s3 \<le> es"
    by (rule completeD [OF c(2) p(3) m'(2) n' p(4) f])
  then show "\<exists>cmd s'. parse_at buf es 2 m n s = Some (cmd, s') \<and> means buf es cmd (PIPE a b) \<and> toks buf es s' = vs \<and> s \<le> s' \<and> s' \<le> es"
    using a p by (simp add: parse_at_def m'(1) parsepipe.simps(2) [of "Suc m'"] del: parsepipe.simps)
qed

lemma complete_back:
  assumes l: "line buf es" and c: "complete buf es 2 ts c"
  shows "complete buf es 1 (ts @ replicate k (Sym CHR ''&'')) ((BACK ^^ k) c)"
  unfolding complete_def
proof (intro allI impI)
  fix m n s us
  assume s: "s \<le> es" "es - s \<le> m" "es - s \<le> n" and t: "toks buf es s = (ts @ replicate k (Sym CHR ''&'')) @ us" and f: "follows (after 1) us"
  let ?vs = "replicate k (Sym CHR ''&'') @ us"
  have t0: "toks buf es s = ts @ ?vs" "follows (after 2) ?vs" using t f by (cases k; auto simp: follows_def after_def starts_def)+
  obtain c1 s1 where a: "parse_at buf es 2 m n s = Some (c1, s1)" "means buf es c1 c" "toks buf es s1 = ?vs" "s \<le> s1" "s1 \<le> es"
    by (rule completeD [OF c s t0])
  have "\<not> starts ''&'' us" using f by (auto simp: follows_def after_def starts_def)
  then obtain s2 where "parseline_back buf es c1 s1 = ((BACK ^^ k) c1, s2)" "toks buf es s2 = us" "s1 \<le> s2" "s2 \<le> es"
    using parseline_back_complete [OF l a(5,3)] by blast
  then show "\<exists>cmd s'. parse_at buf es 1 m n s = Some (cmd, s') \<and> means buf es cmd ((BACK ^^ k) c) \<and> toks buf es s' = us \<and> s \<le> s' \<and> s' \<le> es"
    using a means_BACK [OF a(2), of k] by (simp add: parse_at_def del: parsepipe.simps)
qed

lemma parse_at_line:
  "parse_at buf es 1 n n s = Some (cmd, s1) \<Longrightarrow> parse_at buf es 0 m n s =
     (case peek buf es '';'' s1 of (b, s2) \<Rightarrow>
      if b then map_option (\<lambda>(right, s). (LIST cmd right, s)) (parseline n buf es (skip_token buf es s2)) else Some (cmd, s2))"
  by (auto simp: parse_at_def simp del: parsepipe.simps split: bind_splits option.splits prod.splits)

lemma complete_one:
  assumes l: "line buf es" and c: "complete buf es 1 ts c"
  shows "complete buf es 0 ts c"
  unfolding complete_def
proof (intro allI impI)
  fix m n s us
  assume s: "s \<le> es" "es - s \<le> n" and t: "toks buf es s = ts @ us" and f: "follows (after 0) us"
  have f1: "follows (after 1) us" using f by (auto simp: follows_def after_def starts_def)
  obtain c1 s1 where a: "parse_at buf es 1 n n s = Some (c1, s1)" "means buf es c1 c" "toks buf es s1 = us" "s \<le> s1" "s1 \<le> es"
    by (rule completeD [OF c s(1) s(2) s(2) t f1])
  have nb: "\<not> starts '';'' (toks buf es s1)" using a(3) f by (auto simp: follows_def after_def starts_def)
  obtain s2 where "peek buf es '';'' s1 = (False, s2)" "s1 \<le> s2" "s2 \<le> es" "toks buf es s2 = toks buf es s1" by (rule peek_no [OF l a(5) nb sym_sets(5)])
  then show "\<exists>cmd s'. parse_at buf es 0 m n s = Some (cmd, s') \<and> means buf es cmd c \<and> toks buf es s' = us \<and> s \<le> s' \<and> s' \<le> es"
    using a by (simp add: parse_at_line [OF a(1)])
qed

lemma complete_seq:
  assumes l: "line buf es" and c: "complete buf es 1 ts a" "complete buf es 0 us b"
  shows "complete buf es 0 (ts @ Sym CHR '';'' # us) (LIST a b)"
  unfolding complete_def
proof (intro allI impI)
  fix m n s vs
  assume s: "s \<le> es" and n: "es - s \<le> n" and t: "toks buf es s = (ts @ Sym CHR '';'' # us) @ vs" and f: "follows (after 0) vs"
  have t0: "toks buf es s = ts @ Sym CHR '';'' # us @ vs" "follows (after 1) (Sym CHR '';'' # us @ vs)" using t by (simp_all add: follows_def after_def)
  obtain c1 s1 where a: "parse_at buf es 1 n n s = Some (c1, s1)" "means buf es c1 a" "toks buf es s1 = Sym CHR '';'' # us @ vs" "s \<le> s1" "s1 \<le> es"
    by (rule completeD [OF c(1) s n n t0])
  obtain s2 where p: "peek buf es '';'' s1 = (True, s2)" "s1 < skip_token buf es s2" "skip_token buf es s2 \<le> es" "toks buf es (skip_token buf es s2) = us @ vs"
    by (rule peek_yes [OF l a(5,3) _ sym_sets(5)]) simp
  obtain n' where n': "n = Suc n'" "es - skip_token buf es s2 \<le> n'" using n p(2,3) a(4) by (cases n) auto
  obtain c3 s3 where "parse_at buf es 0 n' n' (skip_token buf es s2) = Some (c3, s3)" "means buf es c3 b" "toks buf es s3 = vs" "skip_token buf es s2 \<le> s3" "s3 \<le> es"
    by (rule completeD [OF c(2) p(3) n'(2) n'(2) p(4) f])
  then have "parseline n buf es (skip_token buf es s2) = Some (c3, s3)" "means buf es c3 b" "toks buf es s3 = vs" "skip_token buf es s2 \<le> s3" "s3 \<le> es"
    by (simp_all add: parse_at_def n'(1) del: parseline.simps)
  then show "\<exists>cmd s'. parse_at buf es 0 m n s = Some (cmd, s') \<and> means buf es cmd (LIST a b) \<and> toks buf es s' = vs \<and> s \<le> s' \<and> s' \<le> es"
    using a p by (simp add: parse_at_line [OF a(1)])
qed

lemma spells_complete: "spells l ts c \<Longrightarrow> line buf es \<Longrightarrow> complete buf es l ts c"
  by (induction rule: spells.induct)
    (blast intro: complete_simple complete_block complete_last complete_pipe complete_back complete_one complete_seq)+

section \<open>The bounds on the calls\<close>

text \<open>The result does not depend on the bounds once they are above the number of characters left.\<close>

lemma parseexec_cong:
  assumes l: "line buf es" and s: "s \<le> es" and eq: "\<And>s'. s < s' \<Longrightarrow> s' \<le> es \<Longrightarrow> pl s' = pl' s'"
  shows "parseexec pl buf es s = parseexec pl' buf es s"
proof (rule peek_split [OF l s sym_sets(1)])
  fix ts s1
  assume p: "peek buf es ''('' s = (True, s1)" "s \<le> s1" "s1 \<le> es" "toks buf es s1 = Sym CHR ''('' # ts"
  obtain s2 where q: "peek buf es ''('' s1 = (True, s2)" "s1 < skip_token buf es s2" "skip_token buf es s2 \<le> es"
    by (rule peek_yes [OF l p(3,4) _ sym_sets(1)]) simp
  then have "pl (skip_token buf es s2) = pl' (skip_token buf es s2)" using p(2) by (intro eq) simp_all
  then show ?thesis using p(1) q(1) by (simp add: parseexec_def parseblock_def)
next
  fix s1
  assume "peek buf es ''('' s = (False, s1)"
  then show ?thesis by (simp add: parseexec_def)
qed

lemma parsepipe_cong:
  assumes "line buf es" "s \<le> es" "\<And>s'. s < s' \<Longrightarrow> s' \<le> es \<Longrightarrow> pl s' = pl' s'" "sound buf es 0 pl" "es - s < m" "es - s < m'"
  shows "parsepipe m pl buf es s = parsepipe m' pl' buf es s"
  using assms
proof (induction m arbitrary: m' s)
  case (Suc m)
  note l = Suc.prems(1)
  obtain k where k: "m' = Suc k" using Suc.prems(6) by (cases m') auto
  have e: "parseexec pl buf es s = parseexec pl' buf es s" by (rule parseexec_cong [OF l Suc.prems(2,3)])
  show ?case
  proof (cases "parseexec pl buf es s")
    case None
    then show ?thesis using e by (simp add: k)
  next
    case (Some a)
    then obtain c1 s1 where a: "parseexec pl buf es s = Some (c1, s1)" by (cases a) auto
    have s1: "s \<le> s1" "s1 \<le> es" using parseexec_sound [OF l Suc.prems(4)] a Suc.prems(2) unfolding sound_def by blast+
    show ?thesis
    proof (rule peek_split [OF l s1(2) sym_sets(3)])
      fix ts s2
      assume p: "peek buf es ''|'' s1 = (True, s2)" "s1 < skip_token buf es s2" "skip_token buf es s2 \<le> es"
      have "parsepipe m pl buf es (skip_token buf es s2) = parsepipe k pl' buf es (skip_token buf es s2)"
        by (rule Suc.IH [OF l p(3) Suc.prems(3) Suc.prems(4)]) (use Suc.prems(5,6) s1 p k in auto)
      then show ?thesis using a e p(1) by (simp add: k)
    next
      fix s2
      assume "peek buf es ''|'' s1 = (False, s2)"
      then show ?thesis using a e by (simp add: k)
    qed
  qed
qed simp

lemma parseline_bound:
  assumes "line buf es" "s \<le> es" "es - s < n" "es - s < n'"
  shows "parseline n buf es s = parseline n' buf es s"
  using assms
proof (induction "es - s" arbitrary: s n n' rule: less_induct)
  case less
  note l = less.prems(1)
  obtain k k' where k: "n = Suc k" "n' = Suc k'" using less.prems(3,4) by (cases n; cases n') auto
  have eq: "parseline k buf es s' = parseline k' buf es s'" if "s < s'" "s' \<le> es" for s'
    by (rule less.hyps [OF _ l]) (use that less.prems(3,4) k in auto)
  have pp: "parsepipe n (parseline k buf es) buf es s = parsepipe n' (parseline k' buf es) buf es s"
    by (rule parsepipe_cong [OF l less.prems(2) eq parseline_sound [OF l] less.prems(3,4)])
  show ?case
  proof (cases "parsepipe n (parseline k buf es) buf es s")
    case None
    then show ?thesis using pp by (simp add: k del: parsepipe.simps)
  next
    case (Some a)
    then obtain c1 s1 where a: "parsepipe n (parseline k buf es) buf es s = Some (c1, s1)" by (cases a) auto
    then have a': "parsepipe n' (parseline k' buf es) buf es s = Some (c1, s1)" using pp by simp
    have s1: "s \<le> s1" "s1 \<le> es" using parsepipe_sound [OF l parseline_sound [OF l]] a less.prems(2) unfolding sound_def by blast+
    obtain j s2 where b: "parseline_back buf es c1 s1 = ((BACK ^^ j) c1, s2)" "s1 \<le> s2" "s2 \<le> es" using parseline_back_sound [OF l s1(2)] by blast
    show ?thesis
    proof (rule peek_split [OF l b(3) sym_sets(5)])
      fix ts s3
      assume p: "peek buf es '';'' s2 = (True, s3)" "s2 < skip_token buf es s3" "skip_token buf es s3 \<le> es"
      then have "parseline k buf es (skip_token buf es s3) = parseline k' buf es (skip_token buf es s3)" using s1 b by (intro eq) simp_all
      then show ?thesis using a a' b p(1) by (simp add: k del: parsepipe.simps)
    next
      fix s3
      assume "peek buf es '';'' s2 = (False, s3)"
      then show ?thesis using a a' b by (simp add: k del: parsepipe.simps)
    qed
  qed
qed

section \<open>Cutting out the strings\<close>

text \<open>Only positions after a word are overwritten, and none of them is part of a word.\<close>

lemma upd_nth: "j < length xs \<Longrightarrow> xs[i := x] ! j = (if i = j then x else xs ! j)"
  by (cases "i = j") auto

lemma fold_terminate:
  "length (fold (\<lambda>(q, e) buf. buf[e := NUL]) args buf) = length buf
    \<and> (i < length buf \<longrightarrow> fold (\<lambda>(q, e) buf. buf[e := NUL]) args buf ! i = (if \<exists>q. (q, i) \<in> set args then NUL else buf ! i))"
  by (induction args arbitrary: buf) (auto simp: upd_nth)

lemma nulterminate_nth:
  "length (nulterminate cmd buf) = length buf
    \<and> (i < length buf \<longrightarrow> nulterminate cmd buf ! i = (if \<exists>q. (q, i) \<in> set_cmd cmd then NUL else buf ! i))"
proof (induction cmd arbitrary: buf)
  case (EXEC args)
  then show ?case using fold_terminate [of args buf] by simp
next
  case (REDIR cmd f m fd)
  obtain q e where "f = (q, e)" by fastforce
  then show ?case using REDIR [of buf] by (auto simp: upd_nth)
qed auto

definition string_at :: "char list \<Rightarrow> nat \<Rightarrow> string" where
  "string_at buf q = takeWhile (\<lambda>c. c \<noteq> NUL) (drop q buf)"

lemma rel_cmd_set: "rel_cmd R cmd c \<Longrightarrow> a \<in> set_cmd cmd \<Longrightarrow> \<exists>w. R a w"
  by (induction rule: cmd.rel_induct) (auto simp: list_all2_conv_all_nth in_set_conv_nth)

lemma string_at_word:
  assumes l: "line buf es" and w: "is_word buf es (q, e) w" and m: "means buf es cmd c" and e: "(q, e) \<in> set_cmd cmd"
  shows "string_at (nulterminate cmd buf) q = w"
proof -
  let ?b = "nulterminate cmd buf"
  have qe: "q < e" "e \<le> es" "es < length buf" and tw: "take (e - q) (drop q buf) = w" and wc: "\<forall>c \<in> set w. word_char c"
    using w l by (auto simp: is_word_def line_def)
  have len: "length ?b = length buf" using nulterminate_nth [of cmd buf] by blast
  have nul: "?b ! e = NUL" using nulterminate_nth [of cmd buf e] e qe by force
  have wn: "w ! j = buf ! (q + j)" if "j < e - q" for j using that qe by (simp add: tw [symmetric])
  have lw: "length w = e - q" using qe by (simp add: tw [symmetric])
  have keep: "?b ! (q + j) = w ! j" if j: "j < e - q" for j
  proof -
    have wcj: "word_char (buf ! (q + j))" using wc wn [OF j] lw j by (metis nth_mem)
    have "\<not> (\<exists>q'. (q', q + j) \<in> set_cmd cmd)"
    proof
      assume "\<exists>q'. (q', q + j) \<in> set_cmd cmd"
      then obtain q' where "(q', q + j) \<in> set_cmd cmd" by blast
      then obtain w' where "is_word buf es (q', q + j) w'" using rel_cmd_set [OF m] by blast
      then show False using wcj j qe by (auto simp: is_word_def)
    qed
    then show ?thesis using nulterminate_nth [of cmd buf "q + j"] wn [OF j] j qe by simp
  qed
  have "drop q ?b = w @ drop e ?b"
    by (rule nth_equalityI) (use len lw qe keep in \<open>auto simp: nth_append add.commute\<close>)
  moreover have "drop e ?b = NUL # drop (Suc e) ?b" using nul len qe Cons_nth_drop_Suc [of e ?b] by simp
  moreover have "NUL \<notin> set w"
  proof
    assume "NUL \<in> set w"
    then have "NUL \<in> set (take es buf)" using qe(2) tw by (metis drop_take in_set_dropD set_take_subset_set_take subsetD)
    then show False using l by (simp add: line_def)
  qed
  then have "takeWhile (\<lambda>c. c \<noteq> NUL) (w @ NUL # drop (Suc e) ?b) = w" by (induction w) auto
  ultimately show ?thesis by (simp add: string_at_def)
qed

lemma means_strings:
  assumes l: "line buf es" and m: "means buf es cmd c"
  shows "map_cmd (\<lambda>(q, e). string_at (nulterminate cmd buf) q) cmd = c"
proof -
  have "rel_cmd (=) (map_cmd (\<lambda>(q, e). string_at (nulterminate cmd buf) q) cmd) c"
    unfolding cmd.rel_map by (rule cmd.rel_mono_strong [OF m]) (use string_at_word [OF l _ m] in auto)
  then show ?thesis by (simp add: cmd.rel_eq)
qed

section \<open>The claim\<close>

lemma line_text: "NUL \<notin> set txts \<Longrightarrow> line (txts @ NUL # junk) (length txts) \<and> toks (txts @ NUL # junk) (length txts) 0 = tokens txts
    \<and> length (takeWhile (\<lambda>c. c \<noteq> NUL) (txts @ NUL # junk)) = length txts"
  by (auto simp: line_def toks_def rest_def takeWhile_append)

lemma tokens_Cons: "c \<notin> set whitespace \<Longrightarrow> tokens (c # cs) \<noteq> []"
  by (subst tokens.simps) simp

lemma at_end:
  assumes l: "line buf es" and s: "s \<le> es"
  shows "snd (peek buf es [] s) = es \<longleftrightarrow> toks buf es s = []"
proof -
  obtain s1 where p: "peek buf es [] s = (False, s1)" "s1 \<le> es" "toks buf es s1 = toks buf es s" by (rule peek_no [OF l s, where tk = "[]"]) (auto simp: starts_def)
  have s1: "s1 = skip_space buf es s" using p(1) by (simp add: peek_def Let_def)
  have "toks buf es s1 \<noteq> []" if "s1 < es"
    using that rest_Cons [OF l that] skip_space_end [of buf es s] s1 tokens_Cons by (auto simp: toks_def)
  moreover have "toks buf es es = []" by (simp add: toks_def rest_end tokens.simps)
  ultimately show ?thesis using p by (cases "s1 = es") auto
qed

lemma parse_spells:
  assumes "NUL \<notin> set str"
  shows "map_option (\<lambda>(cmd, buf). map_cmd (\<lambda>(q, eq). string_at buf q) cmd) (parsecmd (str @ NUL # junk)) = Some c \<longleftrightarrow> spells 0 (tokens str) c"
proof -
  let ?buf = "str @ NUL # junk" and ?es = "length str"
  have l: "line ?buf ?es" and t: "toks ?buf ?es 0 = tokens str" and es: "length (takeWhile (\<lambda>c. c \<noteq> NUL) ?buf) = ?es" using line_text [OF assms] by auto
  have run: "parsecmd ?buf = (case parseline (Suc ?es) ?buf ?es 0 of None \<Rightarrow> None
      | Some (cmd, s) \<Rightarrow> if snd (peek ?buf ?es [] s) \<noteq> ?es then None else Some (cmd, nulterminate cmd ?buf))"
    unfolding parsecmd_def Let_def es by (auto simp: panic_def simp del: parseline.simps split: option.splits prod.splits)
  show ?thesis
  proof
    assume "spells 0 (tokens str) c"
    then have c: "complete ?buf ?es 0 (tokens str) c" by (rule spells_complete [OF _ l])
    have t0: "toks ?buf ?es 0 = tokens str @ []" "follows (after 0) []" using t by (simp_all add: follows_def)
    obtain cmd s where p: "parse_at ?buf ?es 0 ?es ?es 0 = Some (cmd, s)" "means ?buf ?es cmd c" "toks ?buf ?es s = []" "s \<le> ?es"
      by (rule completeD [OF c le0 diff_le_self diff_le_self t0])
    then have "parsecmd ?buf = Some (cmd, nulterminate cmd ?buf)" using at_end [OF l p(4)] by (simp add: run parse_at_def del: parseline.simps)
    then show "map_option (\<lambda>(cmd, buf). map_cmd (\<lambda>(q, eq). string_at buf q) cmd) (parsecmd ?buf) = Some c" using means_strings [OF l p(2)] by simp
  next
    assume "map_option (\<lambda>(cmd, buf). map_cmd (\<lambda>(q, eq). string_at buf q) cmd) (parsecmd ?buf) = Some c"
    then obtain cmd s where p: "parseline (Suc ?es) ?buf ?es 0 = Some (cmd, s)" "snd (peek ?buf ?es [] s) = ?es"
      "map_cmd (\<lambda>(q, eq). string_at (nulterminate cmd ?buf) q) cmd = c"
      by (auto simp: run simp del: parseline.simps split: option.splits if_splits)
    obtain ts c' where z: "tokens str = ts @ toks ?buf ?es s" "spells 0 ts c'" "means ?buf ?es cmd c'" "s \<le> ?es"
      using parseline_sound [OF l, of "Suc ?es"] p(1) t unfolding sound_def by fastforce
    then show "spells 0 (tokens str) c" using at_end [OF l z(4)] p(2,3) means_strings [OF l z(3)] by simp
  qed
qed

text \<open>
  C19. The shell parses a line to a command exactly if its tokens spell that command in the grammar of words, redirections, blocks,
  pipelines, \<open>&\<close> and \<open>;\<close>, whatever the spaces; in particular a line has at most one meaning. Once \<open>nulterminate\<close> has overwritten the line, every string of
  the command is the word it was read from. The bound on the number of calls in the model plays no role: a higher one gives the same result, so a line that
  spells no command, such as one with ten words in a simple command, ends in a panic.
\<close>

theorem shell_parse:
  assumes "NUL \<notin> set str"
  shows "(map_option (\<lambda>(cmd, buf). map_cmd (\<lambda>(q, eq). string_at buf q) cmd) (parsecmd (str @ NUL # junk)) = Some c \<longleftrightarrow> spells 0 (tokens str) c)
    \<and> (n > length str \<longrightarrow> parseline n (str @ NUL # junk) (length str) 0 = parseline (length str + 1) (str @ NUL # junk) (length str) 0)"
  using parse_spells [OF assms] parseline_bound [OF conjunct1 [OF line_text [OF assms]], of 0 n "length str + 1"] by simp

text \<open>A command with blanks, a pipe, a redirection in front of the command, a block and a job in the background.\<close>

theorem shell_parse_witness:
  "spells 0 (tokens ''ls  -l | (<f grep a; wc) >>out &'')
     (BACK (PIPE (EXEC [''ls'', ''-l''])
       (REDIR (LIST (REDIR (EXEC [''grep'', ''a'']) ''f'' 0 0) (EXEC [''wc''])) ''out'' 0x201 1)))"
proof -
  let ?s = "''ls  -l | (<f grep a; wc) >>out &''"
  have n: "NUL \<notin> set ?s" by simp
  have r: "map_option (\<lambda>(cmd, buf). map_cmd (\<lambda>(q, eq). string_at buf q) cmd) (parsecmd (?s @ NUL # [])) = Some
     (BACK (PIPE (EXEC [''ls'', ''-l''])
       (REDIR (LIST (REDIR (EXEC [''grep'', ''a'']) ''f'' 0 0) (EXEC [''wc''])) ''out'' 0x201 1)))"
    by code_simp
  show ?thesis using shell_parse [OF n, of "[]"] r by blast
qed

end
