(* ===== verification/User_Sh_Run.thy ===== *)
theory User_Sh_Run
  imports User_Sh_Grammar
begin

text \<open>
  How the shell runs a command, \<open>runcmd\<close> of \<open>sh.c\<close>: the program of the system calls it makes, with its continuations for the results, and the
  descriptors the programs it starts are given. The kernel side uses the search for a free descriptor of \<open>fdalloc\<close>.
\<close>

section \<open>The system calls of \<open>runcmd\<close>\<close>

text \<open>
  \<open>Exec\<close> goes on only if the call fails, \<open>Open\<close> is told whether it succeeds, \<open>MakePipe\<close> gets the two descriptors unless it fails, and \<open>Fork\<close>
  has the child, the parent and the case that there is no child.
\<close>

datatype prog =
    Exit
  | Say string prog
  | Exec "string list" prog
  | Close nat prog
  | Open string u32 "bool \<Rightarrow> prog"
  | Dup nat prog
  | MakePipe "(nat \<times> nat) option \<Rightarrow> prog"
  | Fork prog prog prog
  | Wait prog

definition sh_panic :: "string \<Rightarrow> prog" where
  "sh_panic msg = Say (msg @ [CHR 0x0A]) Exit"

definition fork1 :: "prog \<Rightarrow> prog \<Rightarrow> prog" where
  "fork1 child parent = Fork child parent (sh_panic ''fork'')"

primrec runcmd :: "string cmd \<Rightarrow> prog" where
  "runcmd (EXEC argv) =
     (if argv = [] then Exit else Exec argv (Say (''exec '' @ hd argv @ '' failed'' @ [CHR 0x0A]) Exit))"
| "runcmd (REDIR cmd f m fd) =
     Close (nat fd) (Open f m (\<lambda>ok. if ok then runcmd cmd else Say (''open '' @ f @ '' failed'' @ [CHR 0x0A]) Exit))"
| "runcmd (LIST l r) = fork1 (runcmd l) (Wait (runcmd r))"
| "runcmd (PIPE l r) =
     MakePipe (\<lambda>p. case p of
         None \<Rightarrow> sh_panic ''pipe''
       | Some (p0, p1) \<Rightarrow>
           fork1 (Close 1 (Dup p1 (Close p0 (Close p1 (runcmd l)))))
             (fork1 (Close 0 (Dup p0 (Close p0 (Close p1 (runcmd r)))))
               (Close p0 (Close p1 (Wait (Wait Exit))))))"
| "runcmd (BACK cmd) = fork1 (runcmd cmd) Exit"

section \<open>Descriptors\<close>

text \<open>What a descriptor refers to: something the shell was started with, a file, or an end of the pipe of the process with a given ancestry.\<close>

datatype resource = Given nat | Opened string u32 | ReadEnd "nat list" | WriteEnd "nat list"

text \<open>
  The programs that are started, with their descriptors, when the calls find what they need: \<open>open\<close>, \<open>dup\<close> and \<open>pipe\<close> take the lowest
  free descriptors, the child inherits them all. A child appends 0 to the name of the process and the parent goes on as 1.
\<close>

primrec started :: "prog \<Rightarrow> nat list \<Rightarrow> resource option list \<Rightarrow> (string list \<times> resource option list) list" where
  "started Exit k fs = []"
| "started (Say t p) k fs = started p k fs"
| "started (Exec argv p) k fs = [(argv, fs)]"
| "started (Close fd p) k fs = started p k (fs[fd := None])"
| "started (Open f m p) k fs =
     (case find_fd fs 0 of None \<Rightarrow> started (p False) k fs | Some fd \<Rightarrow> started (p True) k (fs[fd := Some (Opened f m)]))"
| "started (Dup fd p) k fs = (case find_fd fs 0 of None \<Rightarrow> started p k fs | Some n \<Rightarrow> started p k (fs[n := fs ! fd]))"
| "started (MakePipe p) k fs =
     (case find_fd fs 0 of
        None \<Rightarrow> started (p None) k fs
      | Some a \<Rightarrow>
          (case find_fd (fs[a := Some (ReadEnd k)]) 0 of
             None \<Rightarrow> started (p None) k fs
           | Some b \<Rightarrow> started (p (Some (a, b))) k (fs[a := Some (ReadEnd k), b := Some (WriteEnd k)])))"
| "started (Fork c p q) k fs = started c (k @ [0]) fs @ started p (k @ [1]) fs"
| "started (Wait p) k fs = started p k fs"

text \<open>Descriptors 0, 1 and 2, and nothing else.\<close>

definition std :: "resource \<Rightarrow> resource \<Rightarrow> resource \<Rightarrow> resource option list" where
  "std i out err = [Some i, Some out, Some err] @ replicate 13 None"

text \<open>The meaning of a command: the simple commands it consists of with their input, output and error output.\<close>

primrec connects :: "string cmd \<Rightarrow> nat list \<Rightarrow> resource \<Rightarrow> resource \<Rightarrow> resource \<Rightarrow> (string list \<times> resource option list) list" where
  "connects (EXEC argv) k i out err = (if argv = [] then [] else [(argv, std i out err)])"
| "connects (REDIR cmd f m fd) k i out err =
     connects cmd k (if fd = 0 then Opened f m else i) (if fd = 0 then out else Opened f m) err"
| "connects (LIST l r) k i out err = connects l (k @ [0]) i out err @ connects r (k @ [1]) i out err"
| "connects (PIPE l r) k i out err = connects l (k @ [0]) i (WriteEnd k) err @ connects r (k @ [1, 0]) (ReadEnd k) out err"
| "connects (BACK cmd) k i out err = connects cmd (k @ [0]) i out err"

section \<open>The programs are connected as the command says\<close>

primrec redirs_ok :: "'s cmd \<Rightarrow> bool" where
  "redirs_ok (EXEC argv) \<longleftrightarrow> True"
| "redirs_ok (REDIR cmd f m fd) \<longleftrightarrow> (fd = 0 \<or> fd = 1) \<and> redirs_ok cmd"
| "redirs_ok (LIST l r) \<longleftrightarrow> redirs_ok l \<and> redirs_ok r"
| "redirs_ok (PIPE l r) \<longleftrightarrow> redirs_ok l \<and> redirs_ok r"
| "redirs_ok (BACK cmd) \<longleftrightarrow> redirs_ok cmd"

lemma wraps_redirs: "list_all redir_ok rs \<Longrightarrow> redirs_ok c \<Longrightarrow> redirs_ok (wraps rs c)"
  by (induction rs arbitrary: c) (auto simp: redir_ok_def)

lemma spells_redirs: "spells l ts c \<Longrightarrow> redirs_ok c"
proof (induction rule: spells.induct)
  case (line_back ts c k)
  then show ?case by (induction k) auto
qed (auto intro: wraps_redirs)

lemma std_calls:
  "find_fd ((std i out err)[0 := None]) 0 = Some 0" "find_fd ((std i out err)[Suc 0 := None]) 0 = Some 1"
  "(std i out err)[0 := None, 0 := Some x] = std x out err" "(std i out err)[Suc 0 := None, Suc 0 := Some x] = std i x err"
  "(std i out err)[0 := Some x] = std x out err" "(std i out err)[Suc 0 := Some x] = std i x err"
  "find_fd (std i out err) 0 = Some 3" "find_fd ((std i out err)[3 := Some x]) 0 = Some 4"
  by (simp_all add: std_def numeral_eq_Suc)

lemma pipe_ends:
  "(std i out err)[3 := Some x, 4 := Some y, 3 := None, 4 := None] = std i out err"
  "find_fd ((std i out err)[3 := Some x, 4 := Some y, Suc 0 := None]) 0 = Some 1" "find_fd ((std i out err)[3 := Some x, 4 := Some y, 0 := None]) 0 = Some 0"
  "(std i out err)[3 := Some x, 4 := Some y, Suc 0 := Some y, 3 := None, 4 := None] = std i y err"
  "(std i out err)[3 := Some x, 4 := Some y, 0 := Some x, 3 := None, 4 := None] = std x out err"
  "(std i out err)[3 := Some x, 4 := Some y, Suc 0 := None] ! 4 = Some y" "(std i out err)[3 := Some x, 4 := Some y, 0 := None] ! 3 = Some x"
  by (simp_all add: std_def numeral_eq_Suc)

lemma started_connects: "redirs_ok c \<Longrightarrow> started (runcmd c) k (std i out err) = connects c k i out err"
proof (induction c arbitrary: k i out err)
  case (REDIR c f m fd)
  then show ?case by (auto simp: std_calls)
next
  case (PIPE l r)
  then show ?case by (simp add: fork1_def sh_panic_def std_calls pipe_ends)
qed (simp_all add: fork1_def sh_panic_def)

text \<open>
  C20. A line that the shell accepts is run as it says. If every system call finds the resources it needs, the programs started are exactly the
  simple commands of the line, in order; each has descriptors 0, 1 and 2 and no other, in particular no end of a pipe that would keep a reader from
  seeing the end of its input; and they are the terminal of the shell, the file of the innermost redirection, or the end of the pipe to the neighbour.
\<close>

theorem shell_run:
  assumes "NUL \<notin> set str" "map_option (\<lambda>(cmd, buf). map_cmd (\<lambda>(q, eq). string_at buf q) cmd) (parsecmd (str @ NUL # junk)) = Some c"
  shows "started (runcmd c) k (std i out err) = connects c k i out err"
proof -
  have "spells 0 (tokens str) c" using parse_spells [OF assms(1)] assms(2) by blast
  then show ?thesis by (rule started_connects [OF spells_redirs])
qed

text \<open>Two programs with a pipe between them, the second with its output in a file.\<close>

theorem shell_run_witness:
  "started (runcmd (PIPE (EXEC [''ls'', ''-l'']) (REDIR (EXEC [''wc'']) ''out'' 0x201 1))) [] (std (Given 0) (Given 1) (Given 2))
    = [([''ls'', ''-l''], std (Given 0) (WriteEnd []) (Given 2)), ([''wc''], std (ReadEnd []) (Opened ''out'' 0x201) (Given 2))]"
proof -
  let ?s = "''ls -l | wc >out''"
  have n: "NUL \<notin> set ?s" by simp
  have r: "map_option (\<lambda>(cmd, buf). map_cmd (\<lambda>(q, eq). string_at buf q) cmd) (parsecmd (?s @ NUL # [])) =
      Some (PIPE (EXEC [''ls'', ''-l'']) (REDIR (EXEC [''wc'']) ''out'' 0x201 1))"
    by code_simp
  show ?thesis unfolding shell_run [OF n r] by simp
qed

end
