(* ===== verification/User_Lib.thy ===== *)
theory User_Lib
  imports Cstring
begin

text \<open>
  The library of the user programs, \<open>ulib.c\<close> and \<open>printf.c\<close>, on the memory of the process. Functions that run until they meet a zero byte are
  partial. The functions whose names the kernel's library in \<open>Cstring\<close> has carry a \<open>u\<close> in front. Output is the list of the bytes passed to \<open>putc\<close>.
  \<open>gets\<close> reads from the list of bytes its calls of \<open>read\<close> deliver; where it ends, \<open>read\<close> returns 0.
\<close>

section \<open>Strings\<close>

partial_function (option) strcpy_loop :: "memory \<Rightarrow> addr \<Rightarrow> addr \<Rightarrow> memory option" where
  "strcpy_loop m s t = (let m' = m(s := m t) in if m t \<noteq> 0 then strcpy_loop m' (s + 1) (t + 1) else Some m')"

definition strcpy :: "memory \<Rightarrow> addr \<Rightarrow> addr \<Rightarrow> (addr \<times> memory) option" where
  "strcpy m s t = do { m \<leftarrow> strcpy_loop m s t; Some (s, m) }"

text \<open>The loop of \<open>strcmp\<close>; \<open>char\<close> is signed.\<close>

partial_function (option) strcmp_loop :: "memory \<Rightarrow> addr \<Rightarrow> addr \<Rightarrow> int option" where
  "strcmp_loop m p q =
     (if m p \<noteq> 0 \<and> m q \<noteq> 0 then
        if sint (m p) < sint (m q) then Some (-1)
        else if sint (m q) < sint (m p) then Some 1
        else strcmp_loop m (p + 1) (q + 1)
      else if m p = 0 \<and> m q = 0 then Some 0
      else if m p = 0 then Some (-1)
      else Some 1)"

definition ustrlen :: "memory \<Rightarrow> addr \<Rightarrow> u32 option" where
  "ustrlen m s = map_option word_of_nat (strlen_loop m s 0)"

definition umemset :: "memory \<Rightarrow> addr \<Rightarrow> u8 \<Rightarrow> u32 \<Rightarrow> memory" where
  "umemset m dst c n = stosb m dst c (unat n)"

partial_function (option) strchr :: "memory \<Rightarrow> addr \<Rightarrow> u8 \<Rightarrow> addr option" where
  "strchr m s c = (if m s = 0 then Some 0 else if m s = c then Some s else strchr m (s + 1) c)"

definition umemmove :: "memory \<Rightarrow> addr \<Rightarrow> addr \<Rightarrow> int \<Rightarrow> memory" where
  "umemmove m dst src n = copy_forward m dst src (nat n)"

fun gets_loop :: "int \<Rightarrow> u8 list \<Rightarrow> memory \<Rightarrow> addr \<Rightarrow> int \<Rightarrow> int \<times> memory \<times> u8 list" where
  "gets_loop i [] m buf mx = (i, m, [])"
| "gets_loop i (c # inp) m buf mx =
     (if \<not> i + 1 < mx then (i, m, c # inp)
      else let m = m(buf + word_of_int i := c) in
        if c = 10 \<or> c = 13 then (i + 1, m, inp) else gets_loop (i + 1) inp m buf mx)"

definition gets :: "u8 list \<Rightarrow> memory \<Rightarrow> addr \<Rightarrow> int \<Rightarrow> memory \<times> u8 list" where
  "gets inp m buf mx = (case gets_loop 0 inp m buf mx of (i, m, inp) \<Rightarrow> (m(buf + word_of_int i := 0), inp))"

partial_function (option) atoi_loop :: "memory \<Rightarrow> addr \<Rightarrow> u32 \<Rightarrow> u32 option" where
  "atoi_loop m s n = (if 48 \<le> m s \<and> m s \<le> 57 then atoi_loop m (s + 1) (n * 10 + ucast (m s) - 48) else Some n)"

definition atoi :: "memory \<Rightarrow> addr \<Rightarrow> u32 option" where
  "atoi m s = atoi_loop m s 0"

section \<open>Formatted output\<close>

definition udigit :: "u32 \<Rightarrow> u8" where
  "udigit d = ucast (if d < 10 then d + 48 else d + 55)"

text \<open>The digits in the order of the buffer, the lowest first. A base of zero is a division by zero.\<close>

partial_function (option) printint_loop :: "u32 \<Rightarrow> u32 \<Rightarrow> u8 list option" where
  "printint_loop base x =
     (if base = 0 then None
      else if x div base \<noteq> 0 then do { ds \<leftarrow> printint_loop base (x div base); Some (udigit (x mod base) # ds) }
      else Some [udigit (x mod base)])"

definition uprintint :: "u32 \<Rightarrow> u32 \<Rightarrow> bool \<Rightarrow> u8 list option" where
  "uprintint xx base sg = do {
     let neg = (sg \<and> sint xx < 0);
     let x = (if neg then - xx else xx);
     buf \<leftarrow> printint_loop base x;
     let buf = buf @ (if neg then [45] else []);
     Some (rev buf) }"

text \<open>The argument words of \<open>printf\<close> are numbers or addresses of strings; the bytes of a string are read up to its zero.\<close>

partial_function (option) puts_loop :: "memory \<Rightarrow> addr \<Rightarrow> u8 list option" where
  "puts_loop m s = (if m s \<noteq> 0 then do { cs \<leftarrow> puts_loop m (s + 1); Some (m s # cs) } else Some [])"

definition null_text :: "u8 list" where
  "null_text = [40, 110, 117, 108, 108, 41]"

fun printf_loop :: "memory \<Rightarrow> bool \<Rightarrow> u8 list \<Rightarrow> u32 list \<Rightarrow> u8 list option" where
  "printf_loop m percent [] ap = Some []"
| "printf_loop m percent (c # fmt) ap =
     (if \<not> percent then
        if c = 37 then printf_loop m True fmt ap else map_option ((#) c) (printf_loop m False fmt ap)
      else if c = 100 \<or> c = 120 \<or> c = 112 \<or> c = 115 \<or> c = 99 then
        case ap of
          [] \<Rightarrow> None
        | a # ap \<Rightarrow> do {
            cs \<leftarrow> (if c = 100 then uprintint a 10 True
                  else if c = 120 \<or> c = 112 then uprintint a 16 False
                  else if c = 115 then if a = 0 then Some null_text else puts_loop m a
                  else Some [ucast a]);
            map_option ((@) cs) (printf_loop m False fmt ap) }
      else if c = 37 then map_option ((#) c) (printf_loop m False fmt ap)
      else map_option ((@) [37, c]) (printf_loop m False fmt ap))"

definition printf :: "memory \<Rightarrow> addr \<Rightarrow> u32 list \<Rightarrow> u8 list option" where
  "printf m fmt ap = do { cs \<leftarrow> puts_loop m fmt; printf_loop m False cs ap }"

text \<open>\<open>strcmp\<close> prints its arguments first; the result with what it prints.\<close>

definition strcmp_fmt :: "u8 list" where
  "strcmp_fmt = [115, 116, 114, 99, 109, 112, 32, 37, 115, 32, 37, 115, 10]"

definition ustrcmp :: "memory \<Rightarrow> addr \<Rightarrow> addr \<Rightarrow> (int \<times> u8 list) option" where
  "ustrcmp m p q = do { out \<leftarrow> printf_loop m False strcmp_fmt [p, q]; r \<leftarrow> strcmp_loop m p q; Some (r, out) }"

section \<open>Strings in memory\<close>

definition has_string :: "memory \<Rightarrow> addr \<Rightarrow> u8 list \<Rightarrow> bool" where
  "has_string m a cs \<longleftrightarrow> (\<forall>i < length cs. m (a + word_of_nat i) = cs ! i) \<and> 0 \<notin> set cs \<and> m (a + word_of_nat (length cs)) = 0"

lemma has_string_Nil: "has_string m a [] \<longleftrightarrow> m a = 0"
  by (simp add: has_string_def)

lemma has_string_Cons: "has_string m a (c # cs) \<longleftrightarrow> m a = c \<and> c \<noteq> 0 \<and> has_string m (a + 1) cs"
  by (auto simp: has_string_def All_less_Suc2 ac_simps)

lemma puts_loop_string: "has_string m a cs \<Longrightarrow> puts_loop m a = Some cs"
  by (induction cs arbitrary: a) (subst puts_loop.simps; simp add: has_string_Nil has_string_Cons)+

text \<open>The order \<open>strcmp\<close> decides: of the first bytes that differ, as signed numbers; a prefix comes first.\<close>

fun string_order :: "u8 list \<Rightarrow> u8 list \<Rightarrow> int" where
  "string_order [] [] = 0"
| "string_order [] (y # ys) = -1"
| "string_order (x # xs) [] = 1"
| "string_order (x # xs) (y # ys) = (if sint x < sint y then -1 else if sint y < sint x then 1 else string_order xs ys)"

lemma strcmp_loop_string: "has_string m p xs \<Longrightarrow> has_string m q ys \<Longrightarrow> strcmp_loop m p q = Some (string_order xs ys)"
  by (induction xs ys arbitrary: p q rule: string_order.induct)
    (subst strcmp_loop.simps; simp add: has_string_Nil has_string_Cons)+

lemma string_order_0: "string_order xs ys = 0 \<longleftrightarrow> xs = ys"
  by (induction xs ys rule: string_order.induct) (auto simp: signed_word_eqI)

section \<open>Numbers\<close>

lemma mod_digit: "(x mod 10 :: u32) < 10"
  by (simp add: word_less_nat_alt unat_mod)

lemma udigit_10:
  assumes "d < 10"
  shows "48 \<le> udigit d" "udigit d \<le> 57" "ucast (udigit d) - 48 = d"
proof -
  have d: "unat d < 10" using assms by (simp add: word_less_nat_alt)
  have u: "unat (udigit d) = unat d + 48" using assms d by (simp add: udigit_def unsigned_ucast_eq take_bit_nat_eq_self unat_word_ariths)
  then show "48 \<le> udigit d" "udigit d \<le> 57" using d by (simp_all add: word_le_nat_alt)
  have "unat (ucast (udigit d) :: u32) = unat d + 48" using u d by (simp add: unsigned_ucast_eq take_bit_nat_eq_self)
  moreover have "unat (d + 48) = unat d + 48" using d by (simp add: unat_word_ariths)
  ultimately have "ucast (udigit d) = d + 48" by (simp add: word_unat_eq_iff)
  then show "ucast (udigit d) - 48 = d" by simp
qed

text \<open>The digits of a number in base ten, and what they are worth.\<close>

lemma printint_loop_10:
  assumes "0 < k" "unat x < 10 ^ k"
  shows "\<exists>ds. printint_loop 10 x = Some ds \<and> ds \<noteq> [] \<and> length ds \<le> k \<and> (\<forall>c \<in> set ds. 48 \<le> c \<and> c \<le> 57) \<and> foldr (\<lambda>c n. n * 10 + ucast c - 48) ds 0 = x"
  using assms
proof (induction k arbitrary: x)
  case (Suc k)
  note dg = udigit_10 [OF mod_digit, of x]
  have eq: "x div 10 * 10 + x mod 10 = x" by (simp add: word_mod_div_equality)
  show ?case
  proof (cases "x div 10 = 0")
    case True
    then have "printint_loop 10 x = Some [udigit (x mod 10)]" by (subst printint_loop.simps) simp
    then show ?thesis using dg eq True by simp
  next
    case False
    have u: "unat (x div 10) = unat x div 10" by (simp add: unat_div)
    then have "0 < unat x div 10" using False by (metis bot_nat_0.not_eq_extremum unat_eq_0)
    then have k: "0 < k" using Suc.prems(2) by (cases k) auto
    have "unat (x div 10) < 10 ^ k" using u Suc.prems(2) by (simp add: less_mult_imp_div_less mult.commute)
    then obtain ds where ds: "printint_loop 10 (x div 10) = Some ds" "ds \<noteq> []" "length ds \<le> k" "\<forall>c \<in> set ds. 48 \<le> c \<and> c \<le> 57" "foldr (\<lambda>c n. n * 10 + ucast c - 48) ds 0 = x div 10"
      using Suc.IH [OF k] by blast
    have "printint_loop 10 x = Some (udigit (x mod 10) # ds)" using False ds(1) by (subst printint_loop.simps) simp
    moreover have "x div 10 * 10 + ucast (udigit (x mod 10)) - 48 = x" using dg(3) eq by (simp add: add_diff_eq [symmetric])
    ultimately show ?thesis using ds dg by simp
  qed
qed simp

lemma atoi_loop_digits:
  assumes "\<forall>i < length cs. m (a + word_of_nat i) = cs ! i" "\<forall>c \<in> set cs. 48 \<le> c \<and> c \<le> 57" "\<not> (48 \<le> m (a + word_of_nat (length cs)) \<and> m (a + word_of_nat (length cs)) \<le> 57)"
  shows "atoi_loop m a n = Some (foldl (\<lambda>n c. n * 10 + ucast c - 48) n cs)"
  using assms
proof (induction cs arbitrary: a n)
  case Nil
  then show ?case by (subst atoi_loop.simps) auto
next
  case (Cons c cs)
  have h: "m a = c" "\<forall>i < length cs. m (a + 1 + word_of_nat i) = cs ! i" using Cons.prems(1) by (auto simp: All_less_Suc2 ac_simps)
  have e: "a + word_of_nat (length (c # cs)) = a + 1 + word_of_nat (length cs)" by simp
  have "atoi_loop m (a + 1) (n * 10 + ucast c - 48) = Some (foldl (\<lambda>n c. n * 10 + ucast c - 48) (n * 10 + ucast c - 48) cs)"
    by (rule Cons.IH [OF h(2) _ Cons.prems(3) [unfolded e]]) (use Cons.prems(2) in simp)
  then show ?case using h(1) Cons.prems(2) by (subst atoi_loop.simps) simp
qed

section \<open>The claim\<close>

text \<open>
  C38. Numbers survive a round trip through \<open>printf\<close> and \<open>atoi\<close>: what \<open>printint\<close> writes for \<open>%d\<close> fits its buffer of 16 bytes for every
  value, the smallest one included, and wherever those bytes are in memory, with no digit behind them, \<open>atoi\<close> reads back the number; of a negative one it reads the absolute value after
  the sign.
\<close>

theorem print_atoi:
  "\<exists>cs. uprintint x 10 True = Some cs \<and> length cs \<le> 11
    \<and> (\<forall>m a. bytes_at m a (length cs) = cs \<longrightarrow> \<not> (48 \<le> m (a + word_of_nat (length cs)) \<and> m (a + word_of_nat (length cs)) \<le> 57) \<longrightarrow>
        (if sint x < 0 then m a = 45 \<and> atoi m (a + 1) = Some (- x) else atoi m a = Some x))"
proof -
  define y where "y = (if sint x < 0 then - x else x)"
  have "unat y < 10 ^ 10" using unat_less_4G [of y] by simp
  then obtain ds where ds: "printint_loop 10 y = Some ds" "length ds \<le> 10" "\<forall>c \<in> set ds. 48 \<le> c \<and> c \<le> 57" "foldr (\<lambda>c n. n * 10 + ucast c - 48) ds 0 = y"
    using printint_loop_10 [of 10 y] by auto
  have val: "foldl (\<lambda>n c. n * 10 + ucast c - 48) 0 (rev ds) = y" using ds(4) by (simp add: foldl_conv_foldr)
  have read: "atoi m b = Some y" if "\<forall>i < length ds. m (b + word_of_nat i) = rev ds ! i" "\<not> (48 \<le> m (b + word_of_nat (length ds)) \<and> m (b + word_of_nat (length ds)) \<le> 57)" for m b
    using atoi_loop_digits [of "rev ds" m b 0] that ds(3) val by (simp add: atoi_def)
  show ?thesis
  proof (cases "sint x < 0")
    case True
    have "uprintint x 10 True = Some (45 # rev ds)" using True ds(1) by (simp add: uprintint_def y_def)
    moreover have "m a = 45 \<and> atoi m (a + 1) = Some (- x)"
      if b: "bytes_at m a (length (45 # rev ds)) = 45 # rev ds" "\<not> (48 \<le> m (a + word_of_nat (length (45 # rev ds))) \<and> m (a + word_of_nat (length (45 # rev ds))) \<le> 57)" for m a
    proof -
      have n: "m (a + word_of_nat i) = (45 # rev ds) ! i" if "i < length (45 # rev ds)" for i using b(1) that by (metis nth_bytes_at)
      have "m a = 45" "\<forall>i < length ds. m (a + 1 + word_of_nat i) = rev ds ! i" using n [of 0] n [of "Suc _"] by (auto simp: ac_simps)
      then show ?thesis using read [of m "a + 1"] b(2) True by (auto simp: y_def ac_simps)
    qed
    ultimately show ?thesis using ds(2) True by (intro exI [of _ "45 # rev ds"]) simp
  next
    case False
    have "uprintint x 10 True = Some (rev ds)" using False ds(1) by (simp add: uprintint_def y_def)
    moreover have "atoi m a = Some x"
      if b: "bytes_at m a (length ds) = rev ds" "\<not> (48 \<le> m (a + word_of_nat (length ds)) \<and> m (a + word_of_nat (length ds)) \<le> 57)" for m a
    proof -
      have "\<forall>i < length ds. m (a + word_of_nat i) = rev ds ! i" using b(1) by (metis nth_bytes_at)
      then show ?thesis using read [of m a] b(2) False by (simp add: y_def)
    qed
    ultimately show ?thesis using ds(2) False by (intro exI [of _ "rev ds"]) simp
  qed
qed

theorem print_atoi_witness:
  "atoi ((\<lambda>_. 0)(0x100 := 45, 0x101 := 52, 0x102 := 50)) 0x101 = Some (42 :: u32)"
proof -
  let ?m = "(\<lambda>_. 0)(0x100 := 45, 0x101 := 52, 0x102 := 50) :: memory"
  have "printint_loop 10 42 = Some [50, 52]" by (simp add: printint_loop.simps udigit_def)
  then have p: "uprintint (- 42) 10 True = Some [45, 52, 50]" by (simp add: uprintint_def)
  have b: "bytes_at ?m 0x100 3 = [45, 52, 50]" by (simp add: bytes_at_def upt_conv_Cons)
  show ?thesis using print_atoi [of "- 42"] p b by (auto simp: numeral_3_eq_3 dest!: spec [of _ ?m] spec [of _ "0x100"])
qed

end
