(* ===== verification/Spec2Isabelle.thy ===== *)
theory Spec2Isabelle
  imports Vm_Kernel Proc_Pid Kbd Fs_Inode Fs_Path Trap Ide User_Grep Umalloc User_Sh_Run User_Lib
begin

text \<open>
  \<^bold>\<open>Verification of xv6\<close>, the teaching kernel for 32-bit x86 multiprocessors, with its extensions for demand paging, \<open>mmap\<close>, shared pages and recycled
  process identifiers, and of the parts of its user space with algorithms of their own.

  \<^bold>\<open>The program.\<close> Physical pages come from one free list (\<open>kalloc.c\<close>). Page tables are built from them (\<open>vm.c\<close>), with a table of pages that several
  processes share (\<open>sh_mem.c\<close>). A process (\<open>proc.c\<close>) has a page table, a kernel stack and open files, and is switched to by the scheduler of its
  processor under the lock of the process table (\<open>spinlock.c\<close>). A trap (\<open>trap.c\<close>) is an interrupt, a page fault, which may be the first access to a lazy page, or a system call
  (\<open>syscall.c\<close>, \<open>sysproc.c\<close>, \<open>sysfile.c\<close>, \<open>exec.c\<close>). Files (\<open>file.c\<close>) are pipes (\<open>pipe.c\<close>), devices such as the console (\<open>console.c\<close>, \<open>kbd.c\<close>) or inodes of a file system
  (\<open>fs.c\<close>) that writes through a redo log (\<open>log.c\<close>) and a buffer cache (\<open>bio.c\<close>) to a disk (\<open>memide.c\<close> or \<open>ide.c\<close>). User programs use a small library (\<open>ulib.c\<close>,
  \<open>printf.c\<close>, \<open>umalloc.c\<close>); the shell (\<open>sh.c\<close>) and \<open>grep.c\<close> are modelled.

  \<^bold>\<open>Conventions.\<close> Integers have their width: \<open>u8\<close>, \<open>u16\<close> and \<open>u32\<close> are words, and their arithmetic wraps; an \<open>int\<close> of the source that
  cannot overflow is an \<open>int\<close>. Kernel memory is a function from 32-bit addresses to bytes, and page tables, free-list links and user pages are bytes of it. State is passed
  explicitly in records that extend one another: \<open>kmem\<close> (memory and free list), \<open>shm_state\<close>, \<open>ksys\<close> (processes, processor), \<open>kernel\<close> (with files); \<open>fsys\<close>
  is the state of the file system and \<open>ide_state\<close> extends it. A function that may panic, loop for ever, run into undefined behaviour (\<open>ub\<close>) or have to sleep where that ends the
  operation has result \<open>None\<close>; error codes and null pointers are ordinary values. A theorem that something is done says that the result is \<open>Some\<close>.
  Structural loops are \<open>fun\<close>; other loops are \<open>function\<close> with a termination proof, or \<open>partial_function\<close> where the code itself need not end, and then the theorems show that it
  does. The mutually recursive functions of the shell parser alone have a bound as an argument.

  \<^bold>\<open>Theories.\<close>
  \<^item> \<open>Xv6_Prelude\<close>: types, panic, loops, memory, collections of rewrite rules. \<open>Ring\<close>: the locale of ring buffers with free-running counters, interpreted for pipes and for the console.
  \<^item> \<open>Mmu\<close> (\<open>mmu.h\<close>, \<open>memlayout.h\<close>): address arithmetic, page-table entries, segment and gate descriptors. \<open>Cstring\<close> (\<open>string.c\<close>, \<open>stosb\<close> and \<open>stosl\<close> of \<open>x86.h\<close>): each function agrees with
    its specification on bytes, overlapping moves and wrapping addresses included.
  \<^item> \<open>Kalloc\<close> (\<open>kalloc.c\<close>): the free list refines a stack of distinct pages; locale \<open>page_allocator\<close> for its clients. \<open>Sh_mem\<close> (\<open>sh_mem.c\<close>): reference counts; locale \<open>ref_table\<close>.
  \<^item> \<open>Spinlock\<close> (\<open>spinlock.c\<close>): the operations, and mutual exclusion over all interleavings of their atomic accesses on any number of processors (\<open>smp_step\<close>).
  \<^item> \<open>Vm\<close> (\<open>vm.c\<close>), \<open>Vm_Pagetable\<close>, \<open>Vm_User\<close>, \<open>Vm_Kernel\<close>: a page directory denotes a partial map from pages to entries (\<open>pt_lookup\<close>); \<open>walkpgdir\<close>, \<open>mappages\<close>, \<open>allocuvm\<close>,
    \<open>deallocuvm\<close>, \<open>freevm\<close> and \<open>setupkvm\<close> change this map and the free pages exactly as intended, also when memory runs out. \<open>vm_inv\<close> and \<open>uvm_inv\<close> are the invariants: the pages of a
    page table, its user frames and the free pages are disjoint.
  \<^item> \<open>Proc_State\<close> (\<open>proc.h\<close>, trap frame of \<open>x86.h\<close>), \<open>User_Mem\<close> (argument fetching of \<open>syscall.c\<close>, page faults of \<open>trap.c\<close>), \<open>Proc\<close> (\<open>proc.c\<close>, \<open>sysproc.c\<close>): \<open>Proc_Sched\<close> proves the scheduling
    invariant over the step relation \<open>proc_step\<close>, that no wakeup is lost and that the scheduler is fair; \<open>Proc_Pid\<close> what identifiers are given out and what happens when there are none left.
  \<^item> \<open>Fs_State\<close> (\<open>fs.h\<close>, \<open>buf.h\<close>, \<open>file.h\<close>, \<open>sleeplock.c\<close>), \<open>Bio\<close> (\<open>bio.c\<close>, \<open>memide.c\<close>), \<open>Bio_Cache\<close>, \<open>Bio_Lru\<close>: the doubly linked list of buffers is the list in order of last use, and each block has one
    content. \<open>Log\<close> (\<open>log.c\<close>), \<open>Log_Crash\<close>, \<open>Log_Commit\<close>: the locale \<open>redo_log\<close> has the argument for crash safety, the code refines it. \<open>Fs\<close> (\<open>fs.c\<close>), \<open>Fs_Trans\<close>, \<open>Fs_Inode\<close>, \<open>Fs_Path\<close>: block allocator,
    inodes and path names within a transaction.
  \<^item> \<open>Ide\<close> (\<open>ide.c\<close>): with a controller that behaves like an ATA disk (hypothesis \<open>ata_disk\<close>; the port instructions are parameters), the interrupt-driven driver does what \<open>memide.c\<close> does.
  \<^item> \<open>Pipe\<close> (\<open>pipe.c\<close>), \<open>Console\<close>, \<open>Console_Props\<close> (\<open>console.c\<close>), \<open>Kbd\<close> (\<open>kbd.c\<close>, \<open>kbd.h\<close>): queues of bytes, line editing, the cursor on the screen, the keyboard.
  \<^item> \<open>File\<close> (\<open>file.c\<close>), \<open>Sysfile\<close> (\<open>sysfile.c\<close>), \<open>Exec\<close> (\<open>exec.c\<close>, the parts of \<open>proc.c\<close> that use files), \<open>Trap\<close> (\<open>trap.c\<close>, dispatch of \<open>syscall.c\<close>): the whole system calls on the state \<open>kernel\<close>.
  \<^item> \<open>Umalloc\<close> (\<open>umalloc.c\<close>): safety of the heap for any kernel that meets the locale \<open>image_break\<close>, interpreted with the modelled \<open>sbrk\<close>. \<open>User_Lib\<close> (\<open>ulib.c\<close>, \<open>printf.c\<close>). \<open>User_Grep\<close> (\<open>grep.c\<close>): the matcher
    decides the language of the pattern.
  \<^item> \<open>User_Sh\<close>, \<open>User_Sh_Grammar\<close>, \<open>User_Sh_Run\<close> (\<open>sh.c\<close>): the parser accepts exactly the grammar \<open>spells\<close>, and \<open>runcmd\<close> gives each program the descriptors that the command line says.

  \<^bold>\<open>Bounds.\<close> The tables have the sizes of \<open>param.h\<close> (\<open>NPROC\<close> 64, \<open>NOFILE\<close> 16, \<open>NFILE\<close> 100, \<open>NINODE\<close> 50, \<open>NBUF\<close> and \<open>LOGSIZE\<close> 30). The recursion of the shell parser is bounded by a
  number that is larger than the length of the line in the definition of \<open>parsecmd\<close>; \<open>shell_parse\<close> includes that a larger bound gives the same result.

  \<^bold>\<open>Atomicity.\<close> Interleaving is modelled where the code is about it: spin locks between processors, sleeping and waking processes between context switches, requests and interrupts of the disk, a crash between any
  two writes to the disk. Elsewhere a section under a lock is one step, and the call that would wait for a sleeping lock, a full log or a pipe ends there.

  \<^bold>\<open>Not modelled.\<close> Assembly (boot, context switch, trap entry) and \<open>bootmain.c\<close>, because its meaning is not in C; the controllers for interrupts and the timer (\<open>lapic.c\<close>, \<open>ioapic.c\<close>, \<open>picirq.c\<close>),
  the set-up of the serial port (\<open>uart.c\<close>) and the search for processors (\<open>mp.c\<close>), which read and write registers and tables of hardware that the source does not describe; \<open>main.c\<close>, which calls the initialisers
  once; the listing of \<open>procdump\<close>; user programs that only pass their arguments to system calls, and the tests (\<open>usertests.c\<close> and others). Of \<open>sh.c\<close> the loop of \<open>main\<close> and of \<open>grep.c\<close> its \<open>main\<close> are left out.
  Address translation uses no cache, so a missing flush would not show.
\<close>

end
